(* ===== verification/Juno_Prelude.thy ===== *)
theory Juno_Prelude
  imports Main "HOL-Library.Word"
begin

text \<open>
  Shared material of the development: the Go machine integers the sources use, the
  wrap-around of Go's signed \<open>int\<close>, generic lemmas on sums over finite sets of 64-bit
  words and on maps, and the collections that carry the automation of the component
  theories.
\<close>

section \<open>Automation collections\<close>

named_theorems go_defs \<open>definitions that a component proof unfolds together\<close>
named_theorems frame_simps \<open>what an operation leaves unchanged\<close>

section \<open>Go integers\<close>

type_synonym uint8 = "8 word"
type_synonym uint32 = "32 word"
type_synonym uint64 = "64 word"

text \<open>Go's \<open>int\<close> is a 64-bit two's complement integer; \<open>to_int64\<close> is its wrap-around.\<close>

definition to_int64 :: "int \<Rightarrow> int" where
  "to_int64 x = (x + 2 ^ 63) mod 2 ^ 64 - 2 ^ 63"

definition max_int64 :: int where
  "max_int64 = 2 ^ 63 - 1"

lemma to_int64_id: "- (2 ^ 63) \<le> x \<Longrightarrow> x < 2 ^ 63 \<Longrightarrow> to_int64 x = x"
  by (simp add: to_int64_def)

lemma to_int64_range: "- (2 ^ 63) \<le> to_int64 x \<and> to_int64 x < 2 ^ 63"
proof -
  have "0 \<le> (x + 2 ^ 63) mod 2 ^ 64" and "(x + 2 ^ 63) mod 2 ^ 64 < (2 :: int) ^ 64"
    by simp_all
  then show ?thesis by (simp add: to_int64_def)
qed

section \<open>Sums of 64-bit voting powers\<close>

lemma unat_sum_le:
  fixes g :: "'a \<Rightarrow> uint64"
  assumes "finite S"
  shows "unat (sum g S) \<le> (\<Sum>x\<in>S. unat (g x))"
  using assms
proof (induction S rule: finite_induct)
  case (insert x S)
  have "unat (g x + sum g S) \<le> unat (g x) + unat (sum g S)"
    by (simp add: unat_word_ariths)
  with insert show ?case by simp
qed simp

lemma unat_sum_eq:
  fixes g :: "'a \<Rightarrow> uint64"
  assumes "finite S" and "(\<Sum>x\<in>S. unat (g x)) < 2 ^ 64"
  shows "unat (sum g S) = (\<Sum>x\<in>S. unat (g x))"
  using assms
proof (induction S rule: finite_induct)
  case (insert x S)
  then have "unat (sum g S) = (\<Sum>x\<in>S. unat (g x))"
    and "unat (g x) + (\<Sum>x\<in>S. unat (g x)) < 2 ^ 64"
    by simp_all
  with insert show ?case by (simp add: unat_word_ariths)
qed simp

lemma sum_insert_if:
  fixes g :: "'a \<Rightarrow> 'b :: comm_monoid_add"
  assumes "finite S"
  shows "sum g (insert a S) = (if a \<in> S then sum g S else g a + sum g S)"
  using assms by (simp add: insert_absorb)

section \<open>Maps\<close>

lemma dom_fun_upd_Some [simp]: "dom (m(k \<mapsto> v)) = insert k (dom m)"
  by auto

lemma word_less_inc:
  fixes x :: "'a::len word"
  assumes "x \<noteq> - 1"
  shows "x < x + 1"
proof -
  have "x + 1 \<noteq> 0" using assms by (simp add: add_eq_0_iff2)
  then have "unat (x + 1) = unat x + 1" by (simp add: unatSuc add.commute)
  then show ?thesis by (simp add: word_less_nat_alt)
qed

lemma unat_nat64: "n < 2 ^ 64 \<Longrightarrow> unat (of_nat n :: uint64) = n"
  by (simp add: unsigned_of_nat take_bit_nat_eq_self)

lemma unat_nat32: "n < 2 ^ 32 \<Longrightarrow> unat (of_nat n :: uint32) = n"
  by (simp add: unsigned_of_nat take_bit_nat_eq_self)

section \<open>Slices\<close>

text \<open>Reading a slice; out of range the code panics, which is \<open>None\<close>.\<close>

definition slice_get :: "'a list \<Rightarrow> nat \<Rightarrow> 'a option" where
  "slice_get xs i = (if i < length xs then Some (xs ! i) else None)"

lemma slice_get_Some [simp]: "i < length xs \<Longrightarrow> slice_get xs i = Some (xs ! i)"
  by (simp add: slice_get_def)

text \<open>\<open>copy(dst[off:], src)\<close>.\<close>

definition copy_at :: "nat \<Rightarrow> 'a list \<Rightarrow> 'a list \<Rightarrow> 'a list" where
  "copy_at off dst src = take off dst @ take (length dst - off) src @ drop (off + length src) dst"

section \<open>Results\<close>

text \<open>An operation that may fail returns its error on the left.\<close>

fun bindE :: "'e + 'a \<Rightarrow> ('a \<Rightarrow> 'e + 'b) \<Rightarrow> 'e + 'b" where
  "bindE (Inl e) f = Inl e"
| "bindE (Inr x) f = f x"

fun mapErr :: "('e \<Rightarrow> 'd) \<Rightarrow> 'e + 'a \<Rightarrow> 'd + 'a" where
  "mapErr f (Inl e) = Inl (f e)"
| "mapErr f (Inr x) = Inr x"

lemma bindE_Inr: "bindE m f = Inr y \<longleftrightarrow> (\<exists>x. m = Inr x \<and> f x = Inr y)"
  by (cases m) auto

end
