(* ===== verification/Consensus_Types.thy ===== *)
theory Consensus_Types
  imports Juno_Prelude
begin

text \<open>
  The data of the consensus engine (\<open>consensus/types\<close>, \<open>consensus/types/actions\<close>,
  \<open>consensus/types/wal\<close>): heights, rounds, steps, messages, timeouts, write-ahead-log
  entries and the actions the state machine returns. The Go type parameters \<open>V\<close>, \<open>H\<close> and
  \<open>A\<close> (values, value hashes, addresses) are the type variables \<open>'v\<close>, \<open>'h\<close> and \<open>'a\<close>.
  A \<open>*H\<close> that may be nil is an \<open>'h option\<close>. The pointer \<open>Proposal.Value\<close> is never nil in
  the messages the node builds or accepts, so it is a plain \<open>'v\<close>.
\<close>

section \<open>Heights, rounds, voting power\<close>

type_synonym height = uint64
type_synonym round = int
type_synonym voting_power = uint64

section \<open>Steps\<close>

text \<open>
  \<open>Step\<close> is a \<open>uint8\<close> with three named values; \<open>StepOther n\<close> is the value \<open>3 + n\<close>, which
  only a decoded timeout can carry.
\<close>

datatype step = StepPropose | StepPrevote | StepPrecommit | StepOther nat

fun step_num :: "step \<Rightarrow> nat" where
  "step_num StepPropose = 0"
| "step_num StepPrevote = 1"
| "step_num StepPrecommit = 2"
| "step_num (StepOther n) = 3 + n"

fun step_String :: "step \<Rightarrow> string" where
  "step_String StepPropose = ''propose''"
| "step_String StepPrevote = ''prevote''"
| "step_String StepPrecommit = ''precommit''"
| "step_String (StepOther _) = ''unknown''"

lemma step_num_inject [simp]: "step_num s = step_num t \<longleftrightarrow> s = t"
  by (cases s; cases t) auto

text \<open>Go compares steps as integers (\<open>s.state.step >= types.StepPrevote\<close>).\<close>

instantiation step :: linorder
begin

definition less_eq_step :: "step \<Rightarrow> step \<Rightarrow> bool" where
  "less_eq_step s t \<longleftrightarrow> step_num s \<le> step_num t"

definition less_step :: "step \<Rightarrow> step \<Rightarrow> bool" where
  "less_step s t \<longleftrightarrow> step_num s < step_num t"

instance
  by standard (auto simp: less_eq_step_def less_step_def)

end

section \<open>Messages\<close>

record 'a message_header =
  Height :: height
  Round :: round
  Sender :: 'a

record ('v, 'a) proposal = "'a message_header" +
  ValidRound :: round
  Value :: 'v

record ('h, 'a) vote = "'a message_header" +
  ID :: "'h option"

record timeout =
  tm_Step :: step
  tm_Height :: height
  tm_Round :: round

section \<open>Write-ahead-log entries\<close>

datatype ('v, 'h, 'a) wal_entry =
    WalStart height
  | WalProposal "('v, 'a) proposal"
  | WalPrevote "('h, 'a) vote"
  | WalPrecommit "('h, 'a) vote"
  | WalTimeout timeout

fun GetHeight :: "('v, 'h, 'a) wal_entry \<Rightarrow> height" where
  "GetHeight (WalStart h) = h"
| "GetHeight (WalProposal p) = Height p"
| "GetHeight (WalPrevote v) = Height v"
| "GetHeight (WalPrecommit v) = Height v"
| "GetHeight (WalTimeout t) = tm_Height t"

section \<open>Actions\<close>

datatype ('v, 'h, 'a) action =
    WriteWAL "('v, 'h, 'a) wal_entry"
  | BroadcastProposal "('v, 'a) proposal"
  | BroadcastPrevote "('h, 'a) vote"
  | BroadcastPrecommit "('h, 'a) vote"
  | ScheduleTimeout timeout
  | Commit "('v, 'a) proposal"
  | TriggerSync height height

fun RequiresWALFlush :: "('v, 'h, 'a) action \<Rightarrow> bool" where
  "RequiresWALFlush (WriteWAL _) = False"
| "RequiresWALFlush (BroadcastProposal _) = True"
| "RequiresWALFlush (BroadcastPrevote _) = True"
| "RequiresWALFlush (BroadcastPrecommit _) = True"
| "RequiresWALFlush (ScheduleTimeout _) = False"
| "RequiresWALFlush (Commit _) = True"
| "RequiresWALFlush (TriggerSync _ _) = False"

end
