(* ===== verification/Vote_Counter.thy ===== *)
theory Vote_Counter
  imports Consensus_Types
begin

text \<open>
  The vote counter (\<open>consensus/votecounter\<close>): ballots of one round and one value
  (\<open>ballot.go\<close>), the data of one round (\<open>round_data.go\<close>) and the counter of the current
  and of future heights (\<open>vote_counter.go\<close>). Go's maps are HOL maps, the two-element
  arrays indexed by \<open>VoteType\<close> are functions of \<open>vote_type\<close>, and an operation that
  mutates its receiver returns the new receiver. \<open>getRoundData\<close> returns a pointer into
  the counter; \<open>put_round_data\<close> is the write through that pointer.
\<close>

section \<open>Ballots\<close>

datatype vote_type = Prevote | Precommit

type_synonym ballot = "vote_type \<Rightarrow> bool"

record 'a ballot_set =
  ballots :: "'a \<rightharpoonup> ballot"
  perVoteType :: "vote_type \<Rightarrow> voting_power"
  total :: voting_power

definition newBallotSet :: "'a ballot_set" where
  "newBallotSet = \<lparr>ballots = Map.empty, perVoteType = (\<lambda>_. 0), total = 0\<rparr>"

definition ballot_add :: "'a ballot_set \<Rightarrow> 'a \<Rightarrow> voting_power \<Rightarrow> vote_type \<Rightarrow> bool \<times> 'a ballot_set" where
  "ballot_add b addr addrPower voteType =
     (let b1 = (case ballots b addr of
                  None \<Rightarrow> b\<lparr>ballots := (ballots b)(addr \<mapsto> (\<lambda>_. False)), total := total b + addrPower\<rparr>
                | Some _ \<Rightarrow> b);
          blt = the (ballots b1 addr)
      in if blt voteType then (False, b1)
         else (True, b1\<lparr>ballots := (ballots b1)(addr \<mapsto> blt(voteType := True)),
                        perVoteType := (perVoteType b1)(voteType := perVoteType b1 voteType + addrPower)\<rparr>))"

section \<open>Round data\<close>

record ('v, 'h, 'a) round_data =
  rd_proposal :: "('v, 'a) proposal option"
  uncountedProposerPower :: voting_power
  perIDVotes :: "'h \<rightharpoonup> 'a ballot_set"
  nilVotes :: "'a ballot_set"
  allVotes :: "'a ballot_set"

type_synonym ('v, 'h, 'a) round_map = "round \<rightharpoonup> ('v, 'h, 'a) round_data"

definition newRoundData :: "('v, 'h, 'a) round_data" where
  "newRoundData = \<lparr>rd_proposal = None, uncountedProposerPower = 0, perIDVotes = Map.empty,
     nilVotes = newBallotSet, allVotes = newBallotSet\<rparr>"

definition setProposal ::
  "('v, 'h, 'a) round_data \<Rightarrow> ('v, 'a) proposal \<Rightarrow> voting_power \<Rightarrow> bool \<times> ('v, 'h, 'a) round_data" where
  "setProposal r p votingPower =
     (if rd_proposal r \<noteq> None then (False, r)
      else let r1 = r\<lparr>rd_proposal := Some p\<rparr>;
               proposerNotVoted =
                 (case ballots (allVotes r1) (Sender p) of
                    None \<Rightarrow> True
                  | Some blt \<Rightarrow> \<not> blt Prevote \<and> \<not> blt Precommit)
           in (True, if proposerNotVoted then r1\<lparr>uncountedProposerPower := votingPower\<rparr> else r1))"

text \<open>
  \<open>addVote\<close> picks the ballot set of the vote's value (created when the value is new) or the
  one of nil votes, clears the proposer's uncounted power when the proposer votes, and
  adds the vote to both the total and the per-value ballot sets.
\<close>

definition addVote ::
  "('v, 'h, 'a) round_data \<Rightarrow> ('h, 'a) vote \<Rightarrow> voting_power \<Rightarrow> vote_type \<Rightarrow> bool \<times> ('v, 'h, 'a) round_data" where
  "addVote r vt votingPower voteType =
     (let perVote = (case ID vt of
                       Some i \<Rightarrow> (case perIDVotes r i of None \<Rightarrow> newBallotSet | Some b \<Rightarrow> b)
                     | None \<Rightarrow> nilVotes r);
          r1 = (if uncountedProposerPower r > 0 \<and>
                   (case rd_proposal r of None \<Rightarrow> False | Some p \<Rightarrow> Sender p = Sender vt)
                then r\<lparr>uncountedProposerPower := 0\<rparr> else r);
          r2 = r1\<lparr>allVotes := snd (ballot_add (allVotes r1) (Sender vt) votingPower voteType)\<rparr>;
          (ok, perVote') = ballot_add perVote (Sender vt) votingPower voteType
      in (ok, case ID vt of
                Some i \<Rightarrow> r2\<lparr>perIDVotes := (perIDVotes r2)(i \<mapsto> perVote')\<rparr>
              | None \<Rightarrow> r2\<lparr>nilVotes := perVote'\<rparr>))"

definition countVote :: "('v, 'h, 'a) round_data \<Rightarrow> vote_type \<Rightarrow> 'h option \<Rightarrow> voting_power" where
  "countVote r voteType i =
     (case i of
        Some h \<Rightarrow> (case perIDVotes r h of None \<Rightarrow> 0 | Some b \<Rightarrow> perVoteType b voteType)
      | None \<Rightarrow> perVoteType (nilVotes r) voteType)"

definition countAny :: "('v, 'h, 'a) round_data \<Rightarrow> vote_type \<Rightarrow> voting_power" where
  "countAny r voteType = perVoteType (allVotes r) voteType"

definition countFutureMessageSenders :: "('v, 'h, 'a) round_data \<Rightarrow> voting_power" where
  "countFutureMessageSenders r = total (allVotes r) + uncountedProposerPower r"

section \<open>The vote counter\<close>

text \<open>The \<open>Validators\<close> interface: its implementation is a parameter.\<close>

record 'a validators =
  TotalVotingPower :: "height \<Rightarrow> voting_power"
  ValidatorVotingPower :: "height \<Rightarrow> 'a \<Rightarrow> voting_power"
  ProposerOf :: "height \<Rightarrow> round \<Rightarrow> 'a"

record ('v, 'h, 'a) vote_counter =
  vc_validators :: "'a validators"
  currentHeight :: height
  totalVotingPower :: voting_power
  faultyVotingPower :: voting_power
  quorumVotingPower :: voting_power
  roundData :: "('v, 'h, 'a) round_map"
  futureMessages :: "height \<rightharpoonup> ('v, 'h, 'a) round_map"

text \<open>The thresholds \<open>f\<close> and \<open>q\<close>, in unsigned 64-bit arithmetic.\<close>

definition f_threshold :: "voting_power \<Rightarrow> voting_power" where
  "f_threshold totalPower = (totalPower - 1) div 3"

definition q_threshold :: "voting_power \<Rightarrow> voting_power" where
  "q_threshold totalPower =
     (let d = totalPower * 2; q = d div 3; r = d mod 3 in if r > 0 then q + 1 else q)"

definition newVoteCounter :: "'a validators \<Rightarrow> height \<Rightarrow> ('v, 'h, 'a) vote_counter" where
  "newVoteCounter vals h =
     (let tot = TotalVotingPower vals h
      in \<lparr>vc_validators = vals, currentHeight = h, totalVotingPower = tot,
          faultyVotingPower = f_threshold tot, quorumVotingPower = q_threshold tot,
          roundData = Map.empty, futureMessages = Map.empty\<rparr>)"

definition StartNewHeight :: "('v, 'h, 'a) vote_counter \<Rightarrow> ('v, 'h, 'a) vote_counter" where
  "StartNewHeight v =
     (let h = currentHeight v + 1;
          tot = TotalVotingPower (vc_validators v) h;
          v1 = v\<lparr>currentHeight := h, totalVotingPower := tot,
                 faultyVotingPower := f_threshold tot, quorumVotingPower := q_threshold tot\<rparr>
      in case futureMessages v h of
           None \<Rightarrow> v1\<lparr>roundData := Map.empty\<rparr>
         | Some rm \<Rightarrow> v1\<lparr>roundData := rm, futureMessages := (futureMessages v)(h := None)\<rparr>)"

definition getOrCreateRoundData ::
  "('v, 'h, 'a) round_map \<Rightarrow> round \<Rightarrow> ('v, 'h, 'a) round_data \<times> ('v, 'h, 'a) round_map" where
  "getOrCreateRoundData rm r =
     (case rm r of Some e \<Rightarrow> (e, rm) | None \<Rightarrow> (newRoundData, rm(r \<mapsto> newRoundData)))"

definition getRoundData ::
  "('v, 'h, 'a) vote_counter \<Rightarrow> height \<Rightarrow> round \<Rightarrow> (('v, 'h, 'a) round_data \<times> ('v, 'h, 'a) vote_counter) option" where
  "getRoundData v h r =
     (if h < currentHeight v then None
      else if h = currentHeight v then
        (let (e, rm) = getOrCreateRoundData (roundData v) r in Some (e, v\<lparr>roundData := rm\<rparr>))
      else
        (let rm0 = (case futureMessages v h of Some rm \<Rightarrow> rm | None \<Rightarrow> Map.empty);
             (e, rm) = getOrCreateRoundData rm0 r
         in Some (e, v\<lparr>futureMessages := (futureMessages v)(h \<mapsto> rm)\<rparr>)))"

text \<open>The write through the pointer \<open>getRoundData\<close> returned for height \<open>h\<close> and round \<open>r\<close>.\<close>

definition put_round_data ::
  "('v, 'h, 'a) vote_counter \<Rightarrow> height \<Rightarrow> round \<Rightarrow> ('v, 'h, 'a) round_data \<Rightarrow> ('v, 'h, 'a) vote_counter" where
  "put_round_data v h r e =
     (if h = currentHeight v then v\<lparr>roundData := (roundData v)(r \<mapsto> e)\<rparr>
      else v\<lparr>futureMessages := (futureMessages v)(h \<mapsto>
        (case futureMessages v h of Some rm \<Rightarrow> rm | None \<Rightarrow> Map.empty)(r \<mapsto> e))\<rparr>)"

definition AddProposal ::
  "('v, 'h, 'a) vote_counter \<Rightarrow> ('v, 'a) proposal \<Rightarrow> bool \<times> ('v, 'h, 'a) vote_counter" where
  "AddProposal v p =
     (case getRoundData v (Height p) (Round p) of
        None \<Rightarrow> (False, v)
      | Some (rd, v1) \<Rightarrow>
          if Sender p \<noteq> ProposerOf (vc_validators v1) (Height p) (Round p) then (False, v1)
          else (let votingPower = ValidatorVotingPower (vc_validators v1) (Height p) (Sender p);
                    (ok, rd') = setProposal rd p votingPower
                in (ok, put_round_data v1 (Height p) (Round p) rd')))"

definition AddPrevote ::
  "('v, 'h, 'a) vote_counter \<Rightarrow> ('h, 'a) vote \<Rightarrow> bool \<times> ('v, 'h, 'a) vote_counter" where
  "AddPrevote v p =
     (case getRoundData v (Height p) (Round p) of
        None \<Rightarrow> (False, v)
      | Some (rd, v1) \<Rightarrow>
          (let votingPower = ValidatorVotingPower (vc_validators v1) (Height p) (Sender p);
               (ok, rd') = addVote rd p votingPower Prevote
           in (ok, put_round_data v1 (Height p) (Round p) rd')))"

definition AddPrecommit ::
  "('v, 'h, 'a) vote_counter \<Rightarrow> ('h, 'a) vote \<Rightarrow> bool \<times> ('v, 'h, 'a) vote_counter" where
  "AddPrecommit v p =
     (case getRoundData v (Height p) (Round p) of
        None \<Rightarrow> (False, v)
      | Some (rd, v1) \<Rightarrow>
          (let votingPower = ValidatorVotingPower (vc_validators v1) (Height p) (Sender p);
               (ok, rd') = addVote rd p votingPower Precommit
           in (ok, put_round_data v1 (Height p) (Round p) rd')))"

definition GetProposal :: "('v, 'h, 'a) vote_counter \<Rightarrow> round \<Rightarrow> ('v, 'a) proposal option" where
  "GetProposal v r = (case roundData v r of None \<Rightarrow> None | Some rd \<Rightarrow> rd_proposal rd)"

definition HasQuorumForVote ::
  "('v, 'h, 'a) vote_counter \<Rightarrow> round \<Rightarrow> vote_type \<Rightarrow> 'h option \<Rightarrow> bool" where
  "HasQuorumForVote v r voteType i =
     (case roundData v r of None \<Rightarrow> False | Some rd \<Rightarrow> countVote rd voteType i \<ge> quorumVotingPower v)"

definition HasQuorumForAny :: "('v, 'h, 'a) vote_counter \<Rightarrow> round \<Rightarrow> vote_type \<Rightarrow> bool" where
  "HasQuorumForAny v r voteType =
     (case roundData v r of None \<Rightarrow> False | Some rd \<Rightarrow> countAny rd voteType \<ge> quorumVotingPower v)"

definition HasFuturePrecommitQuorum ::
  "('v, 'h, 'a) vote_counter \<Rightarrow> height \<Rightarrow> round \<Rightarrow> 'h option \<Rightarrow> bool \<times> ('v, 'h, 'a) vote_counter" where
  "HasFuturePrecommitQuorum v h r i =
     (case getRoundData v h r of
        None \<Rightarrow> (False, v)
      | Some (rd, v1) \<Rightarrow> (countVote rd Precommit i \<ge> quorumVotingPower v1, v1))"

definition HasNonFaultyFutureMessage :: "('v, 'h, 'a) vote_counter \<Rightarrow> round \<Rightarrow> bool" where
  "HasNonFaultyFutureMessage v r =
     (case roundData v r of None \<Rightarrow> False
      | Some rd \<Rightarrow> countFutureMessageSenders rd > faultyVotingPower v)"

definition Proposer :: "('v, 'h, 'a) vote_counter \<Rightarrow> round \<Rightarrow> 'a" where
  "Proposer v r = ProposerOf (vc_validators v) (currentHeight v) r"


section \<open>What a ballot set counts\<close>

text \<open>\<open>voters b t\<close> is the set of addresses whose vote of type \<open>t\<close> the ballot set holds.\<close>

definition voters :: "'a ballot_set \<Rightarrow> vote_type \<Rightarrow> 'a set" where
  "voters b t = {a. \<exists>blt. ballots b a = Some blt \<and> blt t}"

definition ballot_ok :: "('a \<Rightarrow> voting_power) \<Rightarrow> 'a ballot_set \<Rightarrow> bool" where
  "ballot_ok pw b \<longleftrightarrow>
     finite (dom (ballots b)) \<and> (\<forall>a blt. ballots b a = Some blt \<longrightarrow> (\<exists>t. blt t)) \<and>
     (\<forall>t. perVoteType b t = sum pw (voters b t)) \<and> total b = sum pw (dom (ballots b))"

lemma voters_subset_dom: "voters b t \<subseteq> dom (ballots b)"
  by (auto simp: voters_def)

lemma ballot_ok_finite: "ballot_ok pw b \<Longrightarrow> finite (voters b t)"
  by (meson ballot_ok_def finite_subset voters_subset_dom)

lemma ballot_ok_new [simp]: "ballot_ok pw newBallotSet"
  by (simp add: ballot_ok_def newBallotSet_def voters_def)

lemma voters_new [simp]: "voters newBallotSet t = {}"
  by (simp add: newBallotSet_def voters_def)

lemma ballots_new [simp]: "ballots newBallotSet = Map.empty"
  by (simp add: newBallotSet_def)

lemma fst_ballot_add: "fst (ballot_add b a p t) \<longleftrightarrow> a \<notin> voters b t"
  by (auto simp: ballot_add_def voters_def Let_def split: option.splits)

lemma dom_ballot_add: "dom (ballots (snd (ballot_add b a p t))) = insert a (dom (ballots b))"
  by (auto simp: ballot_add_def Let_def split: option.splits if_splits)

lemma voters_ballot_add:
  "voters (snd (ballot_add b a p t)) u = (if u = t then insert a (voters b t) else voters b u)"
  by (auto simp: ballot_add_def voters_def Let_def split: option.splits if_splits)

lemma total_ballot_add:
  "total (snd (ballot_add b a p t)) = (if a \<in> dom (ballots b) then total b else total b + p)"
  by (auto simp: ballot_add_def Let_def split: option.splits)

lemma perVoteType_ballot_add:
  "perVoteType (snd (ballot_add b a p t)) u =
     (if u = t \<and> a \<notin> voters b t then perVoteType b u + p else perVoteType b u)"
  by (auto simp: ballot_add_def voters_def Let_def split: option.splits)

lemma ballot_add_nonempty:
  assumes "\<forall>a blt. ballots b a = Some blt \<longrightarrow> (\<exists>t. blt t)"
  shows "\<forall>c blt. ballots (snd (ballot_add b a p t)) c = Some blt \<longrightarrow> (\<exists>t. blt t)"
  using assms by (fastforce simp: ballot_add_def Let_def split: option.splits if_splits)

text \<open>Adding a vote keeps the tallies equal to the power of the distinct voters.\<close>

lemma ballot_ok_add:
  assumes "ballot_ok pw b"
  shows "ballot_ok pw (snd (ballot_add b a (pw a) t))"
proof -
  have fin: "finite (dom (ballots b))" "\<And>u. finite (voters b u)"
    using assms by (auto simp: ballot_ok_def intro: ballot_ok_finite)
  have "perVoteType (snd (ballot_add b a (pw a) t)) u = sum pw (voters (snd (ballot_add b a (pw a) t)) u)" for u
    using assms fin by (simp add: perVoteType_ballot_add voters_ballot_add ballot_ok_def insert_absorb add.commute)
  moreover have "total (snd (ballot_add b a (pw a) t)) = sum pw (dom (ballots (snd (ballot_add b a (pw a) t))))"
    using assms fin by (simp add: total_ballot_add dom_ballot_add ballot_ok_def insert_absorb add.commute)
  ultimately show ?thesis
    using assms ballot_add_nonempty [of b a "pw a" t] fin by (auto simp: ballot_ok_def dom_ballot_add)
qed

section \<open>What the data of a round counts\<close>

definition ballot_for :: "('v, 'h, 'a) round_data \<Rightarrow> 'h option \<Rightarrow> 'a ballot_set" where
  "ballot_for r i =
     (case i of
        None \<Rightarrow> nilVotes r
      | Some h \<Rightarrow> (case perIDVotes r h of None \<Rightarrow> newBallotSet | Some b \<Rightarrow> b))"

definition voters_for :: "('v, 'h, 'a) round_data \<Rightarrow> vote_type \<Rightarrow> 'h option \<Rightarrow> 'a set" where
  "voters_for r t i = voters (ballot_for r i) t"

text \<open>Everyone the round has heard from: its voters and the sender of its proposal.\<close>

definition round_senders :: "('v, 'h, 'a) round_data \<Rightarrow> 'a set" where
  "round_senders r =
     (\<Union>t. \<Union>i. voters_for r t i) \<union> (case rd_proposal r of None \<Rightarrow> {} | Some p \<Rightarrow> {Sender p})"

definition round_ok :: "('a \<Rightarrow> voting_power) \<Rightarrow> 'a \<Rightarrow> ('v, 'h, 'a) round_data \<Rightarrow> bool" where
  "round_ok pw prop r \<longleftrightarrow>
     ballot_ok pw (allVotes r) \<and> (\<forall>i. ballot_ok pw (ballot_for r i)) \<and>
     (\<forall>t. voters (allVotes r) t = (\<Union>i. voters_for r t i)) \<and>
     (\<forall>p. rd_proposal r = Some p \<longrightarrow> Sender p = prop) \<and>
     uncountedProposerPower r =
       (case rd_proposal r of None \<Rightarrow> 0
        | Some p \<Rightarrow> if Sender p \<in> dom (ballots (allVotes r)) then 0 else pw (Sender p))"

lemma ballot_for_new [simp]: "ballot_for newRoundData i = newBallotSet"
  by (simp add: newRoundData_def ballot_for_def split: option.splits)

lemma round_ok_new: "round_ok pw prop newRoundData"
  by (simp add: round_ok_def voters_for_def) (simp add: newRoundData_def)

lemma voters_for_new [simp]: "voters_for newRoundData t i = {}"
  by (simp add: voters_for_def)

lemma finite_voters_for: "round_ok pw prop r \<Longrightarrow> finite (voters_for r t i)"
  by (auto simp: round_ok_def voters_for_def intro: ballot_ok_finite)

lemma dom_ballots_eq: "ballot_ok pw b \<Longrightarrow> dom (ballots b) = (\<Union>t. voters b t)"
  by (fastforce simp: ballot_ok_def voters_def)

text \<open>The tallies are the voting power of the distinct senders behind them.\<close>

lemma countVote_ballot_for: "countVote r t i = perVoteType (ballot_for r i) t"
  by (simp add: countVote_def ballot_for_def newBallotSet_def split: option.splits)

lemma countVote_sum: "round_ok pw prop r \<Longrightarrow> countVote r t i = sum pw (voters_for r t i)"
  by (simp add: countVote_ballot_for round_ok_def voters_for_def ballot_ok_def)

lemma countAny_sum: "round_ok pw prop r \<Longrightarrow> countAny r t = sum pw (\<Union>i. voters_for r t i)"
  by (auto simp: round_ok_def countAny_def ballot_ok_def)

lemma countFutureMessageSenders_sum:
  assumes "round_ok pw prop r"
  shows "countFutureMessageSenders r = sum pw (round_senders r)"
proof -
  have D: "dom (ballots (allVotes r)) = (\<Union>t. \<Union>i. voters_for r t i)"
    using assms dom_ballots_eq [of pw "allVotes r"] by (simp add: round_ok_def)
  have fin: "finite (dom (ballots (allVotes r)))" and
    tot: "total (allVotes r) = sum pw (dom (ballots (allVotes r)))"
    using assms by (auto simp: round_ok_def ballot_ok_def)
  show ?thesis
  proof (cases "rd_proposal r")
    case None
    with assms tot show ?thesis
      by (simp add: countFutureMessageSenders_def round_senders_def round_ok_def D)
  next
    case (Some p)
    then have "round_senders r = insert (Sender p) (dom (ballots (allVotes r)))"
      by (simp add: round_senders_def D)
    with Some assms tot fin show ?thesis
      by (simp add: countFutureMessageSenders_def round_ok_def sum_insert_if add.commute)
  qed
qed

lemma setProposal_fields [simp]:
  "fst (setProposal r p w) \<longleftrightarrow> rd_proposal r = None"
  "ballot_for (snd (setProposal r p w)) i = ballot_for r i"
  "allVotes (snd (setProposal r p w)) = allVotes r"
  "rd_proposal (snd (setProposal r p w)) = (case rd_proposal r of None \<Rightarrow> Some p | Some q \<Rightarrow> Some q)"
  by (auto simp: setProposal_def ballot_for_def Let_def split: option.splits)

lemma voters_for_setProposal [simp]: "voters_for (snd (setProposal r p w)) t i = voters_for r t i"
  by (simp add: voters_for_def)

lemma proposer_not_voted:
  assumes "ballot_ok pw b"
  shows "(case ballots b a of None \<Rightarrow> True | Some blt \<Rightarrow> \<not> blt Prevote \<and> \<not> blt Precommit)
    \<longleftrightarrow> a \<notin> dom (ballots b)"
proof -
  have "blt Prevote \<or> blt Precommit" if "ballots b a = Some blt" for blt
    using assms that by (metis (full_types) ballot_ok_def vote_type.exhaust)
  then show ?thesis by (auto split: option.splits)
qed

lemma round_ok_setProposal:
  assumes "round_ok pw prop r" and "Sender p = prop"
  shows "round_ok pw prop (snd (setProposal r p (pw (Sender p))))"
proof (cases "rd_proposal r")
  case None
  have "uncountedProposerPower (snd (setProposal r p (pw (Sender p)))) =
      (if Sender p \<in> dom (ballots (allVotes r)) then 0 else pw (Sender p))"
    using None assms(1) proposer_not_voted [of pw "allVotes r" "Sender p"]
    by (auto simp: setProposal_def round_ok_def Let_def)
  with None assms show ?thesis
    by (simp add: round_ok_def)
next
  case (Some q)
  with assms show ?thesis by (simp add: setProposal_def)
qed

lemma UN_insert_at: "(\<Union>i. if i = j then insert a (F i) else F i) = insert a (\<Union>i. F i)"
proof
  show "insert a (\<Union>i. F i) \<subseteq> (\<Union>i. if i = j then insert a (F i) else F i)"
  proof
    fix x assume "x \<in> insert a (\<Union>i. F i)"
    then obtain i where "x = a \<and> i = j \<or> x \<in> F i" by auto
    then have "x \<in> (if i = j then insert a (F i) else F i)" by auto
    then show "x \<in> (\<Union>i. if i = j then insert a (F i) else F i)" by blast
  qed
qed (auto split: if_splits)

lemma addVote_fields [simp]:
  "fst (addVote r v w t) = fst (ballot_add (ballot_for r (ID v)) (Sender v) w t)"
  "ballot_for (snd (addVote r v w t)) i =
     (if i = ID v then snd (ballot_add (ballot_for r (ID v)) (Sender v) w t) else ballot_for r i)"
  "allVotes (snd (addVote r v w t)) = snd (ballot_add (allVotes r) (Sender v) w t)"
  "rd_proposal (snd (addVote r v w t)) = rd_proposal r"
  by (cases i; cases "ID v"; simp add: addVote_def ballot_for_def Let_def split_beta)+

lemma uncounted_addVote:
  "uncountedProposerPower (snd (addVote r v w t)) =
     (if (case rd_proposal r of None \<Rightarrow> False | Some p \<Rightarrow> Sender p = Sender v)
      then 0 else uncountedProposerPower r)"
  by (cases "ID v"; simp add: addVote_def Let_def split_beta word_gt_0)

lemma voters_for_addVote:
  "voters_for (snd (addVote r v w t)) u i =
     (if u = t \<and> i = ID v then insert (Sender v) (voters_for r u i) else voters_for r u i)"
  by (simp add: voters_for_def voters_ballot_add)

lemma fst_addVote: "fst (addVote r v w t) \<longleftrightarrow> Sender v \<notin> voters_for r t (ID v)"
  by (simp add: fst_ballot_add voters_for_def)

lemma round_ok_addVote:
  assumes "round_ok pw prop r"
  shows "round_ok pw prop (snd (addVote r v (pw (Sender v)) t))"
proof -
  let ?r = "snd (addVote r v (pw (Sender v)) t)"
  have "voters (allVotes ?r) u = (\<Union>i. voters_for ?r u i)" for u
    using assms UN_insert_at [of "ID v" "Sender v" "voters_for r t"]
    by (cases "u = t") (simp_all add: voters_ballot_add voters_for_addVote round_ok_def)
  moreover have "ballot_ok pw (allVotes ?r)" "\<And>i. ballot_ok pw (ballot_for ?r i)"
    using assms by (simp_all add: round_ok_def ballot_ok_add)
  moreover have "uncountedProposerPower ?r =
      (case rd_proposal ?r of None \<Rightarrow> 0
       | Some p \<Rightarrow> if Sender p \<in> dom (ballots (allVotes ?r)) then 0 else pw (Sender p))"
    using assms by (auto simp: uncounted_addVote dom_ballot_add round_ok_def split: option.splits)
  ultimately show ?thesis
    using assms by (simp add: round_ok_def)
qed


section \<open>What the counter counts\<close>

text \<open>The data of height \<open>h\<close> and round \<open>r\<close>, as \<open>getRoundData\<close> finds it before creating it.\<close>

definition round_at :: "('v, 'h, 'a) vote_counter \<Rightarrow> height \<Rightarrow> round \<Rightarrow> ('v, 'h, 'a) round_data" where
  "round_at v h r =
     (case (if h = currentHeight v then roundData v r
            else case futureMessages v h of None \<Rightarrow> None | Some rm \<Rightarrow> rm r)
      of None \<Rightarrow> newRoundData | Some rd \<Rightarrow> rd)"

definition vc_ok :: "('v, 'h, 'a) vote_counter \<Rightarrow> bool" where
  "vc_ok v \<longleftrightarrow>
     totalVotingPower v = TotalVotingPower (vc_validators v) (currentHeight v) \<and>
     faultyVotingPower v = f_threshold (totalVotingPower v) \<and>
     quorumVotingPower v = q_threshold (totalVotingPower v) \<and>
     (\<forall>h \<le> currentHeight v. futureMessages v h = None) \<and>
     (\<forall>h r. round_ok (ValidatorVotingPower (vc_validators v) h) (ProposerOf (vc_validators v) h r) (round_at v h r))"

text \<open>The votes the counter holds, and the proposal it holds for a height and a round.\<close>

definition voted :: "('v, 'h, 'a) vote_counter \<Rightarrow> height \<Rightarrow> round \<Rightarrow> vote_type \<Rightarrow> 'h option \<Rightarrow> 'a set" where
  "voted v h r t i = voters_for (round_at v h r) t i"

definition proposed :: "('v, 'h, 'a) vote_counter \<Rightarrow> height \<Rightarrow> round \<Rightarrow> ('v, 'a) proposal option" where
  "proposed v h r = rd_proposal (round_at v h r)"

lemma vc_ok_new: "vc_ok (newVoteCounter vals h)"
  by (simp add: vc_ok_def newVoteCounter_def round_at_def Let_def round_ok_new)

text \<open>The counter after \<open>getRoundData\<close> has created the entry it returns.\<close>

definition touch :: "('v, 'h, 'a) vote_counter \<Rightarrow> height \<Rightarrow> round \<Rightarrow> ('v, 'h, 'a) vote_counter" where
  "touch v h r = put_round_data v h r (round_at v h r)"

lemma getRoundData_eq:
  "getRoundData v h r = (if h < currentHeight v then None else Some (round_at v h r, touch v h r))"
  by (auto simp: getRoundData_def touch_def put_round_data_def round_at_def getOrCreateRoundData_def
      fun_upd_idem Let_def split: option.splits)

lemma put_round_data_frame [frame_simps, simp]:
  "vc_validators (put_round_data v h r e) = vc_validators v"
  "currentHeight (put_round_data v h r e) = currentHeight v"
  "totalVotingPower (put_round_data v h r e) = totalVotingPower v"
  "faultyVotingPower (put_round_data v h r e) = faultyVotingPower v"
  "quorumVotingPower (put_round_data v h r e) = quorumVotingPower v"
  by (simp_all add: put_round_data_def)

lemma round_at_put [simp]:
  "round_at (put_round_data v h r e) h' r' = (if h' = h \<and> r' = r then e else round_at v h' r')"
  by (auto simp: put_round_data_def round_at_def split: option.splits)

lemma touch_frame [frame_simps, simp]:
  "vc_validators (touch v h r) = vc_validators v"
  "currentHeight (touch v h r) = currentHeight v"
  "totalVotingPower (touch v h r) = totalVotingPower v"
  "faultyVotingPower (touch v h r) = faultyVotingPower v"
  "quorumVotingPower (touch v h r) = quorumVotingPower v"
  "round_at (touch v h r) h' r' = round_at v h' r'"
  by (simp_all add: touch_def)

lemma vc_ok_put:
  assumes "vc_ok v" and "currentHeight v \<le> h"
    and "round_ok (ValidatorVotingPower (vc_validators v) h) (ProposerOf (vc_validators v) h r) e"
  shows "vc_ok (put_round_data v h r e)"
proof -
  have "futureMessages (put_round_data v h r e) k = None" if "k \<le> currentHeight v" for k
    using assms that by (auto simp: vc_ok_def put_round_data_def)
  with assms show ?thesis by (simp add: vc_ok_def)
qed

lemma vc_ok_touch: "vc_ok v \<Longrightarrow> currentHeight v \<le> h \<Longrightarrow> vc_ok (touch v h r)"
  by (simp add: touch_def vc_ok_put vc_ok_def [of v])

text \<open>Prevotes and precommits are added the same way.\<close>

definition add_typed ::
  "('v, 'h, 'a) vote_counter \<Rightarrow> ('h, 'a) vote \<Rightarrow> vote_type \<Rightarrow> bool \<times> ('v, 'h, 'a) vote_counter" where
  "add_typed v p t =
     (if Height p < currentHeight v then (False, v)
      else let (ok, rd) = addVote (round_at v (Height p) (Round p)) p
                 (ValidatorVotingPower (vc_validators v) (Height p) (Sender p)) t
           in (ok, put_round_data (touch v (Height p) (Round p)) (Height p) (Round p) rd))"

lemma AddPrevote_eq: "AddPrevote v p = add_typed v p Prevote"
  by (simp add: AddPrevote_def add_typed_def getRoundData_eq)

lemma AddPrecommit_eq: "AddPrecommit v p = add_typed v p Precommit"
  by (simp add: AddPrecommit_def add_typed_def getRoundData_eq)

lemma fst_add_typed:
  "fst (add_typed v p t) \<longleftrightarrow>
     currentHeight v \<le> Height p \<and> Sender p \<notin> voted v (Height p) (Round p) t (ID p)"
  by (auto simp: add_typed_def voted_def split_beta fst_ballot_add voters_for_def)

lemma add_typed_frame [frame_simps, simp]:
  "vc_validators (snd (add_typed v p t)) = vc_validators v"
  "currentHeight (snd (add_typed v p t)) = currentHeight v"
  "totalVotingPower (snd (add_typed v p t)) = totalVotingPower v"
  "faultyVotingPower (snd (add_typed v p t)) = faultyVotingPower v"
  "quorumVotingPower (snd (add_typed v p t)) = quorumVotingPower v"
  by (simp_all add: add_typed_def split_beta)

lemma round_at_add_typed:
  "round_at (snd (add_typed v p t)) h r =
     (if currentHeight v \<le> Height p \<and> h = Height p \<and> r = Round p
      then snd (addVote (round_at v h r) p (ValidatorVotingPower (vc_validators v) h (Sender p)) t)
      else round_at v h r)"
  by (auto simp: add_typed_def split_beta)

lemma voted_add_typed:
  "voted (snd (add_typed v p t)) h r u i =
     (if currentHeight v \<le> Height p \<and> h = Height p \<and> r = Round p \<and> u = t \<and> i = ID p
      then insert (Sender p) (voted v h r u i) else voted v h r u i)"
  by (simp add: voted_def round_at_add_typed voters_for_addVote)

lemma proposed_add_typed [simp]: "proposed (snd (add_typed v p t)) h r = proposed v h r"
  by (simp add: proposed_def round_at_add_typed)

lemma vc_ok_add_typed: "vc_ok v \<Longrightarrow> vc_ok (snd (add_typed v p t))"
  by (auto simp: add_typed_def split_beta not_less intro!: vc_ok_put vc_ok_touch round_ok_addVote)
     (simp add: vc_ok_def)

lemma fst_AddProposal:
  "fst (AddProposal v p) \<longleftrightarrow>
     currentHeight v \<le> Height p \<and> Sender p = ProposerOf (vc_validators v) (Height p) (Round p) \<and>
     proposed v (Height p) (Round p) = None"
  by (auto simp: AddProposal_def getRoundData_eq proposed_def split_beta)

lemma AddProposal_frame [frame_simps, simp]:
  "vc_validators (snd (AddProposal v p)) = vc_validators v"
  "currentHeight (snd (AddProposal v p)) = currentHeight v"
  "totalVotingPower (snd (AddProposal v p)) = totalVotingPower v"
  "faultyVotingPower (snd (AddProposal v p)) = faultyVotingPower v"
  "quorumVotingPower (snd (AddProposal v p)) = quorumVotingPower v"
  by (simp_all add: AddProposal_def getRoundData_eq split_beta)

lemma voted_AddProposal [simp]: "voted (snd (AddProposal v p)) h r t i = voted v h r t i"
  by (simp add: AddProposal_def getRoundData_eq voted_def split_beta)

lemma proposed_AddProposal:
  "proposed (snd (AddProposal v p)) h r =
     (if fst (AddProposal v p) \<and> h = Height p \<and> r = Round p then Some p else proposed v h r)"
  by (auto simp: AddProposal_def getRoundData_eq proposed_def split_beta split: option.splits)

lemma vc_ok_AddProposal:
  assumes "vc_ok v"
  shows "vc_ok (snd (AddProposal v p))"
proof (cases "currentHeight v \<le> Height p \<and> Sender p = ProposerOf (vc_validators v) (Height p) (Round p)")
  case True
  then have "round_ok (ValidatorVotingPower (vc_validators v) (Height p))
      (ProposerOf (vc_validators v) (Height p) (Round p))
      (snd (setProposal (round_at v (Height p) (Round p)) p
        (ValidatorVotingPower (vc_validators v) (Height p) (Sender p))))"
    using assms by (intro round_ok_setProposal) (simp_all add: vc_ok_def)
  with True assms show ?thesis
    by (simp add: AddProposal_def getRoundData_eq split_beta vc_ok_put vc_ok_touch)
next
  case False
  with assms show ?thesis
    by (auto simp: AddProposal_def getRoundData_eq split_beta vc_ok_touch not_less)
qed

lemma StartNewHeight_frame [frame_simps, simp]:
  "vc_validators (StartNewHeight v) = vc_validators v"
  "currentHeight (StartNewHeight v) = currentHeight v + 1"
  by (simp_all add: StartNewHeight_def Let_def split: option.splits)

lemma futureMessages_StartNewHeight:
  "futureMessages (StartNewHeight v) = (futureMessages v)(currentHeight v + 1 := None)"
  by (auto simp: StartNewHeight_def Let_def fun_upd_idem split: option.splits)

lemma round_at_StartNewHeight:
  assumes "vc_ok v"
  shows "round_at (StartNewHeight v) h r = (if h \<le> currentHeight v then newRoundData else round_at v h r)"
  using assms
  by (auto simp: round_at_def StartNewHeight_def vc_ok_def Let_def split: option.splits)


lemma vc_ok_StartNewHeight:
  assumes "vc_ok v"
  shows "vc_ok (StartNewHeight v)"
proof -
  have wrap: "h \<le> currentHeight v \<or> h = currentHeight v + 1" if "h \<le> currentHeight v + 1" for h
    using that by (metis inc_le linorder_not_less order_antisym_conv)
  have "futureMessages (StartNewHeight v) h = None" if "h \<le> currentHeight v + 1" for h
    using wrap [OF that] assms by (auto simp: futureMessages_StartNewHeight vc_ok_def)
  moreover have "round_ok (ValidatorVotingPower (vc_validators v) h) (ProposerOf (vc_validators v) h r)
      (round_at (StartNewHeight v) h r)" for h r
    using assms by (simp add: round_at_StartNewHeight round_ok_new) (simp add: vc_ok_def)
  moreover have "totalVotingPower (StartNewHeight v) = TotalVotingPower (vc_validators v) (currentHeight v + 1)"
    "faultyVotingPower (StartNewHeight v) = f_threshold (totalVotingPower (StartNewHeight v))"
    "quorumVotingPower (StartNewHeight v) = q_threshold (totalVotingPower (StartNewHeight v))"
    by (simp_all add: StartNewHeight_def Let_def split: option.splits)
  ultimately show ?thesis by (simp add: vc_ok_def)
qed

lemma voted_StartNewHeight:
  "vc_ok v \<Longrightarrow> voted (StartNewHeight v) h r t i = (if h \<le> currentHeight v then {} else voted v h r t i)"
  by (simp add: voted_def round_at_StartNewHeight)

lemma proposed_StartNewHeight:
  "vc_ok v \<Longrightarrow> proposed (StartNewHeight v) h r = (if h \<le> currentHeight v then None else proposed v h r)"
  by (simp add: proposed_def round_at_StartNewHeight) (simp add: newRoundData_def)

lemma HasFuturePrecommitQuorum_state [simp]:
  "vc_ok v \<Longrightarrow> vc_ok (snd (HasFuturePrecommitQuorum v h r i))"
  "voted (snd (HasFuturePrecommitQuorum v h r i)) h' r' t j = voted v h' r' t j"
  "proposed (snd (HasFuturePrecommitQuorum v h r i)) h' r' = proposed v h' r'"
  "vc_validators (snd (HasFuturePrecommitQuorum v h r i)) = vc_validators v"
  "currentHeight (snd (HasFuturePrecommitQuorum v h r i)) = currentHeight v"
  by (auto simp: HasFuturePrecommitQuorum_def getRoundData_eq voted_def proposed_def vc_ok_touch not_less)

section \<open>Queries\<close>

lemma GetProposal_proposed: "GetProposal v r = proposed v (currentHeight v) r"
  by (simp add: GetProposal_def proposed_def round_at_def newRoundData_def split: option.splits)

lemma proposed_Sender:
  "vc_ok v \<Longrightarrow> proposed v h r = Some p \<Longrightarrow> Sender p = ProposerOf (vc_validators v) h r"
  by (simp add: vc_ok_def round_ok_def proposed_def)

lemma finite_voted: "vc_ok v \<Longrightarrow> finite (voted v h r t i)"
  unfolding voted_def by (rule finite_voters_for) (auto simp: vc_ok_def)

abbreviation power_of :: "('v, 'h, 'a) vote_counter \<Rightarrow> height \<Rightarrow> 'a \<Rightarrow> voting_power" where
  "power_of v \<equiv> ValidatorVotingPower (vc_validators v)"

lemma HasQuorumForVote_sum:
  assumes "vc_ok v" and "HasQuorumForVote v r t i"
  shows "quorumVotingPower v \<le> sum (power_of v (currentHeight v)) (voted v (currentHeight v) r t i)"
proof -
  from assms(2) obtain rd where rd: "roundData v r = Some rd"
    and q: "quorumVotingPower v \<le> countVote rd t i"
    by (auto simp: HasQuorumForVote_def split: option.splits)
  from rd have "round_at v (currentHeight v) r = rd" by (simp add: round_at_def)
  with assms(1) q show ?thesis
    by (metis countVote_sum vc_ok_def voted_def)
qed

end
