(* ===== verification/Tendermint.thy ===== *)
theory Tendermint
  imports Vote_Counter
begin

text \<open>
  The Tendermint state machine (\<open>consensus/tendermint\<close>): its state, the upon rules of
  the algorithm (one file \<open>rule_*.go\<close> each), timeouts, broadcasts, the processing loop and
  the entry points the driver calls. A method that mutates the machine takes it and
  returns it; a method that returns an action returns it first. \<open>hsh\<close> is the method
  \<open>Hash\<close> of the value type and \<open>app\<close> the \<open>Application\<close>: \<open>app_Value\<close> is what a call of
  \<open>Value()\<close> during the current entry point returns (there is at most one such call) and
  \<open>app_Valid\<close> is \<open>Valid\<close>. Logging is left out.
\<close>

section \<open>State\<close>

record 'v application =
  app_Value :: 'v
  app_Valid :: "'v \<Rightarrow> bool"

record 'v tm_state =
  st_height :: height
  st_round :: round
  st_step :: step
  lockedValue :: "'v option"
  lockedRound :: round
  validValue :: "'v option"
  validRound :: round
  timeoutPrevoteScheduled :: bool
  timeoutPrecommitScheduled :: bool
  lockedValueAndOrValidValueSet :: bool

record ('v, 'h, 'a) state_machine =
  nodeAddr :: 'a
  sm_state :: "'v tm_state"
  voteCounter :: "('v, 'h, 'a) vote_counter"
  isHeightStarted :: bool
  lastTriggerSync :: height
  lastQuorum :: height

definition newStateMachine :: "'a \<Rightarrow> 'a validators \<Rightarrow> height \<Rightarrow> ('v, 'h, 'a) state_machine" where
  "newStateMachine addr vals h =
     \<lparr>nodeAddr = addr,
      sm_state = \<lparr>st_height = h, st_round = 0, st_step = StepPropose, lockedValue = None, lockedRound = -1,
        validValue = None, validRound = -1, timeoutPrevoteScheduled = False,
        timeoutPrecommitScheduled = False, lockedValueAndOrValidValueSet = False\<rparr>,
      voteCounter = newVoteCounter vals h, isHeightStarted = False, lastTriggerSync = 0, lastQuorum = 0\<rparr>"

definition sm_Height :: "('v, 'h, 'a) state_machine \<Rightarrow> height" where
  "sm_Height s = st_height (sm_state s)"

record ('v, 'h, 'a) cached_proposal =
  cp_proposal :: "('v, 'a) proposal"
  cp_Valid :: bool
  cp_ID :: "'h option"

definition resetState :: "('v, 'h, 'a) state_machine \<Rightarrow> round \<Rightarrow> ('v, 'h, 'a) state_machine" where
  "resetState s r = s\<lparr>sm_state := (sm_state s)\<lparr>st_round := r, st_step := StepPropose,
     timeoutPrevoteScheduled := False, lockedValueAndOrValidValueSet := False,
     timeoutPrecommitScheduled := False\<rparr>\<rparr>"

lemma resetState_sel [simp]:
  "nodeAddr (resetState s r) = nodeAddr s" "voteCounter (resetState s r) = voteCounter s"
  "isHeightStarted (resetState s r) = isHeightStarted s" "lastTriggerSync (resetState s r) = lastTriggerSync s"
  "lastQuorum (resetState s r) = lastQuorum s"
  "st_height (sm_state (resetState s r)) = st_height (sm_state s)"
  "st_round (sm_state (resetState s r)) = r" "st_step (sm_state (resetState s r)) = StepPropose"
  "lockedRound (sm_state (resetState s r)) = lockedRound (sm_state s)"
  "lockedValue (sm_state (resetState s r)) = lockedValue (sm_state s)"
  "validRound (sm_state (resetState s r)) = validRound (sm_state s)"
  "validValue (sm_state (resetState s r)) = validValue (sm_state s)"
  by (simp_all add: resetState_def)

section \<open>Broadcasts and timeouts\<close>

definition sendProposal ::
  "('v, 'h, 'a) state_machine \<Rightarrow> 'v \<Rightarrow> ('v, 'h, 'a) action \<times> ('v, 'h, 'a) state_machine" where
  "sendProposal s val =
     (let p = \<lparr>Height = st_height (sm_state s), Round = st_round (sm_state s), Sender = nodeAddr s,
               ValidRound = validRound (sm_state s), Value = val\<rparr>
      in (BroadcastProposal p, s\<lparr>voteCounter := snd (AddProposal (voteCounter s) p)\<rparr>))"

definition setStepAndSendPrevote ::
  "('v, 'h, 'a) state_machine \<Rightarrow> 'h option \<Rightarrow> ('v, 'h, 'a) action \<times> ('v, 'h, 'a) state_machine" where
  "setStepAndSendPrevote s i =
     (let v = \<lparr>Height = st_height (sm_state s), Round = st_round (sm_state s), Sender = nodeAddr s, ID = i\<rparr>;
          s1 = s\<lparr>voteCounter := snd (AddPrevote (voteCounter s) v)\<rparr>
      in (BroadcastPrevote v, s1\<lparr>sm_state := (sm_state s1)\<lparr>st_step := StepPrevote\<rparr>\<rparr>))"

definition setStepAndSendPrecommit ::
  "('v, 'h, 'a) state_machine \<Rightarrow> 'h option \<Rightarrow> ('v, 'h, 'a) action \<times> ('v, 'h, 'a) state_machine" where
  "setStepAndSendPrecommit s i =
     (let v = \<lparr>Height = st_height (sm_state s), Round = st_round (sm_state s), Sender = nodeAddr s, ID = i\<rparr>;
          s1 = s\<lparr>voteCounter := snd (AddPrecommit (voteCounter s) v)\<rparr>
      in (BroadcastPrecommit v, s1\<lparr>sm_state := (sm_state s1)\<lparr>st_step := StepPrecommit\<rparr>\<rparr>))"

definition scheduleTimeout :: "('v, 'h, 'a) state_machine \<Rightarrow> step \<Rightarrow> ('v, 'h, 'a) action" where
  "scheduleTimeout t s =
     ScheduleTimeout \<lparr>tm_Step = s, tm_Height = st_height (sm_state t), tm_Round = st_round (sm_state t)\<rparr>"

definition startRound ::
  "'v application \<Rightarrow> ('v, 'h, 'a) state_machine \<Rightarrow> round \<Rightarrow> ('v, 'h, 'a) action \<times> ('v, 'h, 'a) state_machine" where
  "startRound app s r =
     (let s1 = resetState s r
      in if Proposer (voteCounter s1) r = nodeAddr s1
         then sendProposal s1 (case validValue (sm_state s1) of Some v \<Rightarrow> v | None \<Rightarrow> app_Value app)
         else (scheduleTimeout s1 StepPropose, s1))"

definition cache :: "('v \<Rightarrow> 'h) \<Rightarrow> 'v application \<Rightarrow> ('v, 'a) proposal \<Rightarrow> ('v, 'h, 'a) cached_proposal" where
  "cache hsh app p = \<lparr>cp_proposal = p, cp_Valid = app_Valid app (Value p), cp_ID = Some (hsh (Value p))\<rparr>"

definition findProposal ::
  "('v \<Rightarrow> 'h) \<Rightarrow> 'v application \<Rightarrow> ('v, 'h, 'a) state_machine \<Rightarrow> round \<Rightarrow> ('v, 'h, 'a) cached_proposal option" where
  "findProposal hsh app s r =
     (case GetProposal (voteCounter s) r of None \<Rightarrow> None | Some p \<Rightarrow> Some (cache hsh app p))"

section \<open>The upon rules\<close>

text \<open>Line 22: a first proposal.\<close>

definition uponFirstProposal :: "('v, 'h, 'a) state_machine \<Rightarrow> ('v, 'h, 'a) cached_proposal \<Rightarrow> bool" where
  "uponFirstProposal s cp \<longleftrightarrow> ValidRound (cp_proposal cp) = -1 \<and> st_step (sm_state s) = StepPropose"

definition doFirstProposal ::
  "('v \<Rightarrow> 'h) \<Rightarrow> ('v, 'h, 'a) state_machine \<Rightarrow> ('v, 'h, 'a) cached_proposal \<Rightarrow> ('v, 'h, 'a) action \<times> ('v, 'h, 'a) state_machine" where
  "doFirstProposal hsh s cp =
     (let shouldVoteForValue = cp_Valid cp \<and>
            (lockedRound (sm_state s) = -1 \<or>
             (case lockedValue (sm_state s) of None \<Rightarrow> False | Some lv \<Rightarrow> Some (hsh lv) = cp_ID cp))
      in setStepAndSendPrevote s (if shouldVoteForValue then cp_ID cp else None))"

text \<open>Line 28: a proposal with a polka of an earlier round.\<close>

definition uponProposalAndPolkaPrevious :: "('v, 'h, 'a) state_machine \<Rightarrow> ('v, 'h, 'a) cached_proposal \<Rightarrow> bool" where
  "uponProposalAndPolkaPrevious s cp \<longleftrightarrow>
     (let vr = ValidRound (cp_proposal cp);
          hasQuorum = cp_ID cp \<noteq> None \<and> HasQuorumForVote (voteCounter s) vr Prevote (cp_ID cp)
      in hasQuorum \<and> st_step (sm_state s) = StepPropose \<and> vr \<ge> 0 \<and> vr < st_round (sm_state s))"

definition doProposalAndPolkaPrevious ::
  "('v \<Rightarrow> 'h) \<Rightarrow> ('v, 'h, 'a) state_machine \<Rightarrow> ('v, 'h, 'a) cached_proposal \<Rightarrow> ('v, 'h, 'a) action \<times> ('v, 'h, 'a) state_machine" where
  "doProposalAndPolkaPrevious hsh s cp =
     (let shouldVoteForValue = cp_Valid cp \<and>
            (lockedRound (sm_state s) \<le> ValidRound (cp_proposal cp) \<or>
             (case lockedValue (sm_state s) of None \<Rightarrow> False
              | Some lv \<Rightarrow> cp_ID cp \<noteq> None \<and> Some (hsh lv) = cp_ID cp))
      in setStepAndSendPrevote s (if shouldVoteForValue then cp_ID cp else None))"

text \<open>Line 34: prevotes for anything.\<close>

definition uponPolkaAny :: "('v, 'h, 'a) state_machine \<Rightarrow> bool" where
  "uponPolkaAny s \<longleftrightarrow> st_step (sm_state s) = StepPrevote \<and>
     HasQuorumForAny (voteCounter s) (st_round (sm_state s)) Prevote \<and>
     \<not> timeoutPrevoteScheduled (sm_state s)"

definition doPolkaAny :: "('v, 'h, 'a) state_machine \<Rightarrow> ('v, 'h, 'a) action \<times> ('v, 'h, 'a) state_machine" where
  "doPolkaAny s =
     (let s1 = s\<lparr>sm_state := (sm_state s)\<lparr>timeoutPrevoteScheduled := True\<rparr>\<rparr>
      in (scheduleTimeout s1 StepPrevote, s1))"

text \<open>Line 36: a proposal with a polka of the current round.\<close>

definition uponProposalAndPolkaCurrent :: "('v, 'h, 'a) state_machine \<Rightarrow> ('v, 'h, 'a) cached_proposal \<Rightarrow> bool" where
  "uponProposalAndPolkaCurrent s cp \<longleftrightarrow>
     cp_ID cp \<noteq> None \<and> HasQuorumForVote (voteCounter s) (st_round (sm_state s)) Prevote (cp_ID cp) \<and>
     cp_Valid cp \<and> st_step (sm_state s) \<ge> StepPrevote \<and> \<not> lockedValueAndOrValidValueSet (sm_state s)"

definition doProposalAndPolkaCurrent ::
  "('v, 'h, 'a) state_machine \<Rightarrow> ('v, 'h, 'a) cached_proposal \<Rightarrow> ('v, 'h, 'a) action option \<times> ('v, 'h, 'a) state_machine" where
  "doProposalAndPolkaCurrent s cp =
     (let (act, s1) =
            (if st_step (sm_state s) = StepPrevote
             then (let s0 = s\<lparr>sm_state := (sm_state s)\<lparr>lockedValue := Some (Value (cp_proposal cp)),
                              lockedRound := st_round (sm_state s)\<rparr>\<rparr>;
                       (a, s') = setStepAndSendPrecommit s0 (cp_ID cp)
                   in (Some a, s'))
             else (None, s))
      in (act, s1\<lparr>sm_state := (sm_state s1)\<lparr>validValue := Some (Value (cp_proposal cp)),
                 validRound := st_round (sm_state s1), lockedValueAndOrValidValueSet := True\<rparr>\<rparr>))"

text \<open>Line 44: a polka for nil.\<close>

definition uponPolkaNil :: "('v, 'h, 'a) state_machine \<Rightarrow> bool" where
  "uponPolkaNil s \<longleftrightarrow> HasQuorumForVote (voteCounter s) (st_round (sm_state s)) Prevote None \<and>
     st_step (sm_state s) = StepPrevote"

definition doPolkaNil :: "('v, 'h, 'a) state_machine \<Rightarrow> ('v, 'h, 'a) action \<times> ('v, 'h, 'a) state_machine" where
  "doPolkaNil s = setStepAndSendPrecommit s None"

text \<open>Line 47: precommits for anything.\<close>

definition uponPrecommitAny :: "('v, 'h, 'a) state_machine \<Rightarrow> bool" where
  "uponPrecommitAny s \<longleftrightarrow> HasQuorumForAny (voteCounter s) (st_round (sm_state s)) Precommit \<and>
     \<not> timeoutPrecommitScheduled (sm_state s)"

definition doPrecommitAny :: "('v, 'h, 'a) state_machine \<Rightarrow> ('v, 'h, 'a) action \<times> ('v, 'h, 'a) state_machine" where
  "doPrecommitAny s =
     (let s1 = s\<lparr>sm_state := (sm_state s)\<lparr>timeoutPrecommitScheduled := True\<rparr>\<rparr>
      in (scheduleTimeout s1 StepPrecommit, s1))"

text \<open>Line 49: a commit.\<close>

definition uponCommitValue :: "('v, 'h, 'a) state_machine \<Rightarrow> ('v, 'h, 'a) cached_proposal \<Rightarrow> bool" where
  "uponCommitValue s cp \<longleftrightarrow>
     cp_ID cp \<noteq> None \<and> HasQuorumForVote (voteCounter s) (Round (cp_proposal cp)) Precommit (cp_ID cp) \<and>
     cp_Valid cp"

definition doCommitValue ::
  "('v, 'h, 'a) state_machine \<Rightarrow> ('v, 'h, 'a) cached_proposal \<Rightarrow> ('v, 'h, 'a) action \<times> ('v, 'h, 'a) state_machine" where
  "doCommitValue s cp =
     (let s1 = s\<lparr>voteCounter := StartNewHeight (voteCounter s),
                 sm_state := (sm_state s)\<lparr>st_height := st_height (sm_state s) + 1, lockedRound := -1,
                   lockedValue := None, validRound := -1, validValue := None\<rparr>\<rparr>;
          s2 = resetState s1 0
      in (Commit (cp_proposal cp), s2\<lparr>isHeightStarted := False\<rparr>))"

text \<open>Line 55: messages of a later round from more than \<open>f\<close> power.\<close>

definition uponSkipRound :: "('v, 'h, 'a) state_machine \<Rightarrow> round \<Rightarrow> bool" where
  "uponSkipRound s futureR \<longleftrightarrow>
     futureR > st_round (sm_state s) \<and> HasNonFaultyFutureMessage (voteCounter s) futureR"

definition doSkipRound ::
  "'v application \<Rightarrow> ('v, 'h, 'a) state_machine \<Rightarrow> round \<Rightarrow> ('v, 'h, 'a) action \<times> ('v, 'h, 'a) state_machine" where
  "doSkipRound app s futureR = startRound app s futureR"

section \<open>The processing loop\<close>

definition upon :: "'p option \<Rightarrow> ('p \<Rightarrow> bool) \<Rightarrow> bool" where
  "upon c P = (case c of None \<Rightarrow> False | Some p \<Rightarrow> P p)"

definition process ::
  "('v \<Rightarrow> 'h) \<Rightarrow> 'v application \<Rightarrow> round option \<Rightarrow> ('v, 'h, 'a) state_machine
    \<Rightarrow> ('v, 'h, 'a) action option \<times> bool \<times> ('v, 'h, 'a) state_machine" where
  "process hsh app rr s =
     (let cachedProposal = findProposal hsh app s (st_round (sm_state s));
          roundCachedProposal = (case rr of None \<Rightarrow> cachedProposal | Some r \<Rightarrow> findProposal hsh app s r);
          continue = (\<lambda>(a, s'). (Some a, True, s'))
      in if upon cachedProposal (uponFirstProposal s) then continue (doFirstProposal hsh s (the cachedProposal))
         else if upon cachedProposal (uponProposalAndPolkaPrevious s)
           then continue (doProposalAndPolkaPrevious hsh s (the cachedProposal))
         else if uponPolkaAny s then continue (doPolkaAny s)
         else if upon cachedProposal (uponProposalAndPolkaCurrent s)
           then (case doProposalAndPolkaCurrent s (the cachedProposal) of (a, s') \<Rightarrow> (a, True, s'))
         else if uponPolkaNil s then continue (doPolkaNil s)
         else if uponPrecommitAny s then continue (doPrecommitAny s)
         else if upon roundCachedProposal (uponCommitValue s)
           then (case doCommitValue s (the roundCachedProposal) of (a, s') \<Rightarrow> (Some a, False, s'))
         else if upon rr (uponSkipRound s) then continue (doSkipRound app s (the rr))
         else (None, False, s))"

text \<open>
  The loop of \<open>processLoop\<close> ends: a step forward in the round, a first-time flag or the one
  jump to the round of the received message is used up by every turn but the last.
\<close>

definition loop_measure :: "round option \<Rightarrow> ('v, 'h, 'a) state_machine \<Rightarrow> nat" where
  "loop_measure rr s =
     (if upon rr (\<lambda>r. r > st_round (sm_state s)) then 6 else 0) + (2 - step_num (st_step (sm_state s))) +
     (if timeoutPrevoteScheduled (sm_state s) then 0 else 1) +
     (if timeoutPrecommitScheduled (sm_state s) then 0 else 1) +
     (if lockedValueAndOrValidValueSet (sm_state s) then 0 else 1)"


lemma setStep_state [simp]:
  "sm_state (snd (setStepAndSendPrevote s i)) = (sm_state s)\<lparr>st_step := StepPrevote\<rparr>"
  "sm_state (snd (setStepAndSendPrecommit s i)) = (sm_state s)\<lparr>st_step := StepPrecommit\<rparr>"
  by (simp_all add: setStepAndSendPrevote_def setStepAndSendPrecommit_def Let_def)

lemma startRound_state [simp]:
  "sm_state (snd (startRound app s r)) = sm_state (resetState s r)"
  by (simp add: startRound_def sendProposal_def Let_def)

lemma upon_Some: "upon c P \<longleftrightarrow> (\<exists>x. c = Some x \<and> P x)"
  by (simp add: upon_def split: option.splits)

lemma findProposal_Some:
  "findProposal hsh app s r = Some cp \<longleftrightarrow> (\<exists>p. GetProposal (voteCounter s) r = Some p \<and> cp = cache hsh app p)"
  by (auto simp: findProposal_def split: option.splits)

lemma cache_sel [simp]:
  "cp_proposal (cache hsh app p) = p" "cp_Valid (cache hsh app p) = app_Valid app (Value p)"
  "cp_ID (cache hsh app p) = Some (hsh (Value p))"
  by (simp_all add: cache_def)

text \<open>The outcomes of one turn of the loop.\<close>

lemma process_cases [consumes 1, case_names first previous polka_any current polka_nil precommit_any commit skip idle]:
  assumes "process hsh app rr s = (a, c, s')"
  obtains
    (first) p where "GetProposal (voteCounter s) (st_round (sm_state s)) = Some p"
      "uponFirstProposal s (cache hsh app p)" "c"
      "a = Some (fst (doFirstProposal hsh s (cache hsh app p)))" "s' = snd (doFirstProposal hsh s (cache hsh app p))"
  | (previous) p where "GetProposal (voteCounter s) (st_round (sm_state s)) = Some p"
      "uponProposalAndPolkaPrevious s (cache hsh app p)" "c"
      "a = Some (fst (doProposalAndPolkaPrevious hsh s (cache hsh app p)))"
      "s' = snd (doProposalAndPolkaPrevious hsh s (cache hsh app p))"
  | (polka_any) "uponPolkaAny s" "c" "a = Some (fst (doPolkaAny s))" "s' = snd (doPolkaAny s)"
  | (current) p where "GetProposal (voteCounter s) (st_round (sm_state s)) = Some p"
      "uponProposalAndPolkaCurrent s (cache hsh app p)" "c"
      "a = fst (doProposalAndPolkaCurrent s (cache hsh app p))"
      "s' = snd (doProposalAndPolkaCurrent s (cache hsh app p))"
  | (polka_nil) "uponPolkaNil s" "c" "a = Some (fst (doPolkaNil s))" "s' = snd (doPolkaNil s)"
  | (precommit_any) "uponPrecommitAny s" "c" "a = Some (fst (doPrecommitAny s))" "s' = snd (doPrecommitAny s)"
  | (commit) r p where "GetProposal (voteCounter s) r = Some p" "uponCommitValue s (cache hsh app p)" "\<not> c"
      "a = Some (fst (doCommitValue s (cache hsh app p)))" "s' = snd (doCommitValue s (cache hsh app p))"
  | (skip) r where "rr = Some r" "uponSkipRound s r" "c"
      "a = Some (fst (doSkipRound app s r))" "s' = snd (doSkipRound app s r)"
  | (idle) "\<not> c" "a = None" "s' = s"
proof -
  let ?cp = "findProposal hsh app s (st_round (sm_state s))"
  let ?rp = "case rr of None \<Rightarrow> ?cp | Some r \<Rightarrow> findProposal hsh app s r"
  have cpD: "\<exists>p. GetProposal (voteCounter s) (st_round (sm_state s)) = Some p \<and> the ?cp = cache hsh app p \<and>
      P (cache hsh app p)" if "upon ?cp P" for P
    using that by (auto simp: upon_Some findProposal_def split: option.splits)
  have rpD: "\<exists>r p. GetProposal (voteCounter s) r = Some p \<and> the ?rp = cache hsh app p \<and>
      P (cache hsh app p)" if "upon ?rp P" for P
    using that by (cases rr) (auto simp: upon_Some findProposal_def split: option.splits)
  note eq = assms [unfolded process_def Let_def split_beta prod.case, symmetric]
  show thesis
  proof (cases "upon ?cp (uponFirstProposal s)")
    case True
    with cpD [OF True] eq show ?thesis using first by auto
  next
    case n1: False
    show ?thesis
    proof (cases "upon ?cp (uponProposalAndPolkaPrevious s)")
      case True
      with cpD [OF True] eq n1 show ?thesis using previous by auto
    next
      case n2: False
      show ?thesis
      proof (cases "uponPolkaAny s")
        case True
        with eq n1 n2 show ?thesis using polka_any by auto
      next
        case n3: False
        show ?thesis
        proof (cases "upon ?cp (uponProposalAndPolkaCurrent s)")
          case True
          with cpD [OF True] eq n1 n2 n3 show ?thesis using current by auto
        next
          case n4: False
          show ?thesis
            using eq n1 n2 n3 n4 polka_nil precommit_any commit skip idle rpD [of "uponCommitValue s"]
            by (auto split: if_splits simp: upon_Some [of rr])
        qed
      qed
    qed
  qed
qed


lemma process_measure:
  assumes "process hsh app rr s = (a, True, s')"
  shows "loop_measure rr s' < loop_measure rr s"
  using assms
proof (cases rule: process_cases)
  case (first p)
  then show ?thesis
    by (simp add: uponFirstProposal_def doFirstProposal_def loop_measure_def Let_def)
next
  case (previous p)
  then show ?thesis
    by (simp add: uponProposalAndPolkaPrevious_def doProposalAndPolkaPrevious_def loop_measure_def Let_def)
next
  case polka_any
  then show ?thesis by (simp add: uponPolkaAny_def doPolkaAny_def loop_measure_def Let_def)
next
  case (current p)
  then show ?thesis
    by (auto simp: uponProposalAndPolkaCurrent_def doProposalAndPolkaCurrent_def loop_measure_def
        Let_def split_beta)
next
  case polka_nil
  then show ?thesis by (simp add: uponPolkaNil_def doPolkaNil_def loop_measure_def)
next
  case precommit_any
  then show ?thesis by (simp add: uponPrecommitAny_def doPrecommitAny_def loop_measure_def Let_def)
next
  case (skip r)
  then show ?thesis
    by (simp add: uponSkipRound_def doSkipRound_def loop_measure_def upon_def resetState_def)
qed simp_all

function processLoop ::
  "('v \<Rightarrow> 'h) \<Rightarrow> 'v application \<Rightarrow> round option \<Rightarrow> ('v, 'h, 'a) action list \<Rightarrow> ('v, 'h, 'a) state_machine
    \<Rightarrow> ('v, 'h, 'a) action list \<times> ('v, 'h, 'a) state_machine" where
  "processLoop hsh app rr resultActions s =
     (case process hsh app rr s of (act, shouldContinue, s') \<Rightarrow>
        let resultActions' = (case act of None \<Rightarrow> resultActions | Some a \<Rightarrow> resultActions @ [a])
        in if shouldContinue then processLoop hsh app rr resultActions' s' else (resultActions', s'))"
  by pat_completeness auto
termination
  by (relation "measure (\<lambda>(hsh, app, rr, acts, s). loop_measure rr s)") (auto dest!: process_measure [OF sym])

declare processLoop.simps [simp del]

section \<open>Entry points\<close>

definition ProcessStart ::
  "('v \<Rightarrow> 'h) \<Rightarrow> 'v application \<Rightarrow> ('v, 'h, 'a) state_machine \<Rightarrow> round
    \<Rightarrow> ('v, 'h, 'a) action list \<times> ('v, 'h, 'a) state_machine" where
  "ProcessStart hsh app s r =
     (if isHeightStarted s then ([], s)
      else let s1 = s\<lparr>isHeightStarted := True\<rparr>;
               (a, s2) = startRound app s1 r
           in processLoop hsh app None [WriteWAL (WalStart (st_height (sm_state s1))), a] s2)"

definition processMessage ::
  "('v \<Rightarrow> 'h) \<Rightarrow> 'v application \<Rightarrow> ('v, 'h, 'a) state_machine \<Rightarrow> height \<Rightarrow> round \<Rightarrow> ('v, 'h, 'a) wal_entry
    \<Rightarrow> ('v, 'h, 'a) action list \<times> ('v, 'h, 'a) state_machine" where
  "processMessage hsh app s msgHeight msgRound walEntry =
     (if msgHeight \<noteq> st_height (sm_state s) then ([WriteWAL walEntry], s)
      else processLoop hsh app (Some msgRound) [WriteWAL walEntry] s)"

definition ProcessProposal ::
  "('v \<Rightarrow> 'h) \<Rightarrow> 'v application \<Rightarrow> ('v, 'h, 'a) state_machine \<Rightarrow> ('v, 'a) proposal
    \<Rightarrow> ('v, 'h, 'a) action list \<times> ('v, 'h, 'a) state_machine" where
  "ProcessProposal hsh app s p =
     (let (ok, vc) = AddProposal (voteCounter s) p; s1 = s\<lparr>voteCounter := vc\<rparr>
      in if \<not> ok \<or> \<not> isHeightStarted s1 then ([], s1)
         else processMessage hsh app s1 (Height p) (Round p) (WalProposal p))"

definition ProcessPrevote ::
  "('v \<Rightarrow> 'h) \<Rightarrow> 'v application \<Rightarrow> ('v, 'h, 'a) state_machine \<Rightarrow> ('h, 'a) vote
    \<Rightarrow> ('v, 'h, 'a) action list \<times> ('v, 'h, 'a) state_machine" where
  "ProcessPrevote hsh app s p =
     (let (ok, vc) = AddPrevote (voteCounter s) p; s1 = s\<lparr>voteCounter := vc\<rparr>
      in if \<not> ok \<or> \<not> isHeightStarted s1 then ([], s1)
         else processMessage hsh app s1 (Height p) (Round p) (WalPrevote p))"

definition sm_hasFuturePrecommitQuorum ::
  "('v, 'h, 'a) state_machine \<Rightarrow> ('h, 'a) vote \<Rightarrow> bool \<times> ('v, 'h, 'a) state_machine" where
  "sm_hasFuturePrecommitQuorum s p =
     (if ID p \<noteq> None \<and> Height p > st_height (sm_state s) \<and> Height p > lastTriggerSync s
      then (let (b, vc) = HasFuturePrecommitQuorum (voteCounter s) (Height p) (Round p) (ID p)
            in (b, s\<lparr>voteCounter := vc\<rparr>))
      else (False, s))"

definition triggerSync ::
  "('v, 'h, 'a) state_machine \<Rightarrow> ('h, 'a) vote \<Rightarrow> ('v, 'h, 'a) action list \<times> ('v, 'h, 'a) state_machine" where
  "triggerSync s p =
     (let s1 = s\<lparr>lastQuorum := max (lastQuorum s) (Height p)\<rparr>;
          strt = max (lastTriggerSync s1 + 1) (st_height (sm_state s1));
          ende = lastQuorum s1
      in ([TriggerSync strt ende], s1\<lparr>lastTriggerSync := ende\<rparr>))"

definition ProcessPrecommit ::
  "('v \<Rightarrow> 'h) \<Rightarrow> 'v application \<Rightarrow> ('v, 'h, 'a) state_machine \<Rightarrow> ('h, 'a) vote
    \<Rightarrow> ('v, 'h, 'a) action list \<times> ('v, 'h, 'a) state_machine" where
  "ProcessPrecommit hsh app s p =
     (let (ok, vc) = AddPrecommit (voteCounter s) p; s1 = s\<lparr>voteCounter := vc\<rparr>
      in if \<not> ok \<or> \<not> isHeightStarted s1 then ([], s1)
         else let (future, s2) = sm_hasFuturePrecommitQuorum s1 p
              in if future then triggerSync s2 p
                 else processMessage hsh app s2 (Height p) (Round p) (WalPrecommit p))"

fun processPrecommits ::
  "('v \<Rightarrow> 'h) \<Rightarrow> 'v application \<Rightarrow> ('v, 'h, 'a) action list \<Rightarrow> ('v, 'h, 'a) state_machine \<Rightarrow> ('h, 'a) vote list
    \<Rightarrow> ('v, 'h, 'a) action list \<times> ('v, 'h, 'a) state_machine" where
  "processPrecommits hsh app acts s [] = (acts, s)"
| "processPrecommits hsh app acts s (p # ps) =
     (let (acts', s') = ProcessPrecommit hsh app s p in processPrecommits hsh app (acts @ acts') s' ps)"

definition ProcessSync ::
  "('v \<Rightarrow> 'h) \<Rightarrow> 'v application \<Rightarrow> ('v, 'h, 'a) state_machine \<Rightarrow> ('v, 'a) proposal \<Rightarrow> ('h, 'a) vote list
    \<Rightarrow> ('v, 'h, 'a) action list \<times> ('v, 'h, 'a) state_machine" where
  "ProcessSync hsh app s p precommits =
     (let (acts, s1) = ProcessProposal hsh app s p in processPrecommits hsh app acts s1 precommits)"

definition isSameHeightAndRound :: "('v, 'h, 'a) state_machine \<Rightarrow> timeout \<Rightarrow> bool" where
  "isSameHeightAndRound s tm \<longleftrightarrow> st_height (sm_state s) = tm_Height tm \<and> st_round (sm_state s) = tm_Round tm"

definition onTimeoutPropose ::
  "('v, 'h, 'a) state_machine \<Rightarrow> timeout \<Rightarrow> ('v, 'h, 'a) action list \<times> ('v, 'h, 'a) state_machine" where
  "onTimeoutPropose s tm =
     (if isSameHeightAndRound s tm \<and> st_step (sm_state s) = StepPropose
      then let (a, s') = setStepAndSendPrevote s None in ([WriteWAL (WalTimeout tm), a], s')
      else ([], s))"

definition onTimeoutPrevote ::
  "('v, 'h, 'a) state_machine \<Rightarrow> timeout \<Rightarrow> ('v, 'h, 'a) action list \<times> ('v, 'h, 'a) state_machine" where
  "onTimeoutPrevote s tm =
     (if isSameHeightAndRound s tm \<and> st_step (sm_state s) = StepPrevote
      then let (a, s') = setStepAndSendPrecommit s None in ([WriteWAL (WalTimeout tm), a], s')
      else ([], s))"

definition onTimeoutPrecommit ::
  "'v application \<Rightarrow> ('v, 'h, 'a) state_machine \<Rightarrow> timeout \<Rightarrow> ('v, 'h, 'a) action list \<times> ('v, 'h, 'a) state_machine" where
  "onTimeoutPrecommit app s tm =
     (if isSameHeightAndRound s tm
      then let (a, s') = startRound app s (to_int64 (tm_Round tm + 1)) in ([WriteWAL (WalTimeout tm), a], s')
      else ([], s))"

definition ProcessTimeout ::
  "('v \<Rightarrow> 'h) \<Rightarrow> 'v application \<Rightarrow> ('v, 'h, 'a) state_machine \<Rightarrow> timeout
    \<Rightarrow> ('v, 'h, 'a) action list \<times> ('v, 'h, 'a) state_machine" where
  "ProcessTimeout hsh app s tm =
     (let loop = (\<lambda>(acts, s'). processLoop hsh app None acts s')
      in case tm_Step tm of
           StepPropose \<Rightarrow> loop (onTimeoutPropose s tm)
         | StepPrevote \<Rightarrow> loop (onTimeoutPrevote s tm)
         | StepPrecommit \<Rightarrow> loop (onTimeoutPrecommit app s tm)
         | StepOther _ \<Rightarrow> ([], s))"

definition ProcessWAL ::
  "('v \<Rightarrow> 'h) \<Rightarrow> 'v application \<Rightarrow> ('v, 'h, 'a) state_machine \<Rightarrow> ('v, 'h, 'a) wal_entry
    \<Rightarrow> ('v, 'h, 'a) action list \<times> ('v, 'h, 'a) state_machine" where
  "ProcessWAL hsh app s e =
     (case e of
        WalStart _ \<Rightarrow> ProcessStart hsh app s 0
      | WalProposal p \<Rightarrow> ProcessProposal hsh app s p
      | WalPrevote p \<Rightarrow> ProcessPrevote hsh app s p
      | WalPrecommit p \<Rightarrow> ProcessPrecommit hsh app s p
      | WalTimeout tm \<Rightarrow> ProcessTimeout hsh app s tm)"

end
