(* ===== verification/Validator_Set.thy ===== *)
theory Validator_Set
  imports Vote_Counter
begin

text \<open>
  The \<open>Validators\<close> interface as a locale: the laws on voting power the consensus engine
  needs, and what they give for the thresholds \<open>f\<close> and \<open>q\<close> of \<open>vote_counter.go\<close>: two
  quorums share an honest validator, and more than \<open>f\<close> power holds an honest one. The
  mock validators of \<open>consensus/mock.go\<close>, the one implementation in the repository,
  satisfy the laws when messages come from its nodes.
\<close>

section \<open>The thresholds as numbers\<close>

lemma unat_f_threshold:
  assumes "0 < N"
  shows "unat (f_threshold N) = (unat N - 1) div 3"
proof -
  have "unat (N - 1) = unat N - 1"
    using assms by (simp add: unat_minus_one word_gt_0)
  then show ?thesis by (simp add: f_threshold_def unat_div)
qed

lemma unat_q_threshold:
  assumes "unat N < 2 ^ 63"
  shows "unat (q_threshold N) = (2 * unat N + 2) div 3"
proof -
  let ?n = "unat N"
  have d: "unat (N * 2) = 2 * ?n"
    using assms by (simp add: unat_word_ariths)
  have q: "unat (N * 2 div 3) = 2 * ?n div 3" and r: "unat (N * 2 mod 3) = 2 * ?n mod 3"
    by (simp_all add: unat_div unat_mod d)
  have pos: "N * 2 mod 3 > 0 \<longleftrightarrow> 2 * ?n mod 3 > 0"
    by (metis r unat_gt_0 word_gt_0)
  have "unat (N * 2 div 3 + 1) = 2 * ?n div 3 + 1"
    using assms by (simp add: unat_word_ariths q)
  then show ?thesis
    using q pos by (simp add: q_threshold_def Let_def) presburger
qed

text \<open>Two quorums overlap in more than \<open>f\<close>; a quorum alone exceeds \<open>f\<close>.\<close>

lemma two_thirds_arith:
  fixes n :: nat
  assumes "0 < n"
  shows "n + (n - 1) div 3 < 2 * ((2 * n + 2) div 3)" and "(n - 1) div 3 < (2 * n + 2) div 3"
  using assms by presburger+

lemma thresholds_overlap:
  assumes "0 < N" and "unat N < 2 ^ 63"
  shows "unat N + unat (f_threshold N) < 2 * unat (q_threshold N)"
    and "unat (f_threshold N) < unat (q_threshold N)"
  using assms two_thirds_arith [of "unat N"]
  by (simp_all only: unat_f_threshold unat_q_threshold word_gt_0 unat_gt_0 not_False_eq_True)

section \<open>The interface\<close>

definition voting_mass :: "'a validators \<Rightarrow> height \<Rightarrow> 'a set \<Rightarrow> nat" where
  "voting_mass vals h S = (\<Sum>a\<in>S. unat (ValidatorVotingPower vals h a))"

locale validator_set =
  fixes vals :: "'a validators" and members :: "'a set" and byz :: "'a set"
  assumes finite_members: "finite members"
    and total_pos: "0 < TotalVotingPower vals h"
    and total_bound: "unat (TotalVotingPower vals h) < 2 ^ 63"
    and members_power:
      "(\<Sum>a\<in>members. unat (ValidatorVotingPower vals h a)) \<le> unat (TotalVotingPower vals h)"
    and byz_power:
      "(\<Sum>a\<in>members \<inter> byz. unat (ValidatorVotingPower vals h a)) \<le> unat (f_threshold (TotalVotingPower vals h))"
begin

lemma mass_mono: "S \<subseteq> S' \<Longrightarrow> S' \<subseteq> members \<Longrightarrow> voting_mass vals h S \<le> voting_mass vals h S'"
  unfolding voting_mass_def by (rule sum_mono2) (auto intro: finite_subset [OF _ finite_members])

lemma mass_Un_Int:
  assumes "S \<subseteq> members" and "S' \<subseteq> members"
  shows "voting_mass vals h S + voting_mass vals h S' = voting_mass vals h (S \<union> S') + voting_mass vals h (S \<inter> S')"
  unfolding voting_mass_def
  using assms finite_subset [OF _ finite_members] by (simp add: sum.union_inter)

text \<open>Any set of members that outweighs \<open>f\<close> holds an honest one.\<close>

lemma exceeds_f_honest:
  assumes "S \<subseteq> members" and "unat (f_threshold (TotalVotingPower vals h)) < voting_mass vals h S"
  shows "\<exists>a\<in>S. a \<notin> byz"
proof (rule ccontr)
  assume "\<not> ?thesis"
  then have "S \<subseteq> members \<inter> byz" using assms(1) by auto
  then have "voting_mass vals h S \<le> voting_mass vals h (members \<inter> byz)" by (rule mass_mono) auto
  with assms(2) byz_power [of h] show False by (simp add: voting_mass_def)
qed

text \<open>A set of members whose 64-bit tally reaches the quorum weighs at least the quorum.\<close>

lemma quorum_mass:
  assumes "S \<subseteq> members" and "q_threshold (TotalVotingPower vals h) \<le> sum (ValidatorVotingPower vals h) S"
  shows "unat (q_threshold (TotalVotingPower vals h)) \<le> voting_mass vals h S"
proof -
  have "unat (q_threshold (TotalVotingPower vals h)) \<le> unat (sum (ValidatorVotingPower vals h) S)"
    using assms(2) by (simp add: word_le_nat_alt)
  also have "\<dots> \<le> voting_mass vals h S"
    unfolding voting_mass_def by (rule unat_sum_le) (rule finite_subset [OF assms(1) finite_members])
  finally show ?thesis .
qed

lemma quorums_share_honest:
  assumes "S \<subseteq> members" and "S' \<subseteq> members"
    and "unat (q_threshold (TotalVotingPower vals h)) \<le> voting_mass vals h S"
    and "unat (q_threshold (TotalVotingPower vals h)) \<le> voting_mass vals h S'"
  shows "\<exists>a\<in>S \<inter> S'. a \<notin> byz"
proof (rule exceeds_f_honest)
  show "S \<inter> S' \<subseteq> members" using assms(1) by auto
  have "voting_mass vals h (S \<union> S') \<le> unat (TotalVotingPower vals h)"
    using mass_mono [of "S \<union> S'" members h] members_power [of h] assms(1,2)
    by (simp add: voting_mass_def [of vals h members])
  with mass_Un_Int [OF assms(1,2), of h] assms(3,4) thresholds_overlap(1) [OF total_pos [of h] total_bound [of h]]
  show "unat (f_threshold (TotalVotingPower vals h)) < voting_mass vals h (S \<inter> S')"
    by linarith
qed

lemma quorum_has_honest:
  assumes "S \<subseteq> members" and "unat (q_threshold (TotalVotingPower vals h)) \<le> voting_mass vals h S"
  shows "\<exists>a\<in>S. a \<notin> byz"
  using quorums_share_honest [OF assms(1,1,2,2)] by simp

end

section \<open>The mock validators\<close>

text \<open>
  \<open>consensus/mock.go\<close>: one unit of power for every address but the one that stands for the
  precommits of the sync protocol, which has the whole power. \<open>addr\<close> is \<open>mockNodeAddress\<close>
  (\<open>felt.FromUint64\<close> of the node index) and \<open>syncSender\<close> is
  \<open>SyncProtocolPrecommitSender\<close>, the felt of the largest \<open>uint64\<close>. Go's \<open>%\<close> truncates; an
  index below zero (after \<open>int\<close> overflow) or an empty validator list panics, \<open>None\<close>.
\<close>

definition mock_TotalVotingPower :: "nat list \<Rightarrow> height \<Rightarrow> voting_power" where
  "mock_TotalVotingPower n h = of_nat (length n)"

definition mock_ValidatorVotingPower :: "'a \<Rightarrow> nat list \<Rightarrow> height \<Rightarrow> 'a \<Rightarrow> voting_power" where
  "mock_ValidatorVotingPower syncSender n h addr =
     (if addr = syncSender then of_nat (length n) else 1)"

definition go_rem :: "int \<Rightarrow> int \<Rightarrow> int" where
  "go_rem x y = sgn x * (\<bar>x\<bar> mod \<bar>y\<bar>)"

definition mock_Proposer :: "(nat \<Rightarrow> 'a) \<Rightarrow> nat list \<Rightarrow> height \<Rightarrow> round \<Rightarrow> 'a option" where
  "mock_Proposer addr n h r =
     (if n = [] then None
      else let idx = go_rem (to_int64 (to_int64 (sint h * 31) + to_int64 (r * 17))) (int (length n))
           in if idx < 0 then None else Some (addr (n ! nat idx)))"

definition mock_validators :: "(nat \<Rightarrow> 'a) \<Rightarrow> 'a \<Rightarrow> nat list \<Rightarrow> 'a validators" where
  "mock_validators addr syncSender n =
     \<lparr>TotalVotingPower = mock_TotalVotingPower n,
      ValidatorVotingPower = mock_ValidatorVotingPower syncSender n,
      ProposerOf = (\<lambda>h r. the (mock_Proposer addr n h r))\<rparr>"

lemma go_rem_bound: "0 < y \<Longrightarrow> \<bar>go_rem x y\<bar> < y"
  by (cases "x = 0") (simp_all add: go_rem_def abs_mult abs_sgn_eq)

text \<open>A proposer that is not a panic is one of the nodes.\<close>

lemma mock_Proposer_node:
  assumes "mock_Proposer addr n h r = Some a"
  shows "a \<in> addr ` set n"
proof -
  define idx where "idx = go_rem (to_int64 (to_int64 (sint h * 31) + to_int64 (r * 17))) (int (length n))"
  from assms have n: "n \<noteq> []" and pos: "\<not> idx < 0" and a: "a = addr (n ! nat idx)"
    by (simp_all add: mock_Proposer_def idx_def Let_def split: if_splits)
  from n have "0 < int (length n)" by simp
  then have "\<bar>idx\<bar> < int (length n)" unfolding idx_def by (rule go_rem_bound)
  with pos have "nat idx < length n" by linarith
  with a show ?thesis by simp
qed

locale mock_network =
  fixes addr :: "nat \<Rightarrow> 'a" and syncSender :: 'a and n :: "nat list" and faulty :: "nat set"
  assumes distinct_nodes: "distinct n" and nonempty: "n \<noteq> []" and few: "length n < 2 ^ 63"
    and addr_inj: "inj_on addr (set n \<union> faulty)" and sync_not_node: "syncSender \<notin> addr ` set n"
    and faulty_few: "card (set n \<inter> faulty) \<le> (length n - 1) div 3"
begin

lemma total_unat: "unat (mock_TotalVotingPower n h) = length n"
  using few by (simp add: mock_TotalVotingPower_def unat_of_nat)

lemma node_power: "a \<in> addr ` set n \<Longrightarrow> mock_ValidatorVotingPower syncSender n h a = 1"
  using sync_not_node by (auto simp: mock_ValidatorVotingPower_def)

lemma power_card:
  assumes "S \<subseteq> set n"
  shows "(\<Sum>a\<in>addr ` S. unat (mock_ValidatorVotingPower syncSender n h a)) = card S"
proof -
  have "(\<Sum>a\<in>addr ` S. unat (mock_ValidatorVotingPower syncSender n h a)) = (\<Sum>a\<in>addr ` S. 1)"
    using assms by (intro sum.cong) (auto simp: node_power)
  also have "\<dots> = card S"
    using assms by (simp add: card_image inj_on_subset [OF addr_inj] le_supI1)
  finally show ?thesis .
qed

end

sublocale mock_network \<subseteq> validator_set "mock_validators addr syncSender n" "addr ` set n" "addr ` faulty"
proof unfold_locales
  fix h
  show "0 < TotalVotingPower (mock_validators addr syncSender n) h"
    using nonempty total_unat [of h] by (simp add: mock_validators_def word_gt_0 unat_eq_zero [symmetric])
  show "unat (TotalVotingPower (mock_validators addr syncSender n) h) < 2 ^ 63"
    using few by (simp add: mock_validators_def total_unat)
  show "(\<Sum>a\<in>addr ` set n. unat (ValidatorVotingPower (mock_validators addr syncSender n) h a))
      \<le> unat (TotalVotingPower (mock_validators addr syncSender n) h)"
    using power_card [of "set n" h] by (simp add: mock_validators_def total_unat card_length)
  have "addr ` set n \<inter> addr ` faulty = addr ` (set n \<inter> faulty)"
    using addr_inj by (simp add: inj_on_image_Int [OF addr_inj])
  moreover have "0 < mock_TotalVotingPower n h"
    using nonempty total_unat [of h] by (simp add: word_gt_0 unat_eq_zero [symmetric])
  ultimately show "(\<Sum>a\<in>addr ` set n \<inter> addr ` faulty. unat (ValidatorVotingPower (mock_validators addr syncSender n) h a))
      \<le> unat (f_threshold (TotalVotingPower (mock_validators addr syncSender n) h))"
    using power_card [of "set n \<inter> faulty" h] faulty_few
    by (simp add: mock_validators_def unat_f_threshold total_unat)
qed (simp_all)

text \<open>
  Four mock nodes, addressed by the 64-bit values their felts are made of, with one of
  them faulty.
\<close>

interpretation mock4: mock_network "of_nat :: nat \<Rightarrow> uint64" "- 1" "[2, 0, 3, 1]" "{3}"
proof unfold_locales
  show "inj_on (of_nat :: nat \<Rightarrow> uint64) (set [2, 0, 3, 1] \<union> {3})"
    by (simp add: inj_on_def)
qed simp_all

end
