(* ===== verification/Consensus_Network.thy ===== *)
theory Consensus_Network
  imports Tendermint Validator_Set
begin

text \<open>
  A network of Tendermint state machines: honest validators run the entry points of
  \<open>consensus/tendermint\<close> on messages that faulty validators may invent and honest ones
  must have broadcast, on timeouts in any order, and on synced blocks. The invariants of
  one node (what its counter holds, what it has voted for, how its lock and its votes are
  justified) give agreement: no two honest nodes commit different values at a height.
\<close>

section \<open>Events of a node\<close>

datatype ('v, 'h, 'a) event =
    EvStart
  | EvTimeout timeout
  | EvProposal "('v, 'a) proposal"
  | EvPrevote "('h, 'a) vote"
  | EvPrecommit "('h, 'a) vote"
  | EvSync "('v, 'a) proposal" "('h, 'a) vote list"

fun handle ::
  "('v \<Rightarrow> 'h) \<Rightarrow> 'v application \<Rightarrow> ('v, 'h, 'a) state_machine \<Rightarrow> ('v, 'h, 'a) event
    \<Rightarrow> ('v, 'h, 'a) action list \<times> ('v, 'h, 'a) state_machine" where
  "handle hsh app s EvStart = ProcessStart hsh app s 0"
| "handle hsh app s (EvTimeout tm) = ProcessTimeout hsh app s tm"
| "handle hsh app s (EvProposal p) = ProcessProposal hsh app s p"
| "handle hsh app s (EvPrevote v) = ProcessPrevote hsh app s v"
| "handle hsh app s (EvPrecommit v) = ProcessPrecommit hsh app s v"
| "handle hsh app s (EvSync p vs) = ProcessSync hsh app s p vs"

definition sent_prevotes :: "('v, 'h, 'a) action list \<Rightarrow> ('h, 'a) vote set" where
  "sent_prevotes acts = {v. BroadcastPrevote v \<in> set acts}"

definition sent_precommits :: "('v, 'h, 'a) action list \<Rightarrow> ('h, 'a) vote set" where
  "sent_precommits acts = {v. BroadcastPrecommit v \<in> set acts}"

definition committed :: "('v, 'h, 'a) action list \<Rightarrow> ('v, 'a) proposal set" where
  "committed acts = {p. Commit p \<in> set acts}"

section \<open>The network\<close>

record ('v, 'h, 'a) network =
  net_nodes :: "'a \<Rightarrow> ('v, 'h, 'a) state_machine"
  net_prevotes :: "('h, 'a) vote set"
  net_precommits :: "('h, 'a) vote set"
  net_commits :: "('a \<times> ('v, 'a) proposal) set"

definition net_init :: "'a validators \<Rightarrow> ('a \<Rightarrow> height) \<Rightarrow> ('v, 'h, 'a) network" where
  "net_init vals h0 =
     \<lparr>net_nodes = (\<lambda>n. newStateMachine n vals (h0 n)), net_prevotes = {}, net_precommits = {}, net_commits = {}\<rparr>"

text \<open>
  A vote reaches a node only from a member, and in the name of an honest member only if
  that member has broadcast it (signatures are checked before the engine). Proposals are
  not restricted at all.
\<close>

definition deliverable :: "'a set \<Rightarrow> 'a set \<Rightarrow> ('h, 'a) vote set \<Rightarrow> ('h, 'a) vote \<Rightarrow> bool" where
  "deliverable members byz sent v \<longleftrightarrow> Sender v \<in> members \<and> (Sender v \<notin> byz \<longrightarrow> v \<in> sent)"

fun delivered :: "'a set \<Rightarrow> 'a set \<Rightarrow> ('v, 'h, 'a) network \<Rightarrow> ('v, 'h, 'a) event \<Rightarrow> bool" where
  "delivered members byz N (EvPrevote v) = deliverable members byz (net_prevotes N) v"
| "delivered members byz N (EvPrecommit v) = deliverable members byz (net_precommits N) v"
| "delivered members byz N (EvSync p vs) = (\<forall>v\<in>set vs. deliverable members byz (net_precommits N) v)"
| "delivered members byz N _ = True"

text \<open>
  What the driver guarantees of the calls it makes: a timeout is handled only between
  \<open>ProcessStart\<close> and the commit of a height. Heights and rounds that are started stay below
  the largest 64-bit values, so that their increments do not wrap.
\<close>

fun enabled :: "('v, 'h, 'a) state_machine \<Rightarrow> ('v, 'h, 'a) event \<Rightarrow> bool" where
  "enabled s EvStart = (st_height (sm_state s) \<noteq> - 1)"
| "enabled s (EvTimeout tm) = (isHeightStarted s \<and> tm_Round tm < max_int64)"
| "enabled s _ = True"

inductive net_step ::
  "'a set \<Rightarrow> 'a set \<Rightarrow> ('v \<Rightarrow> 'h) \<Rightarrow> ('v, 'h, 'a) network \<Rightarrow> ('v, 'h, 'a) network \<Rightarrow> bool"
  for members byz hsh where
  node_step:
    "n \<in> members \<Longrightarrow> n \<notin> byz \<Longrightarrow> enabled (net_nodes N n) ev \<Longrightarrow> delivered members byz N ev \<Longrightarrow>
     handle hsh app (net_nodes N n) ev = (acts, s') \<Longrightarrow>
     net_step members byz hsh N
       (N\<lparr>net_nodes := (net_nodes N)(n := s'),
          net_prevotes := net_prevotes N \<union> sent_prevotes acts,
          net_precommits := net_precommits N \<union> sent_precommits acts,
          net_commits := net_commits N \<union> Pair n ` committed acts\<rparr>)"

inductive net_reachable ::
  "'a validators \<Rightarrow> 'a set \<Rightarrow> 'a set \<Rightarrow> ('v \<Rightarrow> 'h) \<Rightarrow> ('v, 'h, 'a) network \<Rightarrow> bool"
  for vals members byz hsh where
  init: "net_reachable vals members byz hsh (net_init vals h0)"
| step: "net_reachable vals members byz hsh N \<Longrightarrow> net_step members byz hsh N N' \<Longrightarrow>
    net_reachable vals members byz hsh N'"

section \<open>Quorums of sent votes\<close>

abbreviation mk_vote :: "height \<Rightarrow> round \<Rightarrow> 'a \<Rightarrow> 'h option \<Rightarrow> ('h, 'a) vote" where
  "mk_vote h r a i \<equiv> \<lparr>Height = h, Round = r, Sender = a, ID = i\<rparr>"

text \<open>Members of quorum weight whose honest part has sent the vote.\<close>

definition backed ::
  "'a validators \<Rightarrow> 'a set \<Rightarrow> 'a set \<Rightarrow> ('h, 'a) vote set \<Rightarrow> height \<Rightarrow> round \<Rightarrow> 'h option \<Rightarrow> bool" where
  "backed vals members byz V h r i \<longleftrightarrow>
     (\<exists>Q. Q \<subseteq> members \<and> unat (q_threshold (TotalVotingPower vals h)) \<le> voting_mass vals h Q \<and>
          (\<forall>a\<in>Q. a \<notin> byz \<longrightarrow> mk_vote h r a i \<in> V))"

lemma backed_mono: "backed vals members byz V h r i \<Longrightarrow> V \<subseteq> V' \<Longrightarrow> backed vals members byz V' h r i"
  unfolding backed_def by blast

section \<open>The invariant of a node\<close>

definition counter_sound ::
  "'a set \<Rightarrow> 'a set \<Rightarrow> ('h, 'a) vote set \<Rightarrow> ('h, 'a) vote set \<Rightarrow> ('v, 'h, 'a) vote_counter \<Rightarrow> bool" where
  "counter_sound members byz PV PC vc \<longleftrightarrow>
     (\<forall>h r i a. a \<in> voted vc h r Prevote i \<longrightarrow> a \<in> members \<and> (a \<notin> byz \<longrightarrow> mk_vote h r a i \<in> PV)) \<and>
     (\<forall>h r i a. a \<in> voted vc h r Precommit i \<longrightarrow> a \<in> members \<and> (a \<notin> byz \<longrightarrow> mk_vote h r a i \<in> PC)) \<and>
     (\<forall>h r p. proposed vc h r = Some p \<longrightarrow> Height p = h \<and> Round p = r)"

text \<open>The votes a node has sent.\<close>

definition own :: "'a \<Rightarrow> ('h, 'a) vote set \<Rightarrow> ('h, 'a) vote set" where
  "own n V = {v \<in> V. Sender v = n}"

text \<open>They are not ahead of its height, round and step.\<close>

definition votes_past :: "'a \<Rightarrow> ('h, 'a) vote set \<Rightarrow> nat \<Rightarrow> 'v tm_state \<Rightarrow> bool" where
  "votes_past n V k st \<longleftrightarrow>
     (\<forall>v\<in>own n V. Height v < st_height st \<or>
        Height v = st_height st \<and> (Round v < st_round st \<or> Round v = st_round st \<and> k \<le> step_num (st_step st)))"

definition votes_unique :: "'a \<Rightarrow> ('h, 'a) vote set \<Rightarrow> bool" where
  "votes_unique n V \<longleftrightarrow>
     (\<forall>v\<in>own n V. \<forall>w\<in>own n V. Height v = Height w \<longrightarrow> Round v = Round w \<longrightarrow> ID v = ID w)"

definition lock_ok ::
  "'a validators \<Rightarrow> 'a set \<Rightarrow> 'a set \<Rightarrow> ('v \<Rightarrow> 'h) \<Rightarrow> 'a \<Rightarrow> ('h, 'a) vote set \<Rightarrow> ('h, 'a) vote set \<Rightarrow> 'v tm_state \<Rightarrow> bool" where
  "lock_ok vals members byz hsh n PV PC st \<longleftrightarrow>
     (lockedRound st = -1 \<and> lockedValue st = None \<or>
      0 \<le> lockedRound st \<and>
      (lockedRound st < st_round st \<or> lockedRound st = st_round st \<and> 2 \<le> step_num (st_step st)) \<and>
      (\<exists>v. lockedValue st = Some v \<and> backed vals members byz PV (st_height st) (lockedRound st) (Some (hsh v)))) \<and>
     (\<forall>w\<in>own n PC. Height w = st_height st \<longrightarrow> ID w \<noteq> None \<longrightarrow>
        0 \<le> Round w \<and> Round w \<le> lockedRound st)"

text \<open>
  A precommit for a value has a polka of its round. A prevote for a value after an earlier
  precommit has a polka of its value in between.
\<close>

definition justified ::
  "'a validators \<Rightarrow> 'a set \<Rightarrow> 'a set \<Rightarrow> 'a \<Rightarrow> ('h, 'a) vote set \<Rightarrow> ('h, 'a) vote set \<Rightarrow> bool" where
  "justified vals members byz n PV PC \<longleftrightarrow>
     (\<forall>w\<in>own n PC. ID w \<noteq> None \<longrightarrow> backed vals members byz PV (Height w) (Round w) (ID w)) \<and>
     (\<forall>v\<in>own n PV. \<forall>w\<in>own n PC. Height v = Height w \<longrightarrow> Round w < Round v \<longrightarrow>
        ID v \<noteq> None \<longrightarrow> ID w \<noteq> None \<longrightarrow>
        (\<exists>vr. Round w \<le> vr \<and> vr < Round v \<and> backed vals members byz PV (Height v) vr (ID v)))"

definition node_inv ::
  "'a validators \<Rightarrow> 'a set \<Rightarrow> 'a set \<Rightarrow> ('v \<Rightarrow> 'h) \<Rightarrow> 'a \<Rightarrow> ('h, 'a) vote set \<Rightarrow> ('h, 'a) vote set
    \<Rightarrow> ('v, 'h, 'a) state_machine \<Rightarrow> bool" where
  "node_inv vals members byz hsh n PV PC s \<longleftrightarrow>
     nodeAddr s = n \<and> vc_ok (voteCounter s) \<and> vc_validators (voteCounter s) = vals \<and>
     currentHeight (voteCounter s) = st_height (sm_state s) \<and> 0 \<le> st_round (sm_state s) \<and>
     counter_sound members byz PV PC (voteCounter s) \<and>
     votes_past n PV 1 (sm_state s) \<and> votes_past n PC 2 (sm_state s) \<and>
     votes_unique n PV \<and> votes_unique n PC \<and>
     lock_ok vals members byz hsh n PV PC (sm_state s) \<and> justified vals members byz n PV PC \<and>
     (\<not> isHeightStarted s \<longrightarrow>
        st_round (sm_state s) = 0 \<and> st_step (sm_state s) = StepPropose \<and> lockedRound (sm_state s) = -1) \<and>
     (isHeightStarted s \<longrightarrow> st_height (sm_state s) \<noteq> - 1)"

lemma node_invD:
  assumes "node_inv vals members byz hsh n PV PC s"
  shows "nodeAddr s = n" "vc_ok (voteCounter s)" "vc_validators (voteCounter s) = vals"
    "currentHeight (voteCounter s) = st_height (sm_state s)" "0 \<le> st_round (sm_state s)"
    "counter_sound members byz PV PC (voteCounter s)"
    "votes_past n PV 1 (sm_state s)" "votes_past n PC 2 (sm_state s)"
    "votes_unique n PV" "votes_unique n PC" "lock_ok vals members byz hsh n PV PC (sm_state s)"
    "justified vals members byz n PV PC"
  using assms by (simp_all add: node_inv_def)

lemma node_inv_init: "node_inv vals members byz hsh n {} {} (newStateMachine n vals h)"
  by (simp add: node_inv_def counter_sound_def votes_past_def votes_unique_def lock_ok_def justified_def
      own_def newStateMachine_def vc_ok_new)
     (simp add: newVoteCounter_def voted_def proposed_def round_at_def Let_def newRoundData_def voters_for_def ballot_for_def
      split: option.splits)


section \<open>Steps that send nothing\<close>

text \<open>Votes of other nodes only weaken what the invariant of \<open>n\<close> asks.\<close>

lemma counter_sound_mono:
  "counter_sound members byz PV PC vc \<Longrightarrow> PV \<subseteq> PV' \<Longrightarrow> PC \<subseteq> PC' \<Longrightarrow> counter_sound members byz PV' PC' vc"
  by (auto simp: counter_sound_def subset_iff)

lemma own_cong:
  assumes "own n V' = own n V"
  shows "votes_past n V' k st = votes_past n V k st" "votes_unique n V' = votes_unique n V"
  by (simp_all only: votes_past_def votes_unique_def assms)

lemma lock_ok_mono:
  assumes "lock_ok vals members byz hsh n PV PC st" and "PV \<subseteq> PV'" and "own n PC' = own n PC"
  shows "lock_ok vals members byz hsh n PV' PC' st"
  using assms backed_mono [OF _ assms(2)] by (auto simp: lock_ok_def)

lemma justified_mono:
  assumes "justified vals members byz n PV PC" and "PV \<subseteq> PV'" and "own n PV' = own n PV" "own n PC' = own n PC"
  shows "justified vals members byz n PV' PC'"
  using assms(1) unfolding justified_def assms(3,4) by (meson assms(2) backed_mono)

lemma node_inv_mono:
  assumes inv: "node_inv vals members byz hsh n PV PC s"
    and sub: "PV \<subseteq> PV'" "PC \<subseteq> PC'" and own: "own n PV' = own n PV" "own n PC' = own n PC"
  shows "node_inv vals members byz hsh n PV' PC' s"
proof -
  have "counter_sound members byz PV' PC' (voteCounter s)"
    by (rule counter_sound_mono [OF node_invD(6) [OF inv] sub])
  moreover have "lock_ok vals members byz hsh n PV' PC' (sm_state s)"
    by (rule lock_ok_mono [OF node_invD(11) [OF inv] sub(1) own(2)])
  moreover have "justified vals members byz n PV' PC'"
    by (rule justified_mono [OF node_invD(12) [OF inv] sub(1) own])
  ultimately show ?thesis
    using inv by (simp add: node_inv_def own_cong [OF own(1)] own_cong [OF own(2)])
qed

lemma node_inv_cong:
  assumes "node_inv vals members byz hsh n PV PC s"
    and "nodeAddr s' = nodeAddr s" "voteCounter s' = voteCounter s" "isHeightStarted s' = isHeightStarted s"
    and "st_height (sm_state s') = st_height (sm_state s)" "st_round (sm_state s') = st_round (sm_state s)"
    and "st_step (sm_state s') = st_step (sm_state s)" "lockedRound (sm_state s') = lockedRound (sm_state s)"
    and "lockedValue (sm_state s') = lockedValue (sm_state s)"
  shows "node_inv vals members byz hsh n PV PC s'"
  using assms by (simp add: node_inv_def votes_past_def lock_ok_def)

text \<open>A new round, later than the current one or the first of the height.\<close>

lemma node_inv_resetState:
  assumes inv: "node_inv vals members byz hsh n PV PC s" and started: "isHeightStarted s"
    and r: "st_round (sm_state s) < r \<or> r = 0 \<and> st_round (sm_state s) = 0 \<and> st_step (sm_state s) = StepPropose"
  shows "node_inv vals members byz hsh n PV PC (resetState s r)"
proof -
  have past: "votes_past n V k (sm_state (resetState s r))" if "votes_past n V k (sm_state s)" "0 < k" for V k
    unfolding votes_past_def
  proof
    fix v assume "v \<in> own n V"
    with that(1) have "Height v < st_height (sm_state s) \<or> Height v = st_height (sm_state s) \<and>
        (Round v < st_round (sm_state s) \<or> Round v = st_round (sm_state s) \<and> k \<le> step_num (st_step (sm_state s)))"
      by (auto simp: votes_past_def)
    with r that(2) show "Height v < st_height (sm_state (resetState s r)) \<or>
        Height v = st_height (sm_state (resetState s r)) \<and>
        (Round v < st_round (sm_state (resetState s r)) \<or>
         Round v = st_round (sm_state (resetState s r)) \<and> k \<le> step_num (st_step (sm_state (resetState s r))))"
      by auto
  qed
  have "lock_ok vals members byz hsh n PV PC (sm_state (resetState s r))"
    using node_invD(11) [OF inv] r by (auto simp: lock_ok_def)
  with past [OF node_invD(7) [OF inv]] past [OF node_invD(8) [OF inv]] inv started r show ?thesis
    by (auto simp: node_inv_def)
qed

text \<open>A message enters the counter.\<close>

lemma node_inv_counter:
  assumes "node_inv vals members byz hsh n PV PC s" and "vc_ok vc" "vc_validators vc = vals"
    and "currentHeight vc = currentHeight (voteCounter s)" and "counter_sound members byz PV PC vc"
  shows "node_inv vals members byz hsh n PV PC (s\<lparr>voteCounter := vc\<rparr>)"
  using assms by (simp add: node_inv_def)

lemma counter_sound_AddProposal:
  assumes "counter_sound members byz PV PC vc"
  shows "counter_sound members byz PV PC (snd (AddProposal vc p))"
  using assms by (auto simp: counter_sound_def proposed_AddProposal)

lemma counter_sound_add_typed:
  assumes "counter_sound members byz PV PC vc" and "Sender v \<in> members"
    and "Sender v \<notin> byz \<longrightarrow> v \<in> (case t of Prevote \<Rightarrow> PV | Precommit \<Rightarrow> PC)"
  shows "counter_sound members byz PV PC (snd (add_typed vc v t))"
  using assms
  by (cases v; cases t) (auto simp: counter_sound_def voted_add_typed split: if_splits)

lemma node_inv_AddProposal:
  assumes "node_inv vals members byz hsh n PV PC s"
  shows "node_inv vals members byz hsh n PV PC (s\<lparr>voteCounter := snd (AddProposal (voteCounter s) p)\<rparr>)"
  using assms by (intro node_inv_counter) (auto simp: node_inv_def vc_ok_AddProposal counter_sound_AddProposal)

lemma node_inv_add_typed:
  assumes "node_inv vals members byz hsh n PV PC s"
    and "deliverable members byz (case t of Prevote \<Rightarrow> PV | Precommit \<Rightarrow> PC) v"
  shows "node_inv vals members byz hsh n PV PC (s\<lparr>voteCounter := snd (add_typed (voteCounter s) v t)\<rparr>)"
  using assms by (intro node_inv_counter)
    (auto simp: node_inv_def vc_ok_add_typed deliverable_def intro!: counter_sound_add_typed)

lemma node_inv_startRound:
  assumes "node_inv vals members byz hsh n PV PC s" and "isHeightStarted s"
    and "st_round (sm_state s) < r \<or> r = 0 \<and> st_round (sm_state s) = 0 \<and> st_step (sm_state s) = StepPropose"
  shows "node_inv vals members byz hsh n PV PC (snd (startRound app s r))"
  using node_inv_resetState [OF assms] node_inv_AddProposal [OF node_inv_resetState [OF assms]]
  by (simp add: startRound_def sendProposal_def Let_def)

section \<open>Steps that send a vote\<close>

lemma own_insert: "Sender v = n \<Longrightarrow> own n (insert v V) = insert v (own n V)"
  by (auto simp: own_def)

lemma votes_unique_insert:
  assumes "votes_unique n V" and "Sender v = n" and "\<And>w. w \<in> own n V \<Longrightarrow> Height w \<noteq> Height v \<or> Round w \<noteq> Round v"
  shows "votes_unique n (insert v V)"
  using assms(1) unfolding votes_unique_def own_insert [OF assms(2)] by (metis assms(3) insert_iff)

lemma counter_sound_insert:
  assumes "counter_sound members byz PV PC vc" and "Sender v \<in> members"
  shows "counter_sound members byz (insert v PV) PC (snd (AddPrevote vc v))"
    "counter_sound members byz PV (insert v PC) (snd (AddPrecommit vc v))"
  unfolding AddPrevote_eq AddPrecommit_eq
  by (rule counter_sound_add_typed; (rule counter_sound_mono [OF assms(1)])?; use assms(2) in auto)+

lemma votes_past_lt:
  assumes "votes_past n V k st" and "w \<in> own n V" and "step_num (st_step st) < k"
  shows "Height w < st_height st \<or> Height w = st_height st \<and> Round w < st_round st"
  using assms by (auto simp: votes_past_def)

lemma votes_past_step:
  "votes_past n V k st \<Longrightarrow> step_num (st_step st) \<le> step_num t \<Longrightarrow> votes_past n V k (st\<lparr>st_step := t\<rparr>)"
  by (force simp: votes_past_def)

lemma votes_past_insert:
  assumes "votes_past n V k st" and "step_num (st_step st) \<le> step_num t" and "k \<le> step_num t"
  shows "votes_past n (insert (mk_vote (st_height st) (st_round st) n i) V) k (st\<lparr>st_step := t\<rparr>)"
  using votes_past_step [OF assms(1,2)] assms(3) by (simp add: votes_past_def own_insert)

lemma node_inv_prevote:
  assumes inv: "node_inv vals members byz hsh n PV PC s" and n: "n \<in> members"
    and started: "isHeightStarted s" and step: "st_step (sm_state s) = StepPropose"
    and just: "i = None \<or> lockedRound (sm_state s) = -1 \<or>
      (\<exists>vr. lockedRound (sm_state s) \<le> vr \<and> vr < st_round (sm_state s) \<and>
            backed vals members byz PV (st_height (sm_state s)) vr i)"
  defines "v \<equiv> mk_vote (st_height (sm_state s)) (st_round (sm_state s)) n i"
  shows "node_inv vals members byz hsh n (insert v PV) PC (snd (setStepAndSendPrevote s i))"
proof -
  let ?st = "(sm_state s)\<lparr>st_step := StepPrevote\<rparr>"
  have own: "own n (insert v PV) = insert v (own n PV)" by (simp add: own_insert v_def)
  have sub: "PV \<subseteq> insert v PV" by auto
  have sound: "counter_sound members byz (insert v PV) PC (snd (AddPrevote (voteCounter s) v))"
    by (rule counter_sound_insert(1) [OF node_invD(6) [OF inv]]) (simp add: v_def n)
  have past: "votes_past n (insert v PV) 1 ?st" "votes_past n PC 2 ?st"
    unfolding v_def using votes_past_insert [OF node_invD(7) [OF inv]] votes_past_step [OF node_invD(8) [OF inv]] step
    by simp_all
  have fresh: "Height w \<noteq> Height v \<or> Round w \<noteq> Round v" if "w \<in> own n PV" for w
    using votes_past_lt [OF node_invD(7) [OF inv] that] step by (auto simp: v_def)
  have "Sender v = n" by (simp add: v_def)
  from votes_unique_insert [OF node_invD(9) [OF inv] this fresh] have unique: "votes_unique n (insert v PV)" .
  have lock: "lock_ok vals members byz hsh n (insert v PV) PC ?st"
    using lock_ok_mono [OF node_invD(11) [OF inv] sub refl] step by (auto simp: lock_ok_def)
  have new: "\<exists>vr. Round w \<le> vr \<and> vr < Round v \<and> backed vals members byz PV (Height v) vr (ID v)"
    if w: "w \<in> own n PC" "Height v = Height w" "ID v \<noteq> None" "ID w \<noteq> None" for w
  proof -
    have b: "0 \<le> Round w" "Round w \<le> lockedRound (sm_state s)"
      using node_invD(11) [OF inv] w by (auto simp: lock_ok_def v_def)
    with just w(3) obtain vr where "lockedRound (sm_state s) \<le> vr" "vr < st_round (sm_state s)"
      "backed vals members byz PV (st_height (sm_state s)) vr i" by (auto simp: v_def)
    with b show ?thesis by (intro exI [of _ vr]) (simp add: v_def)
  qed
  have "justified vals members byz n (insert v PV) PC"
    unfolding justified_def own
    using node_invD(12) [OF inv] new by (simp add: justified_def) (meson backed_mono sub)
  with inv started sound past unique lock show ?thesis
    by (simp add: node_inv_def setStepAndSendPrevote_def Let_def AddPrevote_eq vc_ok_add_typed v_def)
qed

lemma node_inv_precommit:
  assumes inv: "node_inv vals members byz hsh n PV PC s" and n: "n \<in> members"
    and started: "isHeightStarted s" and step: "st_step (sm_state s) = StepPrevote"
    and st: "st_height st = st_height (sm_state s)" "st_round st = st_round (sm_state s)"
      "st_step st = st_step (sm_state s)"
    and polka: "i \<noteq> None \<Longrightarrow> backed vals members byz PV (st_height (sm_state s)) (st_round (sm_state s)) i"
  defines "v \<equiv> mk_vote (st_height (sm_state s)) (st_round (sm_state s)) n i"
  assumes lock: "lock_ok vals members byz hsh n PV (insert v PC) (st\<lparr>st_step := StepPrecommit\<rparr>)"
  shows "node_inv vals members byz hsh n PV (insert v PC) (snd (setStepAndSendPrecommit (s\<lparr>sm_state := st\<rparr>) i))"
proof -
  let ?st = "st\<lparr>st_step := StepPrecommit\<rparr>"
  have own: "own n (insert v PC) = insert v (own n PC)" by (simp add: own_insert v_def)
  have sound: "counter_sound members byz PV (insert v PC) (snd (AddPrecommit (voteCounter s) v))"
    by (rule counter_sound_insert(2) [OF node_invD(6) [OF inv]]) (simp add: v_def n)
  have past0: "votes_past n PV 1 st" "votes_past n PC 2 st"
    using node_invD(7,8) [OF inv] st by (simp_all add: votes_past_def)
  have past: "votes_past n PV 1 ?st" "votes_past n (insert v PC) 2 ?st"
    unfolding v_def st [symmetric] using votes_past_step [OF past0(1)] votes_past_insert [OF past0(2)] step st
    by simp_all
  have fresh: "Height w \<noteq> Height v \<or> Round w \<noteq> Round v" if "w \<in> own n PC" for w
    using votes_past_lt [OF node_invD(8) [OF inv] that] step by (auto simp: v_def)
  have "Sender v = n" by (simp add: v_def)
  from votes_unique_insert [OF node_invD(10) [OF inv] this fresh] have unique: "votes_unique n (insert v PC)" .
  have late: "\<not> Round v < Round w" if "w \<in> own n PV" "Height w = Height v" for w
    using node_invD(7) [OF inv] that by (auto simp: votes_past_def v_def)
  have "ID v \<noteq> None \<Longrightarrow> backed vals members byz PV (Height v) (Round v) (ID v)"
    using polka by (simp add: v_def)
  with node_invD(12) [OF inv] late have "justified vals members byz n PV (insert v PC)"
    unfolding justified_def own by blast
  with inv started sound past unique lock st show ?thesis
    by (simp add: node_inv_def setStepAndSendPrecommit_def Let_def AddPrecommit_eq vc_ok_add_typed v_def)
qed

lemma node_inv_precommit_nil:
  assumes inv: "node_inv vals members byz hsh n PV PC s" and "n \<in> members"
    and "isHeightStarted s" and step: "st_step (sm_state s) = StepPrevote"
  shows "node_inv vals members byz hsh n PV
    (insert (mk_vote (st_height (sm_state s)) (st_round (sm_state s)) n None) PC)
    (snd (setStepAndSendPrecommit s None))"
proof -
  have "lock_ok vals members byz hsh n PV
      (insert (mk_vote (st_height (sm_state s)) (st_round (sm_state s)) n None) PC) ((sm_state s)\<lparr>st_step := StepPrecommit\<rparr>)"
    using node_invD(11) [OF inv] step by (auto simp: lock_ok_def own_insert)
  from node_inv_precommit [OF assms refl refl refl _ this] show ?thesis by simp
qed

lemma node_inv_lock:
  assumes inv: "node_inv vals members byz hsh n PV PC s" and "n \<in> members"
    and "isHeightStarted s" and step: "st_step (sm_state s) = StepPrevote"
    and polka: "backed vals members byz PV (st_height (sm_state s)) (st_round (sm_state s)) (Some (hsh x))"
  shows "node_inv vals members byz hsh n PV
    (insert (mk_vote (st_height (sm_state s)) (st_round (sm_state s)) n (Some (hsh x))) PC)
    (snd (setStepAndSendPrecommit
      (s\<lparr>sm_state := (sm_state s)\<lparr>lockedValue := Some x, lockedRound := st_round (sm_state s)\<rparr>\<rparr>) (Some (hsh x))))"
proof -
  let ?v = "mk_vote (st_height (sm_state s)) (st_round (sm_state s)) n (Some (hsh x))"
  let ?st = "(sm_state s)\<lparr>lockedValue := Some x, lockedRound := st_round (sm_state s)\<rparr>"
  have past: "0 \<le> Round w \<and> Round w \<le> st_round (sm_state s)"
    if w: "w \<in> own n PC" "Height w = st_height (sm_state s)" "ID w \<noteq> None" for w
    using node_invD(11) [OF inv] w node_invD(8) [OF inv] by (auto simp: lock_ok_def votes_past_def)
  have "lock_ok vals members byz hsh n PV (insert ?v PC) (?st\<lparr>st_step := StepPrecommit\<rparr>)"
    using past polka node_invD(5) [OF inv] by (auto simp: lock_ok_def own_insert)
  from node_inv_precommit [OF assms(1-4) _ _ _ _ this] polka show ?thesis by simp
qed

section \<open>One turn of the loop\<close>

text \<open>What a list of actions does to the votes of the network, and what its commits rest on.\<close>

definition node_post ::
  "'a validators \<Rightarrow> 'a set \<Rightarrow> 'a set \<Rightarrow> ('v \<Rightarrow> 'h) \<Rightarrow> 'a \<Rightarrow> ('h, 'a) vote set \<Rightarrow> ('h, 'a) vote set
    \<Rightarrow> ('v, 'h, 'a) action list \<Rightarrow> ('v, 'h, 'a) state_machine \<Rightarrow> bool" where
  "node_post vals members byz hsh n PV PC acts s \<longleftrightarrow>
     node_inv vals members byz hsh n (PV \<union> sent_prevotes acts) (PC \<union> sent_precommits acts) s \<and>
     (\<forall>v \<in> sent_prevotes acts \<union> sent_precommits acts. Sender v = n) \<and>
     (\<forall>p \<in> committed acts.
        backed vals members byz (PC \<union> sent_precommits acts) (Height p) (Round p) (Some (hsh (Value p))))"

lemma sent_append [simp]:
  "sent_prevotes (xs @ ys) = sent_prevotes xs \<union> sent_prevotes ys"
  "sent_precommits (xs @ ys) = sent_precommits xs \<union> sent_precommits ys"
  "committed (xs @ ys) = committed xs \<union> committed ys"
  by (auto simp: sent_prevotes_def sent_precommits_def committed_def)

lemma sent_Nil [simp]: "sent_prevotes [] = {}" "sent_precommits [] = {}" "committed [] = {}"
  by (auto simp: sent_prevotes_def sent_precommits_def committed_def)

lemma sent_Cons:
  "sent_prevotes (a # xs) = (case a of BroadcastPrevote v \<Rightarrow> insert v (sent_prevotes xs) | _ \<Rightarrow> sent_prevotes xs)"
  "sent_precommits (a # xs) = (case a of BroadcastPrecommit v \<Rightarrow> insert v (sent_precommits xs) | _ \<Rightarrow> sent_precommits xs)"
  "committed (a # xs) = (case a of Commit p \<Rightarrow> insert p (committed xs) | _ \<Rightarrow> committed xs)"
  by (auto simp: sent_prevotes_def sent_precommits_def committed_def split: action.splits)

lemma node_post_Nil [simp]:
  "node_post vals members byz hsh n PV PC [] s \<longleftrightarrow> node_inv vals members byz hsh n PV PC s"
  by (simp add: node_post_def)

lemma node_post_append:
  assumes "node_post vals members byz hsh n PV PC xs s"
    and "node_post vals members byz hsh n (PV \<union> sent_prevotes xs) (PC \<union> sent_precommits xs) ys s'"
  shows "node_post vals members byz hsh n PV PC (xs @ ys) s'"
proof -
  have "backed vals members byz (PC \<union> (sent_precommits xs \<union> sent_precommits ys)) h r i"
    if "backed vals members byz (PC \<union> sent_precommits xs) h r i" for h r i
    by (rule backed_mono [OF that]) auto
  with assms show ?thesis by (auto simp: node_post_def Un_assoc)
qed

lemma node_post_silent:
  assumes "node_inv vals members byz hsh n PV PC s"
    and "sent_prevotes xs = {}" "sent_precommits xs = {}" "committed xs = {}"
  shows "node_post vals members byz hsh n PV PC xs s"
  using assms by (simp add: node_post_def)

lemma setStep_frame [simp]:
  "isHeightStarted (snd (setStepAndSendPrevote s i)) = isHeightStarted s"
  "isHeightStarted (snd (setStepAndSendPrecommit s i)) = isHeightStarted s"
  "fst (setStepAndSendPrevote s i) =
     BroadcastPrevote (mk_vote (st_height (sm_state s)) (st_round (sm_state s)) (nodeAddr s) i)"
  "fst (setStepAndSendPrecommit s i) =
     BroadcastPrecommit (mk_vote (st_height (sm_state s)) (st_round (sm_state s)) (nodeAddr s) i)"
  by (simp_all add: setStepAndSendPrevote_def setStepAndSendPrecommit_def Let_def)

lemma startRound_frame [simp]:
  "isHeightStarted (snd (startRound app s r)) = isHeightStarted s"
  "sent_prevotes [fst (startRound app s r)] = {}" "sent_precommits [fst (startRound app s r)] = {}"
  "committed [fst (startRound app s r)] = {}"
  by (simp_all add: startRound_def sendProposal_def scheduleTimeout_def Let_def sent_Cons)

lemma node_inv_commit:
  assumes inv: "node_inv vals members byz hsh n PV PC s" and started: "isHeightStarted s"
  shows "node_inv vals members byz hsh n PV PC (snd (doCommitValue s cp))"
proof -
  let ?h = "st_height (sm_state s)" and ?st = "sm_state (snd (doCommitValue s cp))"
  from inv started have "?h \<noteq> - 1" by (simp add: node_inv_def)
  then have lt: "?h < ?h + 1" by (rule word_less_inc)
  have past: "Height w < ?h + 1" if "w \<in> own n PV \<union> own n PC" for w
    using node_invD(7,8) [OF inv] that lt by (force simp: votes_past_def)
  have "counter_sound members byz PV PC (StartNewHeight (voteCounter s))"
    using node_invD(6) [OF inv] node_invD(2) [OF inv]
    by (auto simp: counter_sound_def voted_StartNewHeight proposed_StartNewHeight split: if_splits)
  moreover have "votes_past n PV 1 ?st" "votes_past n PC 2 ?st"
    using past by (auto simp: votes_past_def doCommitValue_def Let_def)
  moreover have "lock_ok vals members byz hsh n PV PC ?st"
    using past by (force simp: lock_ok_def doCommitValue_def Let_def)
  ultimately show ?thesis
    using inv by (simp add: node_inv_def) (simp add: doCommitValue_def Let_def vc_ok_StartNewHeight)
qed

lemma node_post_prevote:
  assumes "node_inv vals members byz hsh n PV PC s" and "n \<in> members"
    and "isHeightStarted s" and "st_step (sm_state s) = StepPropose"
    and "i = None \<or> lockedRound (sm_state s) = -1 \<or>
      (\<exists>vr. lockedRound (sm_state s) \<le> vr \<and> vr < st_round (sm_state s) \<and>
            backed vals members byz PV (st_height (sm_state s)) vr i)"
  shows "node_post vals members byz hsh n PV PC [fst (setStepAndSendPrevote s i)] (snd (setStepAndSendPrevote s i))"
  using node_inv_prevote [OF assms] node_invD(1) [OF assms(1)] by (simp add: node_post_def sent_Cons)

lemma node_post_precommit_nil:
  assumes "node_inv vals members byz hsh n PV PC s" and "n \<in> members"
    and "isHeightStarted s" and "st_step (sm_state s) = StepPrevote"
  shows "node_post vals members byz hsh n PV PC [fst (setStepAndSendPrecommit s None)] (snd (setStepAndSendPrecommit s None))"
  using node_inv_precommit_nil [OF assms] node_invD(1) [OF assms(1)] by (simp add: node_post_def sent_Cons)

text \<open>A value equal to the locked one has a polka of the locked round.\<close>

lemma locked_backed:
  assumes inv: "node_inv vals members byz hsh n PV PC s" and "st_step (sm_state s) = StepPropose"
    and "lockedValue (sm_state s) = Some v"
  shows "lockedRound (sm_state s) < st_round (sm_state s)"
    "backed vals members byz PV (st_height (sm_state s)) (lockedRound (sm_state s)) (Some (hsh v))"
  using node_invD(11) [OF inv] assms(2,3) by (auto simp: lock_ok_def)

context validator_set
begin

lemma quorum_backed:
  assumes "vc_ok vc" and "vc_validators vc = vals" and "counter_sound members byz PV PC vc"
    and q: "HasQuorumForVote vc r t i"
  shows "backed vals members byz (case t of Prevote \<Rightarrow> PV | Precommit \<Rightarrow> PC) (currentHeight vc) r i"
proof -
  let ?S = "voted vc (currentHeight vc) r t i"
  have S: "?S \<subseteq> members" and sent: "\<forall>a\<in>?S. a \<notin> byz \<longrightarrow>
      mk_vote (currentHeight vc) r a i \<in> (case t of Prevote \<Rightarrow> PV | Precommit \<Rightarrow> PC)"
    using assms(3) by (cases t; auto simp: counter_sound_def)+
  have "q_threshold (TotalVotingPower vals (currentHeight vc)) \<le> sum (ValidatorVotingPower vals (currentHeight vc)) ?S"
    using HasQuorumForVote_sum [OF assms(1) q] assms(1,2) by (simp add: vc_ok_def)
  from quorum_mass [OF S this] S sent show ?thesis unfolding backed_def by blast
qed

lemma node_quorum:
  assumes inv: "node_inv vals members byz hsh n PV PC s"
  shows "HasQuorumForVote (voteCounter s) r Prevote i \<Longrightarrow> backed vals members byz PV (st_height (sm_state s)) r i"
    "HasQuorumForVote (voteCounter s) r Precommit i \<Longrightarrow> backed vals members byz PC (st_height (sm_state s)) r i"
  using quorum_backed [OF node_invD(2,3,6) [OF inv], of r Prevote i]
    quorum_backed [OF node_invD(2,3,6) [OF inv], of r Precommit i] node_invD(4) [OF inv]
  by simp_all

lemma doFirstProposal_post:
  assumes inv: "node_inv vals members byz hsh n PV PC s" and "n \<in> members" and "isHeightStarted s"
    and up: "uponFirstProposal s (cache hsh app p)"
  shows "node_post vals members byz hsh n PV PC [fst (doFirstProposal hsh s (cache hsh app p))]
    (snd (doFirstProposal hsh s (cache hsh app p)))"
proof -
  from up have step: "st_step (sm_state s) = StepPropose" by (simp add: uponFirstProposal_def)
  show ?thesis
    unfolding doFirstProposal_def Let_def
    by (rule node_post_prevote [OF assms(1-3) step])
       (use locked_backed [OF inv step] in \<open>auto split: option.splits if_splits\<close>)
qed

lemma doProposalAndPolkaPrevious_post:
  assumes inv: "node_inv vals members byz hsh n PV PC s" and "n \<in> members" and "isHeightStarted s"
    and up: "uponProposalAndPolkaPrevious s (cache hsh app p)"
  shows "node_post vals members byz hsh n PV PC [fst (doProposalAndPolkaPrevious hsh s (cache hsh app p))]
    (snd (doProposalAndPolkaPrevious hsh s (cache hsh app p)))"
proof -
  let ?vr = "ValidRound p"
  from up have step: "st_step (sm_state s) = StepPropose" and vr: "?vr < st_round (sm_state s)"
    and q: "HasQuorumForVote (voteCounter s) ?vr Prevote (Some (hsh (Value p)))"
    by (auto simp: uponProposalAndPolkaPrevious_def Let_def)
  show ?thesis
    unfolding doProposalAndPolkaPrevious_def Let_def
    by (rule node_post_prevote [OF assms(1-3) step])
       (use locked_backed [OF inv step] node_quorum(1) [OF inv q] vr in \<open>auto split: option.splits if_splits\<close>)
qed

lemma doProposalAndPolkaCurrent_post:
  assumes inv: "node_inv vals members byz hsh n PV PC s" and n: "n \<in> members" and started: "isHeightStarted s"
    and up: "uponProposalAndPolkaCurrent s (cache hsh app p)"
  defines "res \<equiv> doProposalAndPolkaCurrent s (cache hsh app p)"
  shows "node_post vals members byz hsh n PV PC (case fst res of None \<Rightarrow> [] | Some a \<Rightarrow> [a]) (snd res)"
proof (cases "st_step (sm_state s) = StepPrevote")
  case True
  let ?s = "s\<lparr>sm_state := (sm_state s)\<lparr>lockedValue := Some (Value p), lockedRound := st_round (sm_state s)\<rparr>\<rparr>"
  let ?r = "setStepAndSendPrecommit ?s (Some (hsh (Value p)))"
  from up have "HasQuorumForVote (voteCounter s) (st_round (sm_state s)) Prevote (Some (hsh (Value p)))"
    by (simp add: uponProposalAndPolkaCurrent_def)
  note lk = node_inv_lock [OF inv n started True node_quorum(1) [OF inv this]]
  have "fst res = Some (fst ?r)" "snd res = (snd ?r)\<lparr>sm_state := (sm_state (snd ?r))\<lparr>validValue := Some (Value p),
      validRound := st_round (sm_state (snd ?r)), lockedValueAndOrValidValueSet := True\<rparr>\<rparr>"
    using True by (simp_all add: res_def doProposalAndPolkaCurrent_def Let_def split_beta)
  with node_inv_cong [OF lk, of "snd res"] node_invD(1) [OF inv] show ?thesis
    by (simp add: node_post_def sent_Cons)
next
  case False
  then have "fst res = None" "snd res = s\<lparr>sm_state := (sm_state s)\<lparr>validValue := Some (Value p),
      validRound := st_round (sm_state s), lockedValueAndOrValidValueSet := True\<rparr>\<rparr>"
    by (simp_all add: res_def doProposalAndPolkaCurrent_def Let_def)
  with node_inv_cong [OF inv, of "snd res"] show ?thesis by simp
qed

lemma doCommitValue_post:
  assumes inv: "node_inv vals members byz hsh n PV PC s" and started: "isHeightStarted s"
    and p: "GetProposal (voteCounter s) r = Some p" and up: "uponCommitValue s (cache hsh app p)"
  shows "node_post vals members byz hsh n PV PC [fst (doCommitValue s (cache hsh app p))]
    (snd (doCommitValue s (cache hsh app p)))"
proof -
  have "Height p = st_height (sm_state s)"
    using p node_invD(6,4) [OF inv] by (auto simp: GetProposal_proposed counter_sound_def)
  moreover have "backed vals members byz PC (st_height (sm_state s)) (Round p) (Some (hsh (Value p)))"
    using up by (intro node_quorum(2) [OF inv]) (simp add: uponCommitValue_def)
  moreover have "fst (doCommitValue s (cache hsh app p)) = Commit p" by (simp add: doCommitValue_def Let_def)
  ultimately show ?thesis
    using node_inv_commit [OF inv started] by (simp add: node_post_def sent_Cons)
qed

lemma process_post:
  assumes inv: "node_inv vals members byz hsh n PV PC s" and n: "n \<in> members" and started: "isHeightStarted s"
    and eq: "process hsh app rr s = (a, c, s')"
  shows "node_post vals members byz hsh n PV PC (case a of None \<Rightarrow> [] | Some x \<Rightarrow> [x]) s' \<and>
    (c \<longrightarrow> isHeightStarted s')"
  using eq
proof (cases rule: process_cases)
  case (first p)
  then show ?thesis using doFirstProposal_post [OF inv n started] started by (simp add: doFirstProposal_def Let_def)
next
  case (previous p)
  then show ?thesis using doProposalAndPolkaPrevious_post [OF inv n started] started
    by (simp add: doProposalAndPolkaPrevious_def Let_def)
next
  case polka_any
  then show ?thesis using node_inv_cong [OF inv, of s'] started
    by (simp add: doPolkaAny_def Let_def scheduleTimeout_def node_post_silent sent_Cons)
next
  case (current p)
  then show ?thesis using doProposalAndPolkaCurrent_post [OF inv n started] started
    by (simp add: doProposalAndPolkaCurrent_def Let_def split_beta)
next
  case polka_nil
  then show ?thesis using node_post_precommit_nil [OF inv n started] started by (simp add: doPolkaNil_def uponPolkaNil_def)
next
  case precommit_any
  then show ?thesis using node_inv_cong [OF inv, of s'] started
    by (simp add: doPrecommitAny_def Let_def scheduleTimeout_def node_post_silent sent_Cons)
next
  case (commit r p)
  then show ?thesis using doCommitValue_post [OF inv started] by simp
next
  case (skip r)
  then show ?thesis using node_inv_startRound [OF inv started, of r app] started
    by (simp add: doSkipRound_def uponSkipRound_def node_post_silent)
next
  case idle
  then show ?thesis using inv by simp
qed

lemma processLoop_post:
  assumes "node_inv vals members byz hsh n PV PC s" and "n \<in> members" and "isHeightStarted s"
    and "processLoop hsh app rr acts s = (acts', s')"
  shows "\<exists>new. acts' = acts @ new \<and> node_post vals members byz hsh n PV PC new s'"
  using assms
proof (induction hsh app rr acts s arbitrary: PV PC rule: processLoop.induct)
  case (1 hsh app rr acts s)
  obtain a c t where p: "process hsh app rr s = (a, c, t)" by (metis prod_cases3)
  let ?x = "case a of None \<Rightarrow> [] | Some x \<Rightarrow> [x]"
  have acts: "(case a of None \<Rightarrow> acts | Some b \<Rightarrow> acts @ [b]) = acts @ ?x" by (cases a) simp_all
  note post = process_post [OF "1.prems"(1-3) p]
  show ?case
  proof (cases c)
    case False
    with "1.prems"(4) p acts have "acts' = acts @ ?x" "s' = t"
      by (auto simp: processLoop.simps [of hsh app rr acts s] Let_def)
    with post show ?thesis by blast
  next
    case True
    with "1.prems"(4) p acts have loop: "processLoop hsh app rr (acts @ ?x) t = (acts', s')"
      by (simp add: processLoop.simps [of hsh app rr acts s] Let_def)
    from post have inv: "node_inv vals members byz hsh n (PV \<union> sent_prevotes ?x) (PC \<union> sent_precommits ?x) t"
      by (simp add: node_post_def)
    obtain new where "acts' = (acts @ ?x) @ new"
      "node_post vals members byz hsh n (PV \<union> sent_prevotes ?x) (PC \<union> sent_precommits ?x) new s'"
      using "1.IH" [OF p [symmetric] refl acts [symmetric] True inv "1.prems"(2) _ loop] post True by blast
    with node_post_append [of _ _ _ _ n PV PC ?x t new s'] post show ?thesis by auto
  qed
qed

end

end
