(* ===== verification/Consensus_Agreement.thy ===== *)
theory Consensus_Agreement
  imports Consensus_Network
begin

text \<open>
  Safety of consensus: every entry point of the state machine keeps the invariant of its
  node, so every reachable network has it for all honest validators; from it, no honest
  validator votes twice in a round and no two honest validators commit different values
  at a height.
\<close>

section \<open>Entry points\<close>

lemma node_post_Cons_WAL:
  "node_post vals members byz hsh n PV PC (WriteWAL e # xs) s \<longleftrightarrow> node_post vals members byz hsh n PV PC xs s"
  by (simp add: node_post_def sent_Cons)

lemma node_inv_started:
  assumes "node_inv vals members byz hsh n PV PC s" and "st_height (sm_state s) \<noteq> - 1"
  shows "node_inv vals members byz hsh n PV PC (s\<lparr>isHeightStarted := True\<rparr>)"
  using assms by (simp add: node_inv_def)

lemma node_inv_bookkeeping [simp]:
  "node_inv vals members byz hsh n PV PC (s\<lparr>lastQuorum := q\<rparr>) \<longleftrightarrow> node_inv vals members byz hsh n PV PC s"
  "node_inv vals members byz hsh n PV PC (s\<lparr>lastTriggerSync := q\<rparr>) \<longleftrightarrow> node_inv vals members byz hsh n PV PC s"
  by (simp_all add: node_inv_def)

lemma deliverable_mono: "deliverable members byz V v \<Longrightarrow> V \<subseteq> V' \<Longrightarrow> deliverable members byz V' v"
  by (auto simp: deliverable_def)

lemma own_other: "\<forall>v\<in>X. Sender v = n \<Longrightarrow> m \<noteq> n \<Longrightarrow> own m (V \<union> X) = own m V"
  by (auto simp: own_def)

definition net_inv ::
  "'a validators \<Rightarrow> 'a set \<Rightarrow> 'a set \<Rightarrow> ('v \<Rightarrow> 'h) \<Rightarrow> ('v, 'h, 'a) network \<Rightarrow> bool" where
  "net_inv vals members byz hsh N \<longleftrightarrow>
     (\<forall>n\<in>members - byz. node_inv vals members byz hsh n (net_prevotes N) (net_precommits N) (net_nodes N n)) \<and>
     (\<forall>(n, p)\<in>net_commits N.
        backed vals members byz (net_precommits N) (Height p) (Round p) (Some (hsh (Value p))))"

context validator_set
begin

lemma processLoop_entry:
  assumes "node_post vals members byz hsh n PV PC acts s" and "n \<in> members" and "isHeightStarted s"
  shows "case_prod (node_post vals members byz hsh n PV PC) (processLoop hsh app rr acts s)"
proof -
  obtain acts' s' where p: "processLoop hsh app rr acts s = (acts', s')" by fastforce
  from assms(1) have inv: "node_inv vals members byz hsh n (PV \<union> sent_prevotes acts) (PC \<union> sent_precommits acts) s"
    by (simp add: node_post_def)
  from processLoop_post [OF inv assms(2,3) p] node_post_append [OF assms(1)] p show ?thesis by auto
qed

lemma ProcessStart_post:
  assumes inv: "node_inv vals members byz hsh n PV PC s" and "n \<in> members" and h: "st_height (sm_state s) \<noteq> - 1"
  shows "case_prod (node_post vals members byz hsh n PV PC) (ProcessStart hsh app s 0)"
proof (cases "isHeightStarted s")
  case False
  let ?s = "s\<lparr>isHeightStarted := True\<rparr>" and ?w = "WriteWAL (WalStart (st_height (sm_state s)))"
  have "node_inv vals members byz hsh n PV PC (snd (startRound app ?s 0))"
    using False inv by (intro node_inv_startRound node_inv_started [OF inv h]) (simp_all add: node_inv_def)
  then have "node_post vals members byz hsh n PV PC [?w, fst (startRound app ?s 0)] (snd (startRound app ?s 0))"
    unfolding node_post_Cons_WAL by (rule node_post_silent) simp_all
  from processLoop_entry [OF this assms(2)] False show ?thesis by (simp add: ProcessStart_def split_beta Let_def)
qed (use inv in \<open>simp add: ProcessStart_def\<close>)

lemma processMessage_post:
  assumes "node_inv vals members byz hsh n PV PC s" and "n \<in> members" and "isHeightStarted s"
  shows "case_prod (node_post vals members byz hsh n PV PC) (processMessage hsh app s h r e)"
  using assms processLoop_entry [of hsh n PV PC "[WriteWAL e]" s app "Some r"]
  by (auto simp: processMessage_def node_post_Cons_WAL)

lemma ProcessProposal_post:
  assumes "node_inv vals members byz hsh n PV PC s" and "n \<in> members"
  shows "case_prod (node_post vals members byz hsh n PV PC) (ProcessProposal hsh app s p)"
  using node_inv_AddProposal [OF assms(1), of p] processMessage_post [OF node_inv_AddProposal [OF assms(1), of p] assms(2)]
  by (auto simp: ProcessProposal_def Let_def split_beta)

lemma ProcessPrevote_post:
  assumes "node_inv vals members byz hsh n PV PC s" and "n \<in> members" and "deliverable members byz PV v"
  shows "case_prod (node_post vals members byz hsh n PV PC) (ProcessPrevote hsh app s v)"
proof -
  from assms(1,3) have inv: "node_inv vals members byz hsh n PV PC (s\<lparr>voteCounter := snd (AddPrevote (voteCounter s) v)\<rparr>)"
    unfolding AddPrevote_eq by (intro node_inv_add_typed) simp_all
  from this processMessage_post [OF this assms(2)] show ?thesis
    by (auto simp: ProcessPrevote_def Let_def split_beta)
qed

lemma ProcessPrecommit_post:
  assumes "node_inv vals members byz hsh n PV PC s" and "n \<in> members" and "deliverable members byz PC v"
  shows "case_prod (node_post vals members byz hsh n PV PC) (ProcessPrecommit hsh app s v)"
proof -
  let ?s = "s\<lparr>voteCounter := snd (AddPrecommit (voteCounter s) v)\<rparr>"
  let ?t = "snd (sm_hasFuturePrecommitQuorum ?s v)"
  from assms(1,3) have inv: "node_inv vals members byz hsh n PV PC ?s"
    unfolding AddPrecommit_eq by (intro node_inv_add_typed) simp_all
  have inv': "node_inv vals members byz hsh n PV PC ?t" and st: "isHeightStarted ?t = isHeightStarted s"
    using inv node_inv_counter [OF inv, of "snd (HasFuturePrecommitQuorum (voteCounter ?s) (Height v) (Round v) (ID v))"]
      node_invD(2,3,6) [OF inv]
    by (auto simp: sm_hasFuturePrecommitQuorum_def Let_def split_beta counter_sound_def)
  have "case_prod (node_post vals members byz hsh n PV PC) (triggerSync ?t v)"
    using inv' by (simp add: triggerSync_def Let_def node_post_silent sent_Cons)
  with inv processMessage_post [OF inv' assms(2)] st show ?thesis
    by (auto simp: ProcessPrecommit_def Let_def split_beta)
qed

lemma processPrecommits_post:
  assumes "node_post vals members byz hsh n PV PC acts s" and "n \<in> members"
    and "\<forall>v\<in>set vs. deliverable members byz PC v"
  shows "case_prod (node_post vals members byz hsh n PV PC) (processPrecommits hsh app acts s vs)"
  using assms
proof (induction vs arbitrary: acts s)
  case (Cons v vs)
  obtain acts' s' where p: "ProcessPrecommit hsh app s v = (acts', s')" by fastforce
  from Cons.prems(1) have inv: "node_inv vals members byz hsh n (PV \<union> sent_prevotes acts) (PC \<union> sent_precommits acts) s"
    by (simp add: node_post_def)
  have "deliverable members byz (PC \<union> sent_precommits acts) v"
    using Cons.prems(3) by (auto intro: deliverable_mono)
  from ProcessPrecommit_post [OF inv Cons.prems(2) this, of app] p
  have "node_post vals members byz hsh n PV PC (acts @ acts') s'"
    using node_post_append [OF Cons.prems(1)] by simp
  from Cons.IH [OF this Cons.prems(2)] Cons.prems(3) p show ?case by simp
qed simp

lemma ProcessSync_post:
  assumes "node_inv vals members byz hsh n PV PC s" and "n \<in> members"
    and "\<forall>v\<in>set vs. deliverable members byz PC v"
  shows "case_prod (node_post vals members byz hsh n PV PC) (ProcessSync hsh app s p vs)"
  using ProcessProposal_post [OF assms(1,2), of app p] processPrecommits_post [OF _ assms(2,3)]
  by (auto simp: ProcessSync_def split_beta)

lemma ProcessTimeout_post:
  assumes inv: "node_inv vals members byz hsh n PV PC s" and n: "n \<in> members"
    and started: "isHeightStarted s" and r: "tm_Round tm < max_int64"
  shows "case_prod (node_post vals members byz hsh n PV PC) (ProcessTimeout hsh app s tm)"
proof -
  have "case_prod (node_post vals members byz hsh n PV PC) (onTimeoutPropose s tm)"
    using inv node_post_prevote [OF inv n started, of None]
    by (auto simp: onTimeoutPropose_def Let_def split_beta node_post_Cons_WAL)
  moreover have "isHeightStarted (snd (onTimeoutPropose s tm))"
    using started by (simp add: onTimeoutPropose_def Let_def split_beta)
  moreover have "case_prod (node_post vals members byz hsh n PV PC) (onTimeoutPrevote s tm)"
    using inv node_post_precommit_nil [OF inv n started]
    by (auto simp: onTimeoutPrevote_def Let_def split_beta node_post_Cons_WAL)
  moreover have "isHeightStarted (snd (onTimeoutPrevote s tm))"
    using started by (simp add: onTimeoutPrevote_def Let_def split_beta)
  moreover have "st_round (sm_state s) < to_int64 (tm_Round tm + 1)" if "isSameHeightAndRound s tm"
    using that r node_invD(5) [OF inv] by (simp add: isSameHeightAndRound_def max_int64_def to_int64_id)
  then have "case_prod (node_post vals members byz hsh n PV PC) (onTimeoutPrecommit app s tm)"
    using inv node_inv_startRound [OF inv started]
    by (auto simp: onTimeoutPrecommit_def Let_def split_beta node_post_Cons_WAL intro: node_post_silent)
  moreover have "isHeightStarted (snd (onTimeoutPrecommit app s tm))"
    using started by (simp add: onTimeoutPrecommit_def Let_def split_beta)
  ultimately show ?thesis
    using processLoop_entry [OF _ n] inv by (auto simp: ProcessTimeout_def Let_def split_beta split: step.split)
qed

section \<open>Reachable networks\<close>

lemma handle_post:
  assumes "node_inv vals members byz hsh n (net_prevotes N) (net_precommits N) s" and "n \<in> members"
    and "enabled s ev" and "delivered members byz N ev" and "handle hsh app s ev = (acts, s')"
  shows "node_post vals members byz hsh n (net_prevotes N) (net_precommits N) acts s'"
proof -
  have "case_prod (node_post vals members byz hsh n (net_prevotes N) (net_precommits N)) (handle hsh app s ev)"
    using assms(3,4)
      ProcessStart_post [OF assms(1,2)] ProcessTimeout_post [OF assms(1,2)] ProcessProposal_post [OF assms(1,2)]
      ProcessPrevote_post [OF assms(1,2)] ProcessPrecommit_post [OF assms(1,2)] ProcessSync_post [OF assms(1,2)]
    by (cases ev) simp_all
  with assms(5) show ?thesis by simp
qed

lemma net_inv_step:
  assumes "net_inv vals members byz hsh N" and "net_step members byz hsh N N'"
  shows "net_inv vals members byz hsh N'"
  using assms(2)
proof cases
  case (node_step n ev app acts s')
  let ?PV = "net_prevotes N \<union> sent_prevotes acts" and ?PC = "net_precommits N \<union> sent_precommits acts"
  from assms(1) node_step have "node_inv vals members byz hsh n (net_prevotes N) (net_precommits N) (net_nodes N n)"
    by (simp add: net_inv_def)
  from handle_post [OF this node_step(2,4,5,6)]
  have post: "node_post vals members byz hsh n (net_prevotes N) (net_precommits N) acts s'" .
  have "node_inv vals members byz hsh m ?PV ?PC (net_nodes N' m)" if "m \<in> members - byz" for m
  proof (cases "m = n")
    case True
    with post node_step(1) show ?thesis by (simp add: node_post_def)
  next
    case False
    have old: "node_inv vals members byz hsh m (net_prevotes N) (net_precommits N) (net_nodes N m)"
      using that assms(1) by (simp add: net_inv_def)
    have "own m ?PV = own m (net_prevotes N)" "own m ?PC = own m (net_precommits N)"
      using post False by (intro own_other [of _ n]; simp add: node_post_def)+
    from node_inv_mono [OF old _ _ this]
    have "node_inv vals members byz hsh m ?PV ?PC (net_nodes N m)" by simp
    with False node_step(1) show ?thesis by simp
  qed
  moreover have "backed vals members byz ?PC (Height p) (Round p) (Some (hsh (Value p)))"
    if "(m, p) \<in> net_commits N \<or> p \<in> committed acts" for m p
    using that post assms(1) by (auto simp: net_inv_def node_post_def intro: backed_mono)
  ultimately show ?thesis using node_step(1) by (auto simp: net_inv_def)
qed

lemma net_inv_reachable: "net_reachable vals members byz hsh N \<Longrightarrow> net_inv vals members byz hsh N"
  by (induction rule: net_reachable.induct) (simp add: net_init_def node_inv_init net_inv_def, rule net_inv_step)

section \<open>Agreement\<close>

text \<open>Two quorums of votes of one round share an honest voter, who voted once.\<close>

lemma backed_same_round:
  assumes inv: "\<forall>n\<in>members - byz. votes_unique n V"
    and "backed vals members byz V h r i" and "backed vals members byz V h r j"
  shows "i = j"
proof -
  from assms(2) obtain Q where Q: "Q \<subseteq> members" "unat (q_threshold (TotalVotingPower vals h)) \<le> voting_mass vals h Q"
    "\<forall>a\<in>Q. a \<notin> byz \<longrightarrow> mk_vote h r a i \<in> V" unfolding backed_def by blast
  from assms(3) obtain R where R: "R \<subseteq> members" "unat (q_threshold (TotalVotingPower vals h)) \<le> voting_mass vals h R"
    "\<forall>a\<in>R. a \<notin> byz \<longrightarrow> mk_vote h r a j \<in> V" unfolding backed_def by blast
  obtain a where a: "a \<in> Q \<inter> R" "a \<notin> byz" using quorums_share_honest [OF Q(1) R(1) Q(2) R(2)] by blast
  then have "mk_vote h r a i \<in> own a V" "mk_vote h r a j \<in> own a V" using Q(3) R(3) by (auto simp: own_def)
  moreover have "votes_unique a V" using inv a Q(1) by blast
  ultimately show ?thesis unfolding votes_unique_def by fastforce
qed

text \<open>A quorum of precommits for a value fixes the value of every polka from its round on.\<close>

lemma polka_after_quorum:
  assumes inv: "\<forall>n\<in>members - byz. votes_unique n PV \<and> justified vals members byz n PV PC"
    and pc: "backed vals members byz PC h r (Some x)" and pv: "backed vals members byz PV h r' (Some y)" and "r \<le> r'"
  shows "y = x"
  using pv \<open>r \<le> r'\<close>
proof (induction "nat (r' - r)" arbitrary: r' y rule: less_induct)
  case less
  from pc obtain Q where Q: "Q \<subseteq> members" "unat (q_threshold (TotalVotingPower vals h)) \<le> voting_mass vals h Q"
    "\<forall>a\<in>Q. a \<notin> byz \<longrightarrow> mk_vote h r a (Some x) \<in> PC" unfolding backed_def by blast
  from less.prems(1) obtain R where R: "R \<subseteq> members" "unat (q_threshold (TotalVotingPower vals h)) \<le> voting_mass vals h R"
    "\<forall>a\<in>R. a \<notin> byz \<longrightarrow> mk_vote h r' a (Some y) \<in> PV" unfolding backed_def by blast
  obtain a where a: "a \<in> Q \<inter> R" "a \<notin> byz" using quorums_share_honest [OF Q(1) R(1) Q(2) R(2)] by blast
  then have own: "mk_vote h r a (Some x) \<in> own a PC" "mk_vote h r' a (Some y) \<in> own a PV"
    using Q(3) R(3) by (auto simp: own_def)
  from inv a Q(1) have j: "justified vals members byz a PV PC" by blast
  show ?case
  proof (cases "r' = r")
    case True
    have "backed vals members byz PV h r (Some x)" using j own(1) unfolding justified_def by fastforce
    with backed_same_round [of PV h r "Some x" "Some y"] inv less.prems(1) True show ?thesis by simp
  next
    case False
    with less.prems(2) have "r < r'" by simp
    with j own obtain vr where vr: "r \<le> vr" "vr < r'" "backed vals members byz PV h vr (Some y)"
      unfolding justified_def by fastforce
    then show ?thesis using less.hyps [of vr y] by simp
  qed
qed

lemma precommit_has_polka:
  assumes inv: "\<forall>n\<in>members - byz. justified vals members byz n PV PC"
    and "backed vals members byz PC h r (Some x)"
  shows "backed vals members byz PV h r (Some x)"
proof -
  from assms(2) obtain Q where Q: "Q \<subseteq> members" "unat (q_threshold (TotalVotingPower vals h)) \<le> voting_mass vals h Q"
    "\<forall>a\<in>Q. a \<notin> byz \<longrightarrow> mk_vote h r a (Some x) \<in> PC" unfolding backed_def by blast
  obtain a where a: "a \<in> Q" "a \<notin> byz" using quorum_has_honest [OF Q(1,2)] by blast
  with Q(3) have "mk_vote h r a (Some x) \<in> own a PC" by (simp add: own_def)
  with inv a Q(1) show ?thesis unfolding justified_def by fastforce
qed

lemma commits_agree:
  assumes N: "net_reachable vals members byz hsh N"
    and c: "(n, p) \<in> net_commits N" "(m, p') \<in> net_commits N" and h: "Height p = Height p'"
  shows "hsh (Value p) = hsh (Value p')"
proof -
  let ?PV = "net_prevotes N" and ?PC = "net_precommits N"
  from net_inv_reachable [OF N] have inv: "net_inv vals members byz hsh N" .
  then have honest: "\<forall>n\<in>members - byz. votes_unique n ?PV \<and> justified vals members byz n ?PV ?PC"
    by (simp add: net_inv_def node_inv_def)
  have b: "backed vals members byz ?PC (Height p) (Round p) (Some (hsh (Value p)))"
    "backed vals members byz ?PC (Height p) (Round p') (Some (hsh (Value p')))"
    using inv c h by (auto simp: net_inv_def)
  have just: "\<forall>n\<in>members - byz. justified vals members byz n ?PV ?PC" using honest by simp
  note polka = precommit_has_polka [OF just b(1)] precommit_has_polka [OF just b(2)]
  show ?thesis
  proof (cases "Round p \<le> Round p'")
    case True
    from polka_after_quorum [OF honest b(1) polka(2) True] show ?thesis by simp
  next
    case False
    then have "Round p' \<le> Round p" by simp
    from polka_after_quorum [OF honest b(2) polka(1) this] show ?thesis .
  qed
qed

end

section \<open>Runs\<close>

text \<open>A schedule: which node handles which event with which application, in order.\<close>

type_synonym ('v, 'h, 'a) schedule = "('a \<times> 'v application \<times> ('v, 'h, 'a) event) list"

fun net_run :: "('v \<Rightarrow> 'h) \<Rightarrow> ('v, 'h, 'a) network \<Rightarrow> ('v, 'h, 'a) schedule \<Rightarrow> ('v, 'h, 'a) network" where
  "net_run hsh N [] = N"
| "net_run hsh N ((n, app, ev) # es) =
     (let (acts, s') = handle hsh app (net_nodes N n) ev
      in net_run hsh
           (N\<lparr>net_nodes := (net_nodes N)(n := s'),
              net_prevotes := net_prevotes N \<union> sent_prevotes acts,
              net_precommits := net_precommits N \<union> sent_precommits acts,
              net_commits := net_commits N \<union> Pair n ` committed acts\<rparr>) es)"

fun run_ok :: "'a set \<Rightarrow> 'a set \<Rightarrow> ('v \<Rightarrow> 'h) \<Rightarrow> ('v, 'h, 'a) network \<Rightarrow> ('v, 'h, 'a) schedule \<Rightarrow> bool" where
  "run_ok members byz hsh N [] \<longleftrightarrow> True"
| "run_ok members byz hsh N ((n, app, ev) # es) \<longleftrightarrow>
     n \<in> members \<and> n \<notin> byz \<and> enabled (net_nodes N n) ev \<and> delivered members byz N ev \<and>
     run_ok members byz hsh (net_run hsh N [(n, app, ev)]) es"

lemma net_run_reachable:
  "net_reachable vals members byz hsh N \<Longrightarrow> run_ok members byz hsh N es \<Longrightarrow>
   net_reachable vals members byz hsh (net_run hsh N es)"
proof (induction es arbitrary: N)
  case (Cons e es)
  obtain n app ev where e: "e = (n, app, ev)" by (cases e)
  have "net_step members byz hsh N (net_run hsh N [(n, app, ev)])"
    using Cons.prems(2) e node_step [of n members byz N ev hsh app] by (simp add: split_beta Let_def)
  with Cons e show ?case by (simp add: net_reachable.step split_beta Let_def)
qed simp

lemma sent_code [code]:
  "sent_prevotes acts = set (List.map_filter (\<lambda>a. case a of BroadcastPrevote v \<Rightarrow> Some v | _ \<Rightarrow> None) acts)"
  "sent_precommits acts = set (List.map_filter (\<lambda>a. case a of BroadcastPrecommit v \<Rightarrow> Some v | _ \<Rightarrow> None) acts)"
  "committed acts = set (List.map_filter (\<lambda>a. case a of Commit p \<Rightarrow> Some p | _ \<Rightarrow> None) acts)"
  by (induction acts; simp add: sent_Cons List.map_filter_simps split: action.split)+

text \<open>
  Two validators, of which the one with address \<open>True\<close> has the whole power and proposes;
  both commit its value.
\<close>

definition duo_vals :: "bool validators" where
  "duo_vals = \<lparr>TotalVotingPower = (\<lambda>_. 1), ValidatorVotingPower = (\<lambda>_ a. if a then 1 else 0),
     ProposerOf = (\<lambda>_ _. True)\<rparr>"

definition duo_proposal :: "(nat, bool) proposal" where
  "duo_proposal = \<lparr>Height = 0, Round = 0, Sender = True, ValidRound = -1, Value = 7\<rparr>"

definition duo_schedule :: "(nat, nat, bool) schedule" where
  "duo_schedule = map (\<lambda>(n, e). (n, \<lparr>app_Value = 7, app_Valid = (\<lambda>_. True)\<rparr>, e))
     [(True, EvStart), (False, EvStart), (False, EvProposal duo_proposal),
      (False, EvPrecommit (mk_vote 0 0 True (Some 8)))]"

definition duo_net :: "(nat, nat, bool) network" where
  "duo_net = net_run Suc (net_init duo_vals (\<lambda>_. 0)) duo_schedule"

lemma duo_validators: "validator_set duo_vals UNIV {}"
  by unfold_locales (simp_all add: duo_vals_def UNIV_bool f_threshold_def)

lemma duo_run_ok: "run_ok {True, False} {} Suc (net_init duo_vals (\<lambda>_. 0)) duo_schedule"
  by code_simp

lemma duo_reachable: "net_reachable duo_vals UNIV {} Suc duo_net"
  unfolding duo_net_def using duo_run_ok by (intro net_run_reachable init) (simp add: UNIV_bool insert_commute)

lemma duo_commits: "net_commits duo_net = {(True, duo_proposal), (False, duo_proposal)}"
  by code_simp

section \<open>Safety of the network\<close>

text \<open>C1: Agreement. In every network that honest validators can reach, whatever the faulty ones
  (at most \<open>f\<close> of the voting power) send and in whatever order messages, timeouts and
  synced blocks arrive, two commits of one height are commits of values with the same
  hash.\<close>

theorem agreement:
  assumes "validator_set vals members byz" and "net_reachable vals members byz hsh N"
    and "(n, p) \<in> net_commits N" and "(m, p') \<in> net_commits N" and "Height p = Height p'"
  shows "hsh (Value p) = hsh (Value p')"
  using assms by (rule validator_set.commits_agree)

theorem agreement_witness:
  "validator_set duo_vals UNIV {} \<and> net_reachable duo_vals UNIV {} Suc duo_net \<and>
   (True, duo_proposal) \<in> net_commits duo_net \<and> (False, duo_proposal) \<in> net_commits duo_net \<and>
   Suc (Value duo_proposal) = Suc (Value duo_proposal)"
  using agreement [OF duo_validators duo_reachable, of True duo_proposal False duo_proposal]
    duo_validators duo_reachable duo_commits by simp

text \<open>C5: No equivocation. An honest validator never broadcasts two different prevotes, and
  never two different precommits, for the same height and round.\<close>

theorem no_equivocation:
  assumes "validator_set vals members byz" and "net_reachable vals members byz hsh N"
    and "n \<in> members" and "n \<notin> byz"
    and "v \<in> net_prevotes N \<and> w \<in> net_prevotes N \<or> v \<in> net_precommits N \<and> w \<in> net_precommits N"
    and "Sender v = n" and "Sender w = n" and "Height v = Height w" and "Round v = Round w"
  shows "v = w"
proof -
  from validator_set.net_inv_reachable [OF assms(1,2)] assms(3,4)
  have "node_inv vals members byz hsh n (net_prevotes N) (net_precommits N) (net_nodes N n)"
    by (simp add: net_inv_def)
  note u = node_invD(9,10) [OF this]
  have "ID v = ID w"
    using assms(5)
  proof
    assume "v \<in> net_prevotes N \<and> w \<in> net_prevotes N"
    with assms(6-9) u(1) show ?thesis unfolding votes_unique_def own_def by blast
  next
    assume "v \<in> net_precommits N \<and> w \<in> net_precommits N"
    with assms(6-9) u(2) show ?thesis unfolding votes_unique_def own_def by blast
  qed
  with assms(6-9) show ?thesis by (cases v; cases w) simp
qed

lemma duo_prevote: "mk_vote 0 0 True (Some 8) \<in> net_prevotes duo_net"
  by code_simp

theorem no_equivocation_witness:
  "{w \<in> net_prevotes duo_net. Sender w = True \<and> Height w = 0 \<and> Round w = 0} = {mk_vote 0 0 True (Some 8)}"
proof -
  have eq: "w = mk_vote 0 0 True (Some 8)"
    if w: "w \<in> net_prevotes duo_net" "Sender w = True" "Height w = 0" "Round w = 0" for w
  proof (rule no_equivocation [OF duo_validators duo_reachable UNIV_I])
    show "w \<in> net_prevotes duo_net \<and> mk_vote 0 0 True (Some 8) \<in> net_prevotes duo_net \<or>
        w \<in> net_precommits duo_net \<and> mk_vote 0 0 True (Some 8) \<in> net_precommits duo_net"
      using w(1) duo_prevote by blast
  qed (use w in simp_all)
  show ?thesis (is "?L = {?v}")
  proof
    show "?L \<subseteq> {?v}" using eq by blast
    show "{?v} \<subseteq> ?L" using duo_prevote by simp
  qed
qed

text \<open>C6: Every commit of a reachable network is certified: members that together hold at
  least \<open>q\<close> of the voting power of its height stand behind it, each honest one among them
  having broadcast a precommit for the hash of exactly that value in exactly that round,
  and the same holds for prevotes. \<close>

theorem commit_certified:
  assumes "validator_set vals members byz" and "net_reachable vals members byz hsh N" and "(n, p) \<in> net_commits N"
  shows "backed vals members byz (net_precommits N) (Height p) (Round p) (Some (hsh (Value p))) \<and>
    backed vals members byz (net_prevotes N) (Height p) (Round p) (Some (hsh (Value p)))"
proof -
  have inv: "net_inv vals members byz hsh N" by (rule validator_set.net_inv_reachable [OF assms(1,2)])
  then have pc: "backed vals members byz (net_precommits N) (Height p) (Round p) (Some (hsh (Value p)))"
    using assms(3) by (auto simp: net_inv_def)
  have "\<forall>n\<in>members - byz. justified vals members byz n (net_prevotes N) (net_precommits N)"
    using inv by (simp add: net_inv_def node_inv_def)
  from validator_set.precommit_has_polka [OF assms(1) this pc] pc show ?thesis by blast
qed

theorem commit_certified_witness:
  "(False, duo_proposal) \<in> net_commits duo_net \<and>
   backed duo_vals UNIV {} (net_precommits duo_net) 0 0 (Some 8)"
  using commit_certified [OF duo_validators duo_reachable, of False duo_proposal] duo_commits
  by (simp add: duo_proposal_def)

end
