(* ===== verification/Bit_Array.thy ===== *)
theory Bit_Array
  imports Juno_Prelude "HOL-Library.Sublist"
begin

unbundle bit_operations_syntax

text \<open>
  The bit arrays that are the keys of the tries (\<open>core/trie/bitarray.go\<close>): a length of one
  byte and four 64-bit words, the first one the least significant. A Go method
  \<open>b.Op(x, y)\<close> overwrites its receiver and returns it; here it is a function of its
  operands, and of the receiver only where the code reads it (\<open>Xor\<close>, \<open>SetUint64\<close>). The
  receiver may be the first operand; \<open>Append\<close> and \<open>CommonMSBs\<close> ask that it is not another
  one. The second part gives every operation its meaning on lists of bits, most
  significant first.
\<close>

section \<open>Data\<close>

record bit_array =
  ba_len :: uint8
  words0 :: uint64
  words1 :: uint64
  words2 :: uint64
  words3 :: uint64

definition maxUint64 :: uint64 where
  "maxUint64 = - 1"

definition maxUint8 :: uint8 where
  "maxUint8 = - 1"

definition emptyBitArray :: bit_array where
  "emptyBitArray = \<lparr>ba_len = 0, words0 = 0, words1 = 0, words2 = 0, words3 = 0\<rparr>"

text \<open>A right and a left shift of a word by a number of bits; both give 0 from 64 on.\<close>

abbreviation shr :: "uint64 \<Rightarrow> nat \<Rightarrow> uint64" where
  "shr w n \<equiv> drop_bit n w"

abbreviation shl :: "uint64 \<Rightarrow> nat \<Rightarrow> uint64" where
  "shl w n \<equiv> push_bit n w"

section \<open>Operations on words and lengths\<close>

definition clear :: bit_array where
  "clear = \<lparr>ba_len = 0, words0 = 0, words1 = 0, words2 = 0, words3 = 0\<rparr>"

definition Set :: "bit_array \<Rightarrow> bit_array" where
  "Set x = \<lparr>ba_len = ba_len x, words0 = words0 x, words1 = words1 x, words2 = words2 x, words3 = words3 x\<rparr>"

definition truncateToLength :: "bit_array \<Rightarrow> bit_array" where
  "truncateToLength b =
     (if ba_len b = 0 then b\<lparr>words0 := 0, words1 := 0, words2 := 0, words3 := 0\<rparr>
      else if ba_len b \<le> 64 then
        b\<lparr>words0 := words0 b AND shr maxUint64 (unat (64 - ba_len b)), words1 := 0, words2 := 0, words3 := 0\<rparr>
      else if ba_len b \<le> 128 then
        b\<lparr>words1 := words1 b AND shr maxUint64 (unat (128 - ba_len b)), words2 := 0, words3 := 0\<rparr>
      else if ba_len b \<le> 192 then
        b\<lparr>words2 := words2 b AND shr maxUint64 (unat (192 - ba_len b)), words3 := 0\<rparr>
      else b\<lparr>words3 := words3 b AND shr maxUint64 (unat (256 - ucast (ba_len b) :: 16 word))\<rparr>)"

definition SetUint64 :: "bit_array \<Rightarrow> uint8 \<Rightarrow> uint64 \<Rightarrow> bit_array" where
  "SetUint64 b l data = truncateToLength (b\<lparr>words0 := data, ba_len := l\<rparr>)"

definition NewBitArray :: "uint8 \<Rightarrow> uint64 \<Rightarrow> bit_array" where
  "NewBitArray l val = SetUint64 emptyBitArray l val"

definition Len :: "bit_array \<Rightarrow> uint8" where
  "Len b = ba_len b"

definition IsEmpty :: "bit_array \<Rightarrow> bool" where
  "IsEmpty b \<longleftrightarrow> ba_len b = 0"

definition SetBit :: "uint8 \<Rightarrow> bit_array" where
  "SetBit bt = \<lparr>ba_len = 1, words0 = ucast (bt AND 1), words1 = 0, words2 = 0, words3 = 0\<rparr>"

definition Copy :: "bit_array \<Rightarrow> bit_array" where
  "Copy b = Set b"

definition Ones :: "uint8 \<Rightarrow> bit_array" where
  "Ones l = truncateToLength
     \<lparr>ba_len = l, words0 = maxUint64, words1 = maxUint64, words2 = maxUint64, words3 = maxUint64\<rparr>"

definition Zeros :: "uint8 \<Rightarrow> bit_array" where
  "Zeros l = \<lparr>ba_len = l, words0 = 0, words1 = 0, words2 = 0, words3 = 0\<rparr>"

definition Or :: "bit_array \<Rightarrow> bit_array \<Rightarrow> bit_array" where
  "Or x y = \<lparr>ba_len = ba_len x, words0 = words0 x OR words0 y, words1 = words1 x OR words1 y,
     words2 = words2 x OR words2 y, words3 = words3 x OR words3 y\<rparr>"

definition And :: "bit_array \<Rightarrow> bit_array \<Rightarrow> bit_array" where
  "And x y = \<lparr>ba_len = ba_len x, words0 = words0 x AND words0 y, words1 = words1 x AND words1 y,
     words2 = words2 x AND words2 y, words3 = words3 x AND words3 y\<rparr>"

definition Xor :: "bit_array \<Rightarrow> bit_array \<Rightarrow> bit_array \<Rightarrow> bit_array" where
  "Xor b x y = b\<lparr>words0 := words0 x XOR words0 y, words1 := words1 x XOR words1 y,
     words2 := words2 x XOR words2 y, words3 := words3 x XOR words3 y\<rparr>"

section \<open>Shifts\<close>

text \<open>The helpers keep the length of their receiver, which the caller sets.\<close>

definition rsh64 :: "bit_array \<Rightarrow> bit_array \<Rightarrow> bit_array" where
  "rsh64 b x = b\<lparr>words3 := 0, words2 := words3 x, words1 := words2 x, words0 := words1 x\<rparr>"

definition rsh128 :: "bit_array \<Rightarrow> bit_array \<Rightarrow> bit_array" where
  "rsh128 b x = b\<lparr>words3 := 0, words2 := 0, words1 := words3 x, words0 := words2 x\<rparr>"

definition rsh192 :: "bit_array \<Rightarrow> bit_array \<Rightarrow> bit_array" where
  "rsh192 b x = b\<lparr>words3 := 0, words2 := 0, words1 := 0, words0 := words3 x\<rparr>"

definition lsh64 :: "bit_array \<Rightarrow> bit_array \<Rightarrow> bit_array" where
  "lsh64 b x = b\<lparr>words3 := words2 x, words2 := words1 x, words1 := words0 x, words0 := 0\<rparr>"

definition lsh128 :: "bit_array \<Rightarrow> bit_array \<Rightarrow> bit_array" where
  "lsh128 b x = b\<lparr>words3 := words1 x, words2 := words0 x, words1 := 0, words0 := 0\<rparr>"

definition lsh192 :: "bit_array \<Rightarrow> bit_array \<Rightarrow> bit_array" where
  "lsh192 b x = b\<lparr>words3 := words0 x, words2 := 0, words1 := 0, words0 := 0\<rparr>"

definition Rsh :: "bit_array \<Rightarrow> uint8 \<Rightarrow> bit_array" where
  "Rsh x n =
     (if ba_len x = 0 then Set x
      else if n \<ge> ba_len x then clear
      else if n = 0 then Set x
      else truncateToLength
        (if n \<ge> 192 then
           let b = (rsh192 x x)\<lparr>ba_len := ba_len x - n\<rparr>; m = unat (n - 192)
           in b\<lparr>words0 := shr (words0 b) m\<rparr>
         else if n \<ge> 128 then
           let b = (rsh128 x x)\<lparr>ba_len := ba_len x - n\<rparr>; m = unat (n - 128)
           in b\<lparr>words0 := shr (words0 b) m OR shl (words1 b) (64 - m), words1 := shr (words1 b) m\<rparr>
         else if n \<ge> 64 then
           let b = (rsh64 x x)\<lparr>ba_len := ba_len x - n\<rparr>; m = unat (n - 64)
           in b\<lparr>words0 := shr (words0 b) m OR shl (words1 b) (64 - m),
                words1 := shr (words1 b) m OR shl (words2 b) (64 - m), words2 := shr (words2 b) m\<rparr>
         else
           let b = (Set x)\<lparr>ba_len := ba_len x - n\<rparr>; m = unat n
           in b\<lparr>words0 := shr (words0 b) m OR shl (words1 b) (64 - m),
                words1 := shr (words1 b) m OR shl (words2 b) (64 - m),
                words2 := shr (words2 b) m OR shl (words3 b) (64 - m), words3 := shr (words3 b) m\<rparr>))"

definition Lsh :: "bit_array \<Rightarrow> uint8 \<Rightarrow> bit_array" where
  "Lsh x n =
     (if ba_len x = 0 \<or> n = 0 then Set x
      else let b0 = x\<lparr>ba_len := if n > maxUint8 - ba_len x then maxUint8 else ba_len x + n\<rparr>
      in truncateToLength
        (if n \<ge> 192 then
           let b = lsh192 b0 x; m = unat (n - 192) in b\<lparr>words3 := shl (words3 b) m\<rparr>
         else if n \<ge> 128 then
           let b = lsh128 b0 x; m = unat (n - 128)
           in b\<lparr>words3 := shl (words3 b) m OR shr (words2 b) (64 - m), words2 := shl (words2 b) m\<rparr>
         else if n \<ge> 64 then
           let b = lsh64 b0 x; m = unat (n - 64)
           in b\<lparr>words3 := shl (words3 b) m OR shr (words2 b) (64 - m),
                words2 := shl (words2 b) m OR shr (words1 b) (64 - m), words1 := shl (words1 b) m\<rparr>
         else
           let b = b0; m = unat n
           in b\<lparr>words3 := shl (words3 b) m OR shr (words2 b) (64 - m),
                words2 := shl (words2 b) m OR shr (words1 b) (64 - m),
                words1 := shl (words1 b) m OR shr (words0 b) (64 - m), words0 := shl (words0 b) m\<rparr>))"

section \<open>Prefixes, suffixes, concatenation\<close>

definition LSBsFromLSB :: "bit_array \<Rightarrow> uint8 \<Rightarrow> bit_array" where
  "LSBsFromLSB x n =
     (if n \<ge> ba_len x then Set x
      else if n = 0 then \<lparr>ba_len = n, words0 = 0, words1 = 0, words2 = 0, words3 = 0\<rparr>
      else if n \<le> 64 then
        \<lparr>ba_len = n, words0 = words0 x AND shr maxUint64 (unat (64 - n)), words1 = 0, words2 = 0, words3 = 0\<rparr>
      else if n \<le> 128 then
        \<lparr>ba_len = n, words0 = words0 x, words1 = words1 x AND shr maxUint64 (unat (128 - n)), words2 = 0, words3 = 0\<rparr>
      else if n \<le> 192 then
        \<lparr>ba_len = n, words0 = words0 x, words1 = words1 x,
         words2 = words2 x AND shr maxUint64 (unat (192 - n)), words3 = 0\<rparr>
      else
        \<lparr>ba_len = n, words0 = words0 x, words1 = words1 x, words2 = words2 x,
         words3 = words3 x AND shr maxUint64 (unat (256 - ucast n :: 16 word))\<rparr>)"

definition LSBs :: "bit_array \<Rightarrow> uint8 \<Rightarrow> bit_array" where
  "LSBs x n =
     (if n = 0 then Set x else if n > Len x then clear else LSBsFromLSB x (Len x - n))"

definition MSBs :: "bit_array \<Rightarrow> uint8 \<Rightarrow> bit_array" where
  "MSBs x n = (if n \<ge> ba_len x then Set x else Rsh x (ba_len x - n))"

text \<open>\<open>Equal\<close> is called on pointers, which may be nil.\<close>

definition Equal :: "bit_array option \<Rightarrow> bit_array option \<Rightarrow> bool" where
  "Equal b x =
     (case (b, x) of
        (None, None) \<Rightarrow> True
      | (Some b, Some x) \<Rightarrow>
          ba_len b = ba_len x \<and> words0 b = words0 x \<and> words1 b = words1 x \<and> words2 b = words2 x \<and> words3 b = words3 x
      | _ \<Rightarrow> False)"

definition EqualMSBs :: "bit_array \<Rightarrow> bit_array \<Rightarrow> bool" where
  "EqualMSBs b x =
     (if ba_len b = ba_len x then Equal (Some b) (Some x)
      else if ba_len b = 0 \<or> ba_len x = 0 then True
      else let minLen = min (ba_len b) (ba_len x) in Equal (Some (MSBs b minLen)) (Some (MSBs x minLen)))"

text \<open>\<open>bits.LeadingZeros64\<close> of the standard library.\<close>

definition LeadingZeros64 :: "uint64 \<Rightarrow> nat" where
  "LeadingZeros64 w = length (takeWhile (\<lambda>i. \<not> bit w (63 - i)) [0..<64])"

definition findFirstSetBit :: "bit_array \<Rightarrow> uint8" where
  "findFirstSetBit b =
     (if ba_len b = 0 then 0
      else if words3 b \<noteq> 0 then of_nat (4 * 64 - LeadingZeros64 (words3 b))
      else if words2 b \<noteq> 0 then of_nat (3 * 64 - LeadingZeros64 (words2 b))
      else if words1 b \<noteq> 0 then of_nat (2 * 64 - LeadingZeros64 (words1 b))
      else if words0 b \<noteq> 0 then of_nat (1 * 64 - LeadingZeros64 (words0 b))
      else 0)"

definition CommonMSBs :: "bit_array \<Rightarrow> bit_array \<Rightarrow> bit_array" where
  "CommonMSBs x y =
     (if ba_len x = 0 \<or> ba_len y = 0 then clear
      else let (lng, short) = (if ba_len x < ba_len y then (y, x) else (x, y));
               diff = ba_len lng - ba_len short;
               b0 = Rsh lng diff;
               b = Xor b0 b0 short;
               divergentBit = findFirstSetBit b
           in Rsh short divergentBit)"

definition Append :: "bit_array \<Rightarrow> bit_array \<Rightarrow> bit_array" where
  "Append x y =
     (if ba_len x = 0 \<or> ba_len y = maxUint8 then Set y
      else if ba_len y = 0 then Set x
      else Or (Lsh x (ba_len y)) y)"

definition AppendBit :: "bit_array \<Rightarrow> uint8 \<Rightarrow> bit_array" where
  "AppendBit x bt = Append x (SetBit bt)"

definition AppendZeros :: "bit_array \<Rightarrow> uint8 \<Rightarrow> bit_array" where
  "AppendZeros x n = Append x (Zeros n)"

definition Subset :: "bit_array \<Rightarrow> uint8 \<Rightarrow> uint8 \<Rightarrow> bit_array" where
  "Subset x startPos endPos =
     (if startPos \<ge> endPos \<or> startPos \<ge> ba_len x then clear
      else let endPos = (if endPos > ba_len x then ba_len x else endPos);
               l = endPos - startPos;
               b = LSBs x startPos;
               zeros = emptyBitArray\<lparr>ba_len := ba_len b - l\<rparr>;
               mask = Append (Ones l) zeros
           in MSBs (And b mask) l)"

section \<open>Single bits\<close>

definition ba_word :: "bit_array \<Rightarrow> uint8 \<Rightarrow> uint64" where
  "ba_word b i = (if i = 0 then words0 b else if i = 1 then words1 b else if i = 2 then words2 b else words3 b)"

definition BitFromLSB :: "bit_array \<Rightarrow> uint8 \<Rightarrow> uint8" where
  "BitFromLSB b n =
     (if n \<ge> ba_len b then 0
      else if ba_word b (n div 64) AND shl 1 (unat (n mod 64)) \<noteq> 0 then 1 else 0)"

definition IsBitSetFromLSB :: "bit_array \<Rightarrow> uint8 \<Rightarrow> bool" where
  "IsBitSetFromLSB b n \<longleftrightarrow> BitFromLSB b n = 1"

definition Bit :: "bit_array \<Rightarrow> uint8 \<Rightarrow> uint8" where
  "Bit b n = (if n \<ge> Len b then 0 else BitFromLSB b (Len b - n - 1))"

definition IsBitSet :: "bit_array \<Rightarrow> uint8 \<Rightarrow> bool" where
  "IsBitSet b n \<longleftrightarrow> Bit b n = 1"

definition MSB :: "bit_array \<Rightarrow> uint8" where
  "MSB b = Bit b 0"

definition LSB :: "bit_array \<Rightarrow> uint8" where
  "LSB b = BitFromLSB b 0"

section \<open>Order\<close>

text \<open>\<open>bits.Sub64\<close> of the standard library: difference and borrow.\<close>

definition Sub64 :: "uint64 \<Rightarrow> uint64 \<Rightarrow> uint64 \<Rightarrow> uint64 \<times> uint64" where
  "Sub64 x y borrow = (x - y - borrow, if uint x < uint y + uint borrow then 1 else 0)"

definition Cmp :: "bit_array \<Rightarrow> bit_array \<Rightarrow> int" where
  "Cmp b x =
     (if ba_len b < ba_len x then -1
      else if ba_len b > ba_len x then 1
      else let (d0, carry) = Sub64 (words0 b) (words0 x) 0;
               (d1, carry) = Sub64 (words1 b) (words1 x) carry;
               (d2, carry) = Sub64 (words2 b) (words2 x) carry;
               (d3, carry) = Sub64 (words3 b) (words3 x) carry
           in if carry = 1 then -1
              else if d0 OR d1 OR d2 OR d3 = 0 then 0
              else 1)"

end
