(* ===== verification/Bit_Array_Lists.thy ===== *)
theory Bit_Array_Lists
  imports Bit_Array
begin

text \<open>
  What the operations of \<open>core/trie/bitarray.go\<close> do: first bit by bit, then on the list of
  bits an array stands for, most significant bit first. A well-formed array has no bit set
  at or above its length; every operation gives a well-formed array.
\<close>

section \<open>Bits\<close>

text \<open>The bit at a position counted from the least significant one.\<close>

definition bit_at :: "bit_array \<Rightarrow> nat \<Rightarrow> bool" where
  "bit_at b i =
     (if i < 64 then bit (words0 b) i else if i < 128 then bit (words1 b) (i - 64)
      else if i < 192 then bit (words2 b) (i - 128) else bit (words3 b) (i - 192))"

lemma bit_at_ge: "256 \<le> i \<Longrightarrow> \<not> bit_at b i"
  by (auto simp: bit_at_def dest: bit_imp_le_length)

lemma bit_array_eqI:
  assumes "ba_len x = ba_len y" and eq: "\<And>i. i < 256 \<Longrightarrow> bit_at x i = bit_at y i"
  shows "x = (y :: bit_array)"
proof -
  have "bit (words0 x) i = bit (words0 y) i" "bit (words1 x) i = bit (words1 y) i"
    "bit (words2 x) i = bit (words2 y) i" "bit (words3 x) i = bit (words3 y) i" if "i < 64" for i
    using eq [of i] eq [of "i + 64"] eq [of "i + 128"] eq [of "i + 192"] that by (simp_all add: bit_at_def)
  then have "words0 x = words0 y" "words1 x = words1 y" "words2 x = words2 y" "words3 x = words3 y"
    by (auto intro: bit_word_eqI)
  then show ?thesis using assms(1) by (cases x; cases y) simp
qed

lemma unat_sub_le: "n \<le> k \<Longrightarrow> unat (k - n) = unat k - unat (n :: 'a::len word)"
  by (rule unat_sub)

lemma bit_mask: "bit (shr maxUint64 k) i \<longleftrightarrow> k + i < 64"
  by (auto simp: maxUint64_def bit_simps)

lemma uint8_lt: "unat (n :: uint8) < 256"
proof -
  have "unat n < 2 ^ LENGTH(8)" by (rule unsigned_less)
  then show ?thesis by simp
qed

lemma unat_sub16: "unat (256 - ucast n :: 16 word) = 256 - unat (n :: uint8)"
proof -
  have lt: "unat n < 256" by (rule uint8_lt)
  have u: "unat (ucast n :: 16 word) = unat n" using lt by (simp add: unsigned_ucast_eq take_bit_nat_eq_self)
  then have "(ucast n :: 16 word) \<le> 256" using lt by (simp add: word_le_nat_alt)
  then show ?thesis using u by (simp add: unat_sub)
qed

lemma truncateToLength_len [simp]: "ba_len (truncateToLength b) = ba_len b"
  by (simp add: truncateToLength_def)

lemma bit_at_truncateToLength [simp]:
  "bit_at (truncateToLength b) i \<longleftrightarrow> i < unat (ba_len b) \<and> bit_at b i"
proof -
  let ?l = "ba_len b"
  have lt: "unat ?l < 256" by (rule uint8_lt)
  have le: "?l \<le> 64 \<longleftrightarrow> unat ?l \<le> 64" "?l \<le> 128 \<longleftrightarrow> unat ?l \<le> 128" "?l \<le> 192 \<longleftrightarrow> unat ?l \<le> 192"
    by (simp_all add: word_le_nat_alt)
  have sub: "unat ?l \<le> 64 \<Longrightarrow> unat (64 - ?l) = 64 - unat ?l"
    "unat ?l \<le> 128 \<Longrightarrow> unat (128 - ?l) = 128 - unat ?l" "unat ?l \<le> 192 \<Longrightarrow> unat (192 - ?l) = 192 - unat ?l"
    using unat_sub_le [of ?l 64] unat_sub_le [of ?l 128] unat_sub_le [of ?l 192] le by simp_all
  have zero: "?l = 0 \<longleftrightarrow> unat ?l = 0" by (simp add: unat_eq_0)
  consider "unat ?l = 0" | "unat ?l \<noteq> 0" "unat ?l \<le> 64" | "64 < unat ?l" "unat ?l \<le> 128"
    | "128 < unat ?l" "unat ?l \<le> 192" | "192 < unat ?l" by linarith
  then show ?thesis
    by cases (auto simp: truncateToLength_def zero le sub unat_sub16 bit_at_def bit_and_iff bit_mask
        dest: bit_imp_le_length)
qed

definition ba_ok :: "bit_array \<Rightarrow> bool" where
  "ba_ok b \<longleftrightarrow> (\<forall>i. bit_at b i \<longrightarrow> i < unat (ba_len b))"

lemma ba_okD: "ba_ok b \<Longrightarrow> bit_at b i \<Longrightarrow> i < unat (ba_len b)"
  by (simp add: ba_ok_def)

lemma ba_ok_truncateToLength [simp]: "ba_ok (truncateToLength b)"
  by (simp add: ba_ok_def)

lemma bit_at_zero [simp]:
  "\<not> bit_at \<lparr>ba_len = l, words0 = 0, words1 = 0, words2 = 0, words3 = 0\<rparr> i"
  by (simp add: bit_at_def)

lemma Set_id [simp]: "Set x = x"
  by (simp add: Set_def)

lemma clear_simps [simp]: "ba_len clear = 0" "\<not> bit_at clear i" "ba_ok clear"
  by (simp_all add: clear_def ba_ok_def)

lemma bit_at_logic [simp]:
  "bit_at (Or x y) i \<longleftrightarrow> bit_at x i \<or> bit_at y i" "bit_at (And x y) i \<longleftrightarrow> bit_at x i \<and> bit_at y i"
  "bit_at (Xor b x y) i \<longleftrightarrow> bit_at x i \<noteq> bit_at y i"
  "ba_len (Or x y) = ba_len x" "ba_len (And x y) = ba_len x" "ba_len (Xor b x y) = ba_len b"
  by (auto simp: Or_def And_def Xor_def bit_at_def bit_or_iff bit_and_iff bit_xor_iff)

lemma unat_len_diff: "n \<le> ba_len x \<Longrightarrow> unat (ba_len x - n) = unat (ba_len x) - unat n"
  by (rule unat_sub)

text \<open>Shifting by one, two or three words and a rest moves every bit down by the whole amount.\<close>

lemma bit_at_shift_down:
  assumes "m < 64"
  shows "bit_at \<lparr>ba_len = l, words0 = shr a m OR shl b (64 - m), words1 = shr b m OR shl c (64 - m),
      words2 = shr c m OR shl d (64 - m), words3 = shr d m\<rparr> i
    = bit_at \<lparr>ba_len = l', words0 = a, words1 = b, words2 = c, words3 = d\<rparr> (i + m)"
proof -
  consider "i < 64" | "64 \<le> i" "i < 128" | "128 \<le> i" "i < 192" | "192 \<le> i" by linarith
  then show ?thesis
    using assms
    by cases (auto simp: bit_at_def bit_or_iff bit_drop_bit_eq bit_push_bit_iff add.commute dest: bit_imp_le_length)
qed

lemma bit_at_words_down:
  "bit_at \<lparr>ba_len = l, words0 = words1 x, words1 = words2 x, words2 = words3 x, words3 = 0\<rparr> i = bit_at x (i + 64)"
  "bit_at \<lparr>ba_len = l, words0 = words2 x, words1 = words3 x, words2 = 0, words3 = 0\<rparr> i = bit_at x (i + 128)"
  "bit_at \<lparr>ba_len = l, words0 = words3 x, words1 = 0, words2 = 0, words3 = 0\<rparr> i = bit_at x (i + 192)"
  by (auto simp: bit_at_def dest: bit_imp_le_length)

lemma bit_array_eta: "\<lparr>ba_len = ba_len x, words0 = words0 x, words1 = words1 x, words2 = words2 x, words3 = words3 x\<rparr> = x"
  by simp

lemma bit_at_len_irrelevant: "bit_at (x\<lparr>ba_len := l\<rparr>) i = bit_at x i"
  by (simp add: bit_at_def)

lemma bit_at_Rsh_step:
  assumes "0 < n" and "n < ba_len x"
  shows "ba_len (Rsh x n) = ba_len x - n"
    and "bit_at (Rsh x n) i \<longleftrightarrow> i < unat (ba_len x - n) \<and> bit_at x (i + unat n)"
proof -
  have nz: "ba_len x \<noteq> 0" "n \<noteq> 0" "\<not> ba_len x \<le> n" using assms by auto
  have n256: "unat n < 256" using assms(2) uint8_lt [of "ba_len x"] by (simp add: word_less_nat_alt)
  have "ba_len (Rsh x n) = ba_len x - n \<and>
      (bit_at (Rsh x n) i \<longleftrightarrow> i < unat (ba_len x - n) \<and> bit_at x (i + unat n))"
  proof -
    consider "192 \<le> n" | "128 \<le> n" "n < 192" | "64 \<le> n" "n < 128" | "n < 64" by force
    then show ?thesis
    proof cases
      case 1
      then have m: "unat (n - 192) < 64" "i + unat n = i + unat (n - 192) + 192"
        using n256 by (simp_all add: unat_sub word_le_nat_alt)
      show ?thesis
        using nz 1 bit_at_shift_down [OF m(1), of _ "words3 x" 0 0 0 i 0] bit_at_words_down(3) [of 0 x "i + unat (n - 192)"]
        by (cases x) (simp add: Rsh_def rsh192_def Let_def m(2))
    next
      case 2
      then have m: "unat (n - 128) < 64" "i + unat n = i + unat (n - 128) + 128"
        by (simp_all add: unat_sub word_le_nat_alt word_less_nat_alt)
      have n': "\<not> 192 \<le> n" using 2 by simp
      show ?thesis
        using nz 2 n' bit_at_shift_down [OF m(1), of _ "words2 x" "words3 x" 0 0 i 0]
          bit_at_words_down(2) [of 0 x "i + unat (n - 128)"]
        by (cases x) (simp add: Rsh_def rsh128_def Let_def m(2))
    next
      case 3
      then have m: "unat (n - 64) < 64" "i + unat n = i + unat (n - 64) + 64"
        by (simp_all add: unat_sub word_le_nat_alt word_less_nat_alt)
      have n': "\<not> 192 \<le> n" "\<not> 128 \<le> n" using 3 by (auto simp: word_le_nat_alt word_less_nat_alt)
      show ?thesis
        using nz 3 n' bit_at_shift_down [OF m(1), of _ "words1 x" "words2 x" "words3 x" 0 i 0]
          bit_at_words_down(1) [of 0 x "i + unat (n - 64)"]
        by (cases x) (simp add: Rsh_def rsh64_def Let_def m(2))
    next
      case 4
      then have m: "unat n < 64" by (simp add: word_less_nat_alt)
      have n': "\<not> 192 \<le> n" "\<not> 128 \<le> n" "\<not> 64 \<le> n" using 4 by (auto simp: word_le_nat_alt word_less_nat_alt)
      show ?thesis
        using nz 4 n' bit_at_shift_down [OF m, of _ "words0 x" "words1 x" "words2 x" "words3 x" i "ba_len x"]
        by (cases x) (simp add: Rsh_def Let_def)
    qed
  qed
  then show "ba_len (Rsh x n) = ba_len x - n"
    and "bit_at (Rsh x n) i \<longleftrightarrow> i < unat (ba_len x - n) \<and> bit_at x (i + unat n)" by blast+
qed

lemma Rsh_simps:
  assumes "ba_ok x"
  shows "unat (ba_len (Rsh x n)) = unat (ba_len x) - unat n" "bit_at (Rsh x n) i \<longleftrightarrow> bit_at x (i + unat n)"
    "ba_ok (Rsh x n)"
proof -
  have "unat (ba_len (Rsh x n)) = unat (ba_len x) - unat n \<and> (\<forall>i. bit_at (Rsh x n) i \<longleftrightarrow> bit_at x (i + unat n))"
  proof (cases "0 < n \<and> n < ba_len x")
    case True
    then have len: "unat (ba_len x - n) = unat (ba_len x) - unat n" by (simp add: unat_len_diff order_less_imp_le)
    show ?thesis
      using bit_at_Rsh_step [of n x] True len ba_okD [OF assms] by (simp add: less_diff_conv) blast
  next
    case False
    then consider "n = 0" | "ba_len x \<le> n" by (auto simp: word_gt_0)
    then show ?thesis
    proof cases
      case 1
      then show ?thesis by (simp add: Rsh_def)
    next
      case 2
      then have "unat (ba_len x) \<le> unat n" by (simp add: word_le_nat_alt)
      then have "\<not> bit_at x (i + unat n)" for i using ba_okD [OF assms, of "i + unat n"] by linarith
      with 2 \<open>unat (ba_len x) \<le> unat n\<close> show ?thesis
        using ba_okD [OF assms] by (auto simp: Rsh_def unat_eq_0)
    qed
  qed
  then show "unat (ba_len (Rsh x n)) = unat (ba_len x) - unat n" "bit_at (Rsh x n) i \<longleftrightarrow> bit_at x (i + unat n)"
    "ba_ok (Rsh x n)"
    using ba_okD [OF assms] by (auto simp: ba_ok_def less_diff_conv)
qed

lemma LSBsFromLSB_truncate:
  "n < ba_len x \<Longrightarrow> LSBsFromLSB x n = truncateToLength (x\<lparr>ba_len := n\<rparr>)"
  by (cases x) (simp add: LSBsFromLSB_def truncateToLength_def not_le [symmetric])

lemma LSBsFromLSB_simps:
  assumes "ba_ok x"
  shows "unat (ba_len (LSBsFromLSB x n)) = min (unat n) (unat (ba_len x))"
    "bit_at (LSBsFromLSB x n) i \<longleftrightarrow> i < unat n \<and> bit_at x i" "ba_ok (LSBsFromLSB x n)"
proof -
  have "unat (ba_len (LSBsFromLSB x n)) = min (unat n) (unat (ba_len x)) \<and>
      (\<forall>i. bit_at (LSBsFromLSB x n) i \<longleftrightarrow> i < unat n \<and> bit_at x i)"
  proof (cases "n < ba_len x")
    case True
    then show ?thesis by (simp add: LSBsFromLSB_truncate bit_at_len_irrelevant word_less_nat_alt)
  next
    case False
    then have "unat (ba_len x) \<le> unat n" by (simp add: word_le_nat_alt not_less)
    then have "bit_at x i \<Longrightarrow> i < unat n" for i using ba_okD [OF assms, of i] by linarith
    with False \<open>unat (ba_len x) \<le> unat n\<close> show ?thesis by (auto simp: LSBsFromLSB_def)
  qed
  then show "unat (ba_len (LSBsFromLSB x n)) = min (unat n) (unat (ba_len x))"
    "bit_at (LSBsFromLSB x n) i \<longleftrightarrow> i < unat n \<and> bit_at x i" "ba_ok (LSBsFromLSB x n)"
    using ba_okD [OF assms] by (auto simp: ba_ok_def)
qed

lemma bit_at_shift_up:
  assumes "m < 64"
  shows "bit_at \<lparr>ba_len = l, words0 = shl a m, words1 = shl b m OR shr a (64 - m),
      words2 = shl c m OR shr b (64 - m), words3 = shl d m OR shr c (64 - m)\<rparr> i
    \<longleftrightarrow> m \<le> i \<and> i < 256 \<and> bit_at \<lparr>ba_len = l', words0 = a, words1 = b, words2 = c, words3 = d\<rparr> (i - m)"
proof -
  consider "i < 64" | "64 \<le> i" "i < 128" | "128 \<le> i" "i < 192" | "192 \<le> i" "i < 256" | "256 \<le> i" by linarith
  then show ?thesis
    using assms
    by cases (auto simp: bit_at_def bit_or_iff bit_drop_bit_eq bit_push_bit_iff add.commute
        diff_diff_left dest: bit_imp_le_length)
qed

lemma bit_at_words_up:
  "bit_at \<lparr>ba_len = l, words0 = 0, words1 = words0 x, words2 = words1 x, words3 = words2 x\<rparr> i \<longleftrightarrow>
     64 \<le> i \<and> i < 256 \<and> bit_at x (i - 64)"
  "bit_at \<lparr>ba_len = l, words0 = 0, words1 = 0, words2 = words0 x, words3 = words1 x\<rparr> i \<longleftrightarrow>
     128 \<le> i \<and> i < 256 \<and> bit_at x (i - 128)"
  "bit_at \<lparr>ba_len = l, words0 = 0, words1 = 0, words2 = 0, words3 = words0 x\<rparr> i \<longleftrightarrow>
     192 \<le> i \<and> i < 256 \<and> bit_at x (i - 192)"
  by (auto simp: bit_at_def dest: bit_imp_le_length)

lemma unat_maxUint8 [simp]: "unat maxUint8 = 255"
  by (simp add: maxUint8_def unsigned_minus_1_eq_mask mask_eq_exp_minus_1)

lemma Lsh_len:
  "unat (if n > maxUint8 - l then maxUint8 else l + n) = min 255 (unat l + unat n)"
proof -
  have l: "unat l < 256" "unat n < 256" by (rule uint8_lt)+
  have "l \<le> maxUint8" using l by (simp add: word_le_nat_alt)
  then have "unat (maxUint8 - l) = 255 - unat l" by (simp add: unat_sub)
  then have over: "n > maxUint8 - l \<longleftrightarrow> 255 < unat l + unat n" using l by (auto simp: word_less_nat_alt)
  have "unat (l + n) = unat l + unat n" if "\<not> 255 < unat l + unat n"
    using that by (simp add: unat_word_ariths)
  with over show ?thesis by auto
qed

lemma Lsh_words:
  assumes "y = truncateToLength \<lparr>ba_len = l, words0 = shl a m, words1 = shl b m OR shr a (64 - m),
      words2 = shl c m OR shr b (64 - m), words3 = shl d m OR shr c (64 - m)\<rparr>"
    and "m < 64" and "\<And>j. bit_at \<lparr>ba_len = 0, words0 = a, words1 = b, words2 = c, words3 = d\<rparr> j \<longleftrightarrow>
      k \<le> j \<and> j < 256 \<and> bit_at x (j - k)"
    and "n = m + k"
  shows "ba_len y = l \<and> (bit_at y i \<longleftrightarrow> i < unat l \<and> n \<le> i \<and> bit_at x (i - n))"
proof -
  have "i < unat l \<Longrightarrow> i < 256" using uint8_lt [of l] by linarith
  then show ?thesis
    unfolding assms(1,4) bit_at_truncateToLength truncateToLength_len bit_at_shift_up [OF assms(2), where l' = 0] assms(3)
    by (auto simp: diff_diff_left add.commute)
qed

lemma Lsh_simps:
  assumes "ba_len x \<noteq> 0" and "n \<noteq> 0"
  shows "unat (ba_len (Lsh x n)) = min 255 (unat (ba_len x) + unat n)"
    and "bit_at (Lsh x n) i \<longleftrightarrow> i < min 255 (unat (ba_len x) + unat n) \<and> unat n \<le> i \<and> bit_at x (i - unat n)"
proof -
  define l where "l = (if n > maxUint8 - ba_len x then maxUint8 else ba_len x + n)"
  have len: "unat l = min 255 (unat (ba_len x) + unat n)" unfolding l_def by (rule Lsh_len)
  have n256: "unat n < 256" by (rule uint8_lt)
  have lx: "(x\<lparr>ba_len := l\<rparr>) = \<lparr>ba_len = l, words0 = words0 x, words1 = words1 x, words2 = words2 x, words3 = words3 x\<rparr>"
    by (cases x) simp
  have "ba_len (Lsh x n) = l \<and> (bit_at (Lsh x n) i \<longleftrightarrow> i < unat l \<and> unat n \<le> i \<and> bit_at x (i - unat n))"
  proof -
    consider "192 \<le> n" | "128 \<le> n" "n < 192" | "64 \<le> n" "n < 128" | "n < 64" by force
    then show ?thesis
    proof cases
      case 1
      then have "unat (n - 192) < 64" "unat n = unat (n - 192) + 192"
        using n256 by (simp_all add: unat_sub word_le_nat_alt)
      with 1 assms show ?thesis
        by (intro Lsh_words [OF _ _ bit_at_words_up(3)]) (simp_all add: Lsh_def l_def [symmetric] lx lsh192_def Let_def)
    next
      case 2
      then have "unat (n - 128) < 64" "unat n = unat (n - 128) + 128" "\<not> 192 \<le> n"
        by (simp_all add: unat_sub word_le_nat_alt word_less_nat_alt)
      with 2 assms show ?thesis
        by (intro Lsh_words [OF _ _ bit_at_words_up(2)]) (simp_all add: Lsh_def l_def [symmetric] lx lsh128_def Let_def)
    next
      case 3
      then have "unat (n - 64) < 64" "unat n = unat (n - 64) + 64" "\<not> 192 \<le> n" "\<not> 128 \<le> n"
        by (simp_all add: unat_sub word_le_nat_alt word_less_nat_alt)
      with 3 assms show ?thesis
        by (intro Lsh_words [OF _ _ bit_at_words_up(1)]) (simp_all add: Lsh_def l_def [symmetric] lx lsh64_def Let_def)
    next
      case 4
      then have m: "unat n < 64" "\<not> 192 \<le> n" "\<not> 128 \<le> n" "\<not> 64 \<le> n"
        by (simp_all add: word_le_nat_alt word_less_nat_alt)
      have all: "bit_at \<lparr>ba_len = 0, words0 = words0 x, words1 = words1 x, words2 = words2 x, words3 = words3 x\<rparr> j \<longleftrightarrow>
          0 \<le> j \<and> j < 256 \<and> bit_at x (j - 0)" for j
        by (auto simp: bit_at_def dest: bit_imp_le_length)
      from m assms show ?thesis
        by (intro Lsh_words [OF _ _ all]) (simp_all add: Lsh_def l_def [symmetric] lx Let_def)
    qed
  qed
  then show "unat (ba_len (Lsh x n)) = min 255 (unat (ba_len x) + unat n)"
    and "bit_at (Lsh x n) i \<longleftrightarrow> i < min 255 (unat (ba_len x) + unat n) \<and> unat n \<le> i \<and> bit_at x (i - unat n)"
    unfolding len [symmetric] by simp_all
qed

section \<open>Lists of bits\<close>

definition ba_bits :: "bit_array \<Rightarrow> bool list" where
  "ba_bits b = map (\<lambda>i. bit_at b (unat (ba_len b) - Suc i)) [0..<unat (ba_len b)]"

lemma length_ba_bits [simp]: "length (ba_bits b) = unat (ba_len b)"
  by (simp add: ba_bits_def)

lemma nth_ba_bits: "i < unat (ba_len b) \<Longrightarrow> ba_bits b ! i = bit_at b (unat (ba_len b) - Suc i)"
  by (simp add: ba_bits_def)

lemma bit_at_ba_bits: "i < unat (ba_len b) \<Longrightarrow> bit_at b i = ba_bits b ! (unat (ba_len b) - Suc i)"
  by (simp add: nth_ba_bits)

lemma ba_bits_inj:
  assumes "ba_ok x" and "ba_ok y" and eq: "ba_bits x = ba_bits y"
  shows "x = y"
proof (rule bit_array_eqI)
  have len: "unat (ba_len x) = unat (ba_len y)" using eq by (metis length_ba_bits)
  then show "ba_len x = ba_len y" by (simp add: word_unat_eq_iff)
  show "bit_at x i = bit_at y i" for i
  proof (cases "i < unat (ba_len x)")
    case True
    with len eq show ?thesis by (simp add: bit_at_ba_bits)
  next
    case False
    with len assms(1,2) show ?thesis by (metis ba_okD)
  qed
qed

lemma ba_bits_LSBs:
  assumes "ba_ok x"
  shows "ba_bits (LSBs x n) = drop (unat n) (ba_bits x)" "ba_ok (LSBs x n)"
proof -
  have lt: "unat (ba_len x) < 256" "unat n < 256" by (rule uint8_lt)+
  consider "n = 0" | "ba_len x < n" | "n \<noteq> 0" "n \<le> ba_len x" by force
  then show "ba_bits (LSBs x n) = drop (unat n) (ba_bits x)"
  proof cases
    case 2
    then have "unat (ba_len x) < unat n" by (simp add: word_less_nat_alt)
    with 2 show ?thesis by (auto simp: LSBs_def Len_def ba_bits_def)
  next
    case 3
    then have n: "unat n \<le> unat (ba_len x)" "unat (ba_len x - n) = unat (ba_len x) - unat n"
      by (simp_all add: word_le_nat_alt unat_sub)
    with 3 show ?thesis
      by (intro nth_equalityI) (auto simp: LSBs_def Len_def LSBsFromLSB_simps [OF assms] nth_ba_bits not_less [symmetric])
  qed (simp add: LSBs_def)
  show "ba_ok (LSBs x n)" using assms by (simp add: LSBs_def LSBsFromLSB_simps)
qed

lemma ba_bits_MSBs:
  assumes "ba_ok x"
  shows "ba_bits (MSBs x n) = take (unat n) (ba_bits x)" "ba_ok (MSBs x n)"
proof -
  show "ba_bits (MSBs x n) = take (unat n) (ba_bits x)"
  proof (cases "ba_len x \<le> n")
    case True
    then show ?thesis by (simp add: MSBs_def word_le_nat_alt)
  next
    case False
    then have n: "unat n < unat (ba_len x)" "unat (ba_len x - n) = unat (ba_len x) - unat n"
      by (simp_all add: word_le_nat_alt unat_sub)
    with False show ?thesis
      by (intro nth_equalityI) (auto simp: MSBs_def Rsh_simps [OF assms] nth_ba_bits)
  qed
  show "ba_ok (MSBs x n)" using assms by (simp add: MSBs_def Rsh_simps)
qed

lemma Append_simps:
  assumes "ba_ok x" and "ba_ok y" and "unat (ba_len x) + unat (ba_len y) \<le> 255"
  shows "ba_bits (Append x y) = ba_bits x @ ba_bits y" "ba_ok (Append x y)"
proof -
  let ?l = "unat (ba_len x)" and ?m = "unat (ba_len y)"
  have "ba_bits (Append x y) = ba_bits x @ ba_bits y \<and> ba_ok (Append x y)"
  proof (cases "ba_len x = 0 \<or> ba_len y = 0")
    case True
    then show ?thesis
    proof (elim disjE)
      assume "ba_len x = 0"
      then show ?thesis using assms(2) by (simp add: Append_def ba_bits_def)
    next
      assume y: "ba_len y = 0"
      then have "ba_len y \<noteq> maxUint8" by (simp add: maxUint8_def)
      with y have "Append x y = (if ba_len x = 0 then y else x)" by (simp add: Append_def)
      with y assms(1,2) show ?thesis by (simp add: ba_bits_def)
    qed
  next
    case False
    then have nz: "0 < ?l" "0 < ?m" by (simp_all add: unat_gt_0)
    have "?m \<noteq> 255" using nz(1) assms(3) by linarith
    then have "ba_len y \<noteq> maxUint8" by (metis unat_maxUint8)
    with False have app: "Append x y = Or (Lsh x (ba_len y)) y" by (simp add: Append_def)
    have len: "unat (ba_len (Append x y)) = ?l + ?m" using False assms(3) by (simp add: app Lsh_simps(1))
    have at: "bit_at (Append x y) i \<longleftrightarrow> (if i < ?m then bit_at y i else bit_at x (i - ?m))" for i
      using False assms(3) ba_okD [OF assms(1), of "i - ?m"] ba_okD [OF assms(2), of i] by (auto simp: app Lsh_simps(2))
    have "ba_bits (Append x y) = ba_bits x @ ba_bits y"
      by (rule nth_equalityI) (auto simp: len at nth_ba_bits nth_append add.commute [of ?l ?m])
    moreover have "ba_ok (Append x y)"
      using ba_okD [OF assms(1)] by (force simp: ba_ok_def len at split: if_splits)
    ultimately show ?thesis by simp
  qed
  then show "ba_bits (Append x y) = ba_bits x @ ba_bits y" "ba_ok (Append x y)" by blast+
qed

lemma ba_bits_Zeros: "ba_bits (Zeros n) = replicate (unat n) False" "ba_ok (Zeros n)"
  by (simp_all add: Zeros_def ba_bits_def ba_ok_def map_replicate_const)

lemma ba_bits_Ones: "ba_bits (Ones n) = replicate (unat n) True" "ba_ok (Ones n)"
proof -
  have "bit_at \<lparr>ba_len = n, words0 = maxUint64, words1 = maxUint64, words2 = maxUint64, words3 = maxUint64\<rparr> i" if "i < unat n" for i
    using that uint8_lt [of n] by (auto simp: bit_at_def maxUint64_def)
  then show "ba_bits (Ones n) = replicate (unat n) True"
    by (intro nth_equalityI) (simp_all add: Ones_def nth_ba_bits)
  show "ba_ok (Ones n)" by (simp add: Ones_def)
qed

lemma ba_bits_SetBit: "ba_bits (SetBit bt) = [bit bt 0]" "ba_ok (SetBit bt)"
proof -
  have b: "bit_at (SetBit bt) i \<longleftrightarrow> i = 0 \<and> bit bt 0" for i
    by (auto simp: SetBit_def bit_at_def bit_ucast_iff bit_and_iff bit_1_iff)
  then show "ba_bits (SetBit bt) = [bit bt 0]" by (simp add: ba_bits_def) (simp add: SetBit_def)
  show "ba_ok (SetBit bt)" using b by (simp add: ba_ok_def) (simp add: SetBit_def)
qed

lemma Equal_bits:
  assumes "ba_ok x" and "ba_ok y"
  shows "Equal (Some x) (Some y) \<longleftrightarrow> ba_bits x = ba_bits y"
proof
  assume "Equal (Some x) (Some y)"
  then have "x = y" by (cases x; cases y) (simp add: Equal_def)
  then show "ba_bits x = ba_bits y" by simp
next
  assume "ba_bits x = ba_bits y"
  then have "x = y" by (rule ba_bits_inj [OF assms])
  then show "Equal (Some x) (Some y)" by (simp add: Equal_def)
qed

lemma prefix_iff_take: "prefix xs ys \<longleftrightarrow> take (length xs) ys = xs"
  by (metis append_eq_conv_conj prefix_def)

lemma take_min_prefix:
  "take (min (length xs) (length ys)) xs = take (min (length xs) (length ys)) ys \<longleftrightarrow> prefix xs ys \<or> prefix ys xs"
  by (cases "length xs \<le> length ys") (auto simp: prefix_iff_take min_def)

lemma EqualMSBs_bits:
  assumes "ba_ok x" and "ba_ok y"
  shows "EqualMSBs x y \<longleftrightarrow> prefix (ba_bits x) (ba_bits y) \<or> prefix (ba_bits y) (ba_bits x)"
proof -
  let ?x = "ba_bits x" and ?y = "ba_bits y"
  let ?k = "min (length ?x) (length ?y)"
  have pre: "take ?k ?x = take ?k ?y \<longleftrightarrow> prefix ?x ?y \<or> prefix ?y ?x"
    by (rule take_min_prefix)
  have m: "unat (min (ba_len x) (ba_len y)) = ?k" by (simp add: min_def word_le_nat_alt)
  consider "ba_len x = ba_len y" | "ba_len x \<noteq> ba_len y" "ba_len x = 0 \<or> ba_len y = 0"
    | "ba_len x \<noteq> ba_len y" "\<not> (ba_len x = 0 \<or> ba_len y = 0)" by blast
  then show ?thesis
  proof cases
    case 1
    then have "take ?k ?x = ?x" "take ?k ?y = ?y" by simp_all
    with 1 pre show ?thesis by (simp add: EqualMSBs_def Equal_bits [OF assms])
  next
    case 2
    then have "?k = 0" by auto
    with 2 pre show ?thesis by (simp add: EqualMSBs_def)
  next
    case 3
    then show ?thesis
      using pre by (simp add: EqualMSBs_def Let_def Equal_bits [OF ba_bits_MSBs(2) [OF assms(1)] ba_bits_MSBs(2) [OF assms(2)]]
          ba_bits_MSBs(1) assms m)
  qed
qed

section \<open>The first set bit and the common prefix\<close>

lemma LeadingZeros64_first:
  assumes "w \<noteq> 0"
  obtains k where "k < 64" "bit w k" "\<And>j. k < j \<Longrightarrow> \<not> bit w j" "LeadingZeros64 w = 63 - k"
proof -
  let ?P = "\<lambda>i. \<not> bit w (63 - i)"
  define n where "n = LeadingZeros64 w"
  have n: "n = length (takeWhile ?P [0..<64])" by (simp add: n_def LeadingZeros64_def)
  have skipped: "\<not> bit w (63 - i)" if "i < n" for i
  proof -
    have "takeWhile ?P [0..<64] ! i \<in> set (takeWhile ?P [0..<64])" using that n by simp
    then have "?P (takeWhile ?P [0..<64] ! i)" by (rule set_takeWhileD [THEN conjunct2])
    moreover have "takeWhile ?P [0..<64] ! i = i"
      using that n length_takeWhile_le [of ?P "[0..<64]"] by (simp add: takeWhile_nth)
    ultimately show ?thesis by simp
  qed
  have "n < 64"
  proof (rule ccontr)
    assume "\<not> n < 64"
    then have "\<not> bit w j" if "j < 64" for j using skipped [of "63 - j"] that by simp
    then have "w = 0" by (intro bit_word_eqI) simp
    with assms show False by simp
  qed
  show thesis
  proof (rule that)
    show "63 - n < 64" by simp
    show "bit w (63 - n)"
      using nth_length_takeWhile [of ?P "[0..<64]"] \<open>n < 64\<close> by (simp add: n)
    show "\<not> bit w j" if "63 - n < j" for j
      using that skipped [of "63 - j"] by (cases "j < 64") (auto dest: bit_imp_le_length)
    show "LeadingZeros64 w = 63 - (63 - n)" using \<open>n < 64\<close> by (simp add: n_def [symmetric])
  qed
qed

text \<open>One more than the position of the highest bit set, or 0 if there is none.\<close>

lemma findFirstSetBit_none: "(\<And>i. \<not> bit_at b i) \<Longrightarrow> findFirstSetBit b = 0"
proof -
  assume none: "\<And>i. \<not> bit_at b i"
  have "b = Zeros (ba_len b)"
    by (rule bit_array_eqI) (simp_all add: none Zeros_def)
  then have "words0 b = 0 \<and> words1 b = 0 \<and> words2 b = 0 \<and> words3 b = 0" by (cases b) (simp add: Zeros_def)
  then show ?thesis by (simp add: findFirstSetBit_def)
qed

lemma findFirstSetBit_word:
  assumes "w \<noteq> 0" and "\<And>j. bit w j \<Longrightarrow> bit_at b (64 * c + j)"
    and "\<And>j. 64 * Suc c \<le> j \<Longrightarrow> \<not> bit_at b j" and "\<And>j. j < 64 \<Longrightarrow> bit_at b (64 * c + j) \<Longrightarrow> bit w j"
  shows "\<exists>k. 64 * Suc c - LeadingZeros64 w = Suc k \<and> bit_at b k \<and> (\<forall>j>k. \<not> bit_at b j)"
proof -
  from LeadingZeros64_first [OF assms(1)] obtain k where
    k: "k < 64" "bit w k" "\<And>j. k < j \<Longrightarrow> \<not> bit w j" "LeadingZeros64 w = 63 - k" by blast
  have "\<not> bit_at b j" if j: "64 * c + k < j" for j
  proof (cases "64 * Suc c \<le> j")
    case False
    with j have "j - 64 * c < 64" "64 * c + (j - 64 * c) = j" "k < j - 64 * c" by auto
    then show ?thesis using assms(4) [of "j - 64 * c"] k(3) [of "j - 64 * c"] by metis
  qed (rule assms(3))
  with k assms(2) [OF k(2)] show ?thesis by (intro exI [of _ "64 * c + k"]) auto
qed

lemma findFirstSetBit_some:
  assumes "ba_ok b" and "bit_at b i"
  obtains k where "unat (findFirstSetBit b) = Suc k" "bit_at b k" "\<And>j. k < j \<Longrightarrow> \<not> bit_at b j"
proof -
  let ?f = "if words3 b \<noteq> 0 then 4 * 64 - LeadingZeros64 (words3 b) else if words2 b \<noteq> 0 then 3 * 64 - LeadingZeros64 (words2 b)
    else if words1 b \<noteq> 0 then 2 * 64 - LeadingZeros64 (words1 b) else 1 * 64 - LeadingZeros64 (words0 b)"
  have hi: "bit_at b j = bit (words3 b) (j - 192)" if "192 \<le> j" for j using that by (simp add: bit_at_def)
  have "\<exists>k. ?f = Suc k \<and> bit_at b k \<and> (\<forall>j>k. \<not> bit_at b j)"
  proof -
    consider "words3 b \<noteq> 0" | "words3 b = 0" "words2 b \<noteq> 0" | "words3 b = 0" "words2 b = 0" "words1 b \<noteq> 0"
      | "words3 b = 0" "words2 b = 0" "words1 b = 0" by blast
    then show ?thesis
    proof cases
      case 1
      have "\<exists>k. 64 * Suc 3 - LeadingZeros64 (words3 b) = Suc k \<and> bit_at b k \<and> (\<forall>j>k. \<not> bit_at b j)"
        by (rule findFirstSetBit_word [OF 1]) (auto simp: bit_at_def dest: bit_imp_le_length)
      with 1 show ?thesis by simp
    next
      case 2
      have "\<exists>k. 64 * Suc 2 - LeadingZeros64 (words2 b) = Suc k \<and> bit_at b k \<and> (\<forall>j>k. \<not> bit_at b j)"
        by (rule findFirstSetBit_word [OF 2(2)]) (use 2 in \<open>auto simp: bit_at_def dest: bit_imp_le_length\<close>)
      with 2 show ?thesis by simp
    next
      case 3
      have "\<exists>k. 64 * Suc 1 - LeadingZeros64 (words1 b) = Suc k \<and> bit_at b k \<and> (\<forall>j>k. \<not> bit_at b j)"
        by (rule findFirstSetBit_word [OF 3(3)]) (use 3 in \<open>auto simp: bit_at_def dest: bit_imp_le_length\<close>)
      with 3 show ?thesis by simp
    next
      case 4
      then have w: "words0 b \<noteq> 0" using assms(2) by (auto simp: bit_at_def split: if_splits)
      have "\<exists>k. 64 * Suc 0 - LeadingZeros64 (words0 b) = Suc k \<and> bit_at b k \<and> (\<forall>j>k. \<not> bit_at b j)"
        by (rule findFirstSetBit_word [OF w]) (use 4 in \<open>auto simp: bit_at_def dest: bit_imp_le_length\<close>)
      with 4 show ?thesis by simp
    qed
  qed
  then obtain k where k: "?f = Suc k" "bit_at b k" "\<forall>j>k. \<not> bit_at b j" by blast
  have "k < unat (ba_len b)" by (rule ba_okD [OF assms(1) k(2)])
  then have "Suc k < 256" "ba_len b \<noteq> 0" using uint8_lt [of "ba_len b"] by auto
  then have "unat (of_nat (Suc k) :: uint8) = Suc k" "ba_len b \<noteq> 0" by (simp only: unat_of_nat, simp)+
  moreover have "findFirstSetBit b = of_nat ?f"
    using \<open>ba_len b \<noteq> 0\<close> k(2) by (auto simp: findFirstSetBit_def bit_at_def split: if_splits)
  ultimately show thesis using that k by simp
qed

lemma lcp_eqI:
  assumes "prefix p xs" and "prefix p ys"
    and "length p < length xs \<Longrightarrow> length p < length ys \<Longrightarrow> xs ! length p \<noteq> ys ! length p"
  shows "longest_common_prefix xs ys = p"
proof -
  from assms(1,2) obtain us vs where u: "xs = p @ us" "ys = p @ vs" by (auto simp: prefix_def)
  have "longest_common_prefix (p @ us) (p @ vs) = p @ longest_common_prefix us vs" by (induction p) simp_all
  moreover have "longest_common_prefix us vs = []"
    using assms(3) u by (cases us; cases vs) (auto simp: nth_append)
  ultimately show ?thesis using u by simp
qed

lemma lcp_commute: "longest_common_prefix xs ys = longest_common_prefix ys xs"
  by (induction xs ys rule: longest_common_prefix.induct) (auto split: if_splits)

lemma CommonMSBs_aligned:
  assumes s: "ba_ok s" and l: "ba_ok l" and len: "ba_len s \<le> ba_len l"
    and b: "b = Xor (Rsh l (ba_len l - ba_len s)) (Rsh l (ba_len l - ba_len s)) s"
  shows "ba_bits (Rsh s (findFirstSetBit b)) = longest_common_prefix (ba_bits s) (ba_bits l)"
proof -
  let ?n = "unat (ba_len s)" and ?m = "unat (ba_len l)"
  let ?p = "ba_bits (Rsh s (findFirstSetBit b))"
  have le: "?n \<le> ?m" and d: "unat (ba_len l - ba_len s) = ?m - ?n"
    using len by (simp_all add: word_le_nat_alt unat_sub)
  have blen: "unat (ba_len b) = ?n" using le by (simp add: b Rsh_simps(1) [OF l] d)
  have at: "bit_at b i \<longleftrightarrow> bit_at l (i + (?m - ?n)) \<noteq> bit_at s i" for i by (simp add: b Rsh_simps(2) [OF l] d)
  have pnth: "?p ! i = ba_bits s ! i" if "i < length ?p" for i
    using that by (simp add: Rsh_simps [OF s] nth_ba_bits)
  have same: "ba_bits s ! i = ba_bits l ! i \<longleftrightarrow> \<not> bit_at b (?n - Suc i)" if "i < ?n" for i
    using that le by (auto simp: nth_ba_bits at)
  have okb: "ba_ok b"
    using ba_okD [OF s] ba_okD [OF l] le by (fastforce simp: ba_ok_def at blen)
  have above: "\<not> bit_at b j" if "unat (findFirstSetBit b) \<le> j" for j
  proof (cases "\<exists>i. bit_at b i")
    case True
    then obtain i where "bit_at b i" ..
    from findFirstSetBit_some [OF okb this] that show ?thesis by (metis Suc_le_lessD)
  qed blast
  have agree: "?p ! i = ba_bits l ! i" if "i < length ?p" for i
    using that pnth [OF that] same [of i] above [of "?n - Suc i"] by (auto simp: Rsh_simps(1) [OF s])
  have "longest_common_prefix (ba_bits s) (ba_bits l) = ?p"
  proof (rule lcp_eqI)
    show "prefix ?p (ba_bits s)"
      unfolding prefix_iff_take by (rule nth_equalityI) (use pnth in \<open>simp_all add: Rsh_simps(1) [OF s]\<close>)
    show "prefix ?p (ba_bits l)"
      unfolding prefix_iff_take by (rule nth_equalityI) (use agree le in \<open>simp_all add: Rsh_simps(1) [OF s]\<close>)
    assume "length ?p < length (ba_bits s)"
    then have nz: "0 < unat (findFirstSetBit b)" and lt: "length ?p < ?n" by (simp_all add: Rsh_simps(1) [OF s])
    then obtain i where "bit_at b i" using findFirstSetBit_none [of b] by fastforce
    then obtain k where k: "unat (findFirstSetBit b) = Suc k" "bit_at b k" by (rule findFirstSetBit_some [OF okb])
    have "?n - Suc (length ?p) = k" using k ba_okD [OF okb k(2)] by (simp add: Rsh_simps(1) [OF s] blen)
    with k(2) same [OF lt] show "ba_bits s ! length ?p \<noteq> ba_bits l ! length ?p" by simp
  qed
  then show ?thesis by simp
qed

end
