(* ===== verification/Bit_Array_Order.thy ===== *)
theory Bit_Array_Order
  imports Bit_Array_Lists
begin

text \<open>
  The remaining operations of \<open>core/trie/bitarray.go\<close> on lists of bits: common prefixes,
  subranges, single bits and the order, with the value of an array as an integer between.
\<close>

section \<open>Common prefixes and subranges\<close>

lemma ba_bits_Nil [simp]: "ba_len b = 0 \<Longrightarrow> ba_bits b = []"
  by (simp add: ba_bits_def)

lemma lcp_Nil [simp]: "longest_common_prefix [] ys = []" "longest_common_prefix xs [] = []"
  by (cases xs; simp)+

lemma CommonMSBs_bits:
  assumes "ba_ok x" and "ba_ok y"
  shows "ba_bits (CommonMSBs x y) = longest_common_prefix (ba_bits x) (ba_bits y)" "ba_ok (CommonMSBs x y)"
proof -
  show "ba_bits (CommonMSBs x y) = longest_common_prefix (ba_bits x) (ba_bits y)"
  proof (cases "ba_len x = 0 \<or> ba_len y = 0")
    case True
    then show ?thesis by (auto simp: CommonMSBs_def)
  next
    case False
    show ?thesis
    proof (cases "ba_len x < ba_len y")
      case True
      with False show ?thesis
        using CommonMSBs_aligned [OF assms order_less_imp_le [OF True] refl] by (simp add: CommonMSBs_def Let_def)
    next
      case ge: False
      then have "ba_len y \<le> ba_len x" by simp
      from CommonMSBs_aligned [OF assms(2,1) this refl] False ge show ?thesis
        by (simp add: CommonMSBs_def Let_def lcp_commute [of "ba_bits x"])
    qed
  qed
  show "ba_ok (CommonMSBs x y)"
    using assms by (auto simp: CommonMSBs_def Let_def intro: Rsh_simps(3))
qed

lemma ba_ok_And: "ba_ok x \<Longrightarrow> ba_ok (And x y)"
  by (simp add: ba_ok_def)

lemma Subset_bits:
  assumes x: "ba_ok x"
  shows "ba_bits (Subset x s e) = take (unat e - unat s) (drop (unat s) (ba_bits x))" "ba_ok (Subset x s e)"
proof -
  let ?n = "unat (ba_len x)"
  have "ba_bits (Subset x s e) = take (unat e - unat s) (drop (unat s) (ba_bits x)) \<and> ba_ok (Subset x s e)"
  proof (cases "s \<ge> e \<or> s \<ge> ba_len x")
    case True
    then have "unat e \<le> unat s \<or> ?n \<le> unat s" by (simp add: word_le_nat_alt)
    with True show ?thesis by (auto simp: Subset_def)
  next
    case False
    define e' where "e' = (if e > ba_len x then ba_len x else e)"
    define l where "l = e' - s"
    define b where "b = LSBs x s"
    define mask where "mask = Append (Ones l) (Zeros (ba_len b - l))"
    from False have se: "unat s < unat e'" "unat e' \<le> ?n" "s \<le> e'"
      by (auto simp: e'_def word_le_nat_alt word_less_nat_alt)
    then have l: "unat l = unat e' - unat s" by (simp add: l_def unat_sub)
    have b: "ba_bits b = drop (unat s) (ba_bits x)" "ba_ok b" unfolding b_def by (rule ba_bits_LSBs [OF x])+
    have blen: "unat (ba_len b) = ?n - unat s" using arg_cong [OF b(1), of length] by simp
    have lb: "unat l \<le> unat (ba_len b)" using l se blen by simp
    then have z: "unat (ba_len b - l) = unat (ba_len b) - unat l" by (simp add: unat_sub word_le_nat_alt)
    have mlen: "unat (ba_len (Ones l)) = unat l" "unat (ba_len (Zeros (ba_len b - l))) = unat (ba_len b) - unat l"
      using z by (simp_all add: Ones_def Zeros_def)
    have m: "ba_bits mask = replicate (unat l) True @ replicate (unat (ba_len b) - unat l) False"
      unfolding mask_def using mlen lb uint8_lt [of "ba_len b"]
      by (subst Append_simps(1)) (simp_all add: ba_bits_Ones ba_bits_Zeros z)
    then have "length (ba_bits mask) = unat (ba_len b)" using lb by simp
    then have mm: "unat (ba_len mask) = unat (ba_len b)" by simp
    have sub: "Subset x s e = MSBs (And b mask) l"
      using False unfolding Subset_def mask_def Zeros_def b_def l_def e'_def
      by (simp add: Let_def emptyBitArray_def)
    have "take (unat l) (ba_bits (And b mask)) = take (unat l) (ba_bits b)"
    proof (rule nth_equalityI)
      fix i assume "i < length (take (unat l) (ba_bits (And b mask)))"
      then have i: "i < unat l" "i < unat (ba_len b)" by simp_all
      then have "bit_at mask (unat (ba_len mask) - Suc i)"
        using m nth_ba_bits [of i mask] mm by (simp add: nth_append)
      with i mm show "take (unat l) (ba_bits (And b mask)) ! i = take (unat l) (ba_bits b) ! i"
        by (simp add: nth_ba_bits)
    qed simp
    also have "\<dots> = take (unat e - unat s) (drop (unat s) (ba_bits x))"
    proof (cases "e > ba_len x")
      case True
      then have "e' = ba_len x" "?n \<le> unat e" by (simp_all add: e'_def word_less_nat_alt)
      then show ?thesis by (simp add: b(1) l)
    next
      case False
      then show ?thesis by (simp add: b(1) l e'_def)
    qed
    finally show ?thesis using ba_bits_MSBs [OF ba_ok_And [OF b(2), of mask], of l] by (simp add: sub)
  qed
  then show "ba_bits (Subset x s e) = take (unat e - unat s) (drop (unat s) (ba_bits x))" "ba_ok (Subset x s e)" by blast+
qed

section \<open>Single bits\<close>

lemma ba_word_bit:
  "n < 256 \<Longrightarrow> bit (ba_word b (of_nat (n div 64))) (n mod 64) = bit_at b n"
proof -
  assume "n < 256"
  then consider "n < 64" | "64 \<le> n" "n < 128" | "128 \<le> n" "n < 192" | "192 \<le> n" "n < 256" by linarith
  then show ?thesis
  proof cases
    case 2
    then have "n div 64 = 1" "n mod 64 = n - 64" by (simp_all add: div_nat_eqI mod_if)
    with 2 show ?thesis by (simp add: ba_word_def bit_at_def)
  next
    case 3
    then have "n div 64 = 2" "n mod 64 = n - 128" by (simp_all add: div_nat_eqI mod_if)
    with 3 show ?thesis by (simp add: ba_word_def bit_at_def)
  next
    case 4
    then have "n div 64 = 3" "n mod 64 = n - 192" by (simp_all add: div_nat_eqI mod_if)
    with 4 show ?thesis by (simp add: ba_word_def bit_at_def)
  qed (simp add: ba_word_def bit_at_def)
qed

lemma BitFromLSB_bit:
  assumes "ba_ok b"
  shows "BitFromLSB b n = of_bool (bit_at b (unat n))"
proof (cases "n \<ge> ba_len b")
  case True
  then have "\<not> bit_at b (unat n)" using ba_okD [OF assms, of "unat n"] by (auto simp: word_le_nat_alt)
  with True show ?thesis by (simp add: BitFromLSB_def)
next
  case False
  have "unat (of_nat (unat n div 64) :: uint8) = unat n div 64" using uint8_lt [of n] by (simp add: unat_of_nat)
  then have w: "n div 64 = of_nat (unat n div 64)" "unat (n mod 64) = unat n mod 64"
    by (simp_all add: word_unat_eq_iff unat_div unat_mod)
  have "(ba_word b (n div 64) AND shl 1 (unat (n mod 64)) \<noteq> 0) = bit (ba_word b (n div 64)) (unat n mod 64)"
    by (simp add: w(2) bit_iff_and_push_bit_not_eq_0)
  also have "\<dots> = bit_at b (unat n)" using ba_word_bit [OF uint8_lt [of n], of b] by (simp add: w(1))
  finally show ?thesis using False by (simp add: BitFromLSB_def)
qed

lemma IsBitSet_nth:
  assumes "ba_ok b" and "unat n < length (ba_bits b)"
  shows "IsBitSet b n = ba_bits b ! unat n"
proof -
  have n: "\<not> n \<ge> ba_len b" using assms(2) by (simp add: word_le_nat_alt)
  have "n < ba_len b" using n by simp
  then have u: "unat (ba_len b - n - 1) = unat (ba_len b) - Suc (unat n)"
    by (simp add: unat_sub word_le_nat_alt word_less_nat_alt unat_minus_one)
  show ?thesis using assms n by (simp add: IsBitSet_def Bit_def Len_def BitFromLSB_bit u nth_ba_bits)
qed

section \<open>Value and order\<close>

definition ba_value :: "bit_array \<Rightarrow> int" where
  "ba_value b = uint (words0 b) + 2 ^ 64 * uint (words1 b) + 2 ^ 128 * uint (words2 b) + 2 ^ 192 * uint (words3 b)"

fun bin_value :: "bool list \<Rightarrow> int" where
  "bin_value [] = 0"
| "bin_value (a # xs) = of_bool a * 2 ^ length xs + bin_value xs"

lemma bin_value_bound: "0 \<le> bin_value xs \<and> bin_value xs < 2 ^ length xs"
  by (induction xs) auto

lemma bit_bin_value: "bit (bin_value xs) i \<longleftrightarrow> i < length xs \<and> xs ! (length xs - Suc i)"
proof (induction xs)
  case (Cons a xs)
  have "bin_value (a # xs) = concat_bit (length xs) (bin_value xs) (of_bool a)"
    using bin_value_bound [of xs] by (simp add: concat_bit_eq push_bit_eq_mult take_bit_int_eq_self)
  then have "bit (bin_value (a # xs)) i \<longleftrightarrow>
      i < length xs \<and> bit (bin_value xs) i \<or> length xs \<le> i \<and> bit (of_bool a :: int) (i - length xs)"
    by (simp only: bit_concat_bit_iff)
  with Cons show ?case by (auto simp: bit_of_bool_iff nth_Cons' less_Suc_eq_le Suc_diff_le)
qed simp

lemma take_bit_uint_eq: "take_bit 64 (uint w) = uint (w :: uint64)"
proof -
  have "uint w < 2 ^ LENGTH(64)" by (rule unsigned_less)
  then show ?thesis by (simp add: take_bit_int_eq_self)
qed

lemma uint64_range: "0 \<le> uint w" "uint (w :: uint64) < 2 ^ 64"
proof -
  have "uint w < 2 ^ LENGTH(64)" by (rule unsigned_less)
  then show "uint w < 2 ^ 64" by simp
qed simp

lemma ba_value_concat:
  "ba_value b = concat_bit 64 (uint (words0 b)) (concat_bit 64 (uint (words1 b)) (concat_bit 64 (uint (words2 b)) (uint (words3 b))))"
  by (simp add: ba_value_def concat_bit_eq push_bit_eq_mult take_bit_uint_eq)

lemma bit_ba_value: "bit (ba_value b) i = bit_at b i"
  unfolding ba_value_concat bit_at_def by (auto simp: bit_concat_bit_iff bit_uint_iff dest: bit_imp_le_length)

lemma ba_value_bits: "ba_ok b \<Longrightarrow> ba_value b = bin_value (ba_bits b)"
  by (rule bit_eqI) (auto simp: bit_ba_value bit_bin_value nth_ba_bits dest: ba_okD)

lemma bin_value_less:
  "length xs = length ys \<Longrightarrow> bin_value xs < bin_value ys \<longleftrightarrow> (xs, ys) \<in> lexord {(False, True)}"
proof (induction xs ys rule: list_induct2)
  case (Cons a xs b ys)
  then show ?case
    using bin_value_bound [of xs] bin_value_bound [of ys] by (cases a; cases b) auto
qed simp

lemma Sub64_spec:
  assumes "uint borrow \<le> 1" and "Sub64 x y borrow = (d, c)"
  shows "uint x - uint y - uint borrow = uint d - 2 ^ 64 * uint c" "uint c \<le> 1"
proof -
  have b: "0 \<le> uint x" "uint x < 2 ^ 64" "0 \<le> uint y" "uint y < 2 ^ 64" "0 \<le> uint borrow"
    using uint64_range by simp_all
  have d: "uint d = (uint x - uint y - uint borrow) mod 2 ^ 64"
  proof -
    have "d = x - y - borrow" using assms(2) by (simp add: Sub64_def)
    then show ?thesis by (simp add: uint_word_ariths mod_diff_left_eq)
  qed
  have c: "uint c = (if uint x < uint y + uint borrow then 1 else 0)" using assms(2) by (auto simp: Sub64_def)
  show "uint c \<le> 1" by (simp add: c)
  show "uint x - uint y - uint borrow = uint d - 2 ^ 64 * uint c"
  proof (cases "uint x < uint y + uint borrow")
    case True
    then have "(uint x - uint y - uint borrow + 2 ^ 64) mod 2 ^ 64 = uint x - uint y - uint borrow + 2 ^ 64"
      using b assms(1) by (intro mod_pos_pos_trivial) linarith+
    then have "uint d = uint x - uint y - uint borrow + 2 ^ 64" by (simp add: d)
    with c True show ?thesis by simp
  next
    case False
    then have "(uint x - uint y - uint borrow) mod 2 ^ 64 = uint x - uint y - uint borrow"
      using b by (intro mod_pos_pos_trivial) linarith+
    with c d False show ?thesis by simp
  qed
qed

lemma or4_zero: "a OR b OR c OR d = 0 \<longleftrightarrow> a = 0 \<and> b = 0 \<and> c = 0 \<and> d = (0 :: uint64)"
  by (simp add: or_eq_0_iff)

lemma Cmp_value:
  "Cmp b x = (if ba_len b < ba_len x then -1 else if ba_len x < ba_len b then 1 else sgn (ba_value b - ba_value x))"
proof (cases "ba_len b = ba_len x")
  case True
  obtain d0 c0 where s0: "Sub64 (words0 b) (words0 x) 0 = (d0, c0)" by fastforce
  obtain d1 c1 where s1: "Sub64 (words1 b) (words1 x) c0 = (d1, c1)" by fastforce
  obtain d2 c2 where s2: "Sub64 (words2 b) (words2 x) c1 = (d2, c2)" by fastforce
  obtain d3 c3 where s3: "Sub64 (words3 b) (words3 x) c2 = (d3, c3)" by fastforce
  note e0 = Sub64_spec [OF _ s0, simplified]
  note e1 = Sub64_spec [OF e0(2) s1]
  note e2 = Sub64_spec [OF e1(2) s2]
  note e3 = Sub64_spec [OF e2(2) s3]
  define D where "D = uint d0 + 2 ^ 64 * uint d1 + 2 ^ 128 * uint d2 + 2 ^ 192 * uint d3"
  have diff: "ba_value b - ba_value x = D - 2 ^ 256 * uint c3"
    using e0(1) e1(1) e2(1) e3(1) by (simp add: ba_value_def D_def)
  have r: "0 \<le> uint d0" "uint d0 < 2 ^ 64" "0 \<le> uint d1" "uint d1 < 2 ^ 64"
    "0 \<le> uint d2" "uint d2 < 2 ^ 64" "0 \<le> uint d3" "uint d3 < 2 ^ 64"
    by (rule uint64_range)+
  have "0 \<le> D" "D < 2 ^ 256" using r by (simp_all add: D_def)
  have D0: "D = 0 \<longleftrightarrow> d0 = 0 \<and> d1 = 0 \<and> d2 = 0 \<and> d3 = 0"
  proof
    assume "D = 0"
    then have "uint d0 = 0" "uint d1 = 0" "uint d2 = 0" "uint d3 = 0" using r(1,3,5,7) by (simp_all add: D_def add_nonneg_eq_0_iff)
    then show "d0 = 0 \<and> d1 = 0 \<and> d2 = 0 \<and> d3 = 0" by (simp add: uint_0_iff)
  qed (simp add: D_def)
  have "0 \<le> uint c3" by simp
  then consider "uint c3 = 0" | "uint c3 = 1" using e3(2) by linarith
  then show ?thesis
  proof cases
    case 1
    then have "c3 = 0" "ba_value b - ba_value x = D" using diff by (simp_all add: uint_0_iff)
    then show ?thesis using True s0 s1 s2 s3 \<open>0 \<le> D\<close> D0 by (simp add: Cmp_def or4_zero sgn_if)
  next
    case 2
    then have "c3 = 1" by (metis unsigned_1 word_uint_eq_iff)
    moreover have "ba_value b - ba_value x < 0" using diff 2 \<open>D < 2 ^ 256\<close> by simp
    ultimately show ?thesis using True s0 s1 s2 s3 by (simp add: Cmp_def)
  qed
next
  case False
  then show ?thesis by (auto simp: Cmp_def)
qed

end
