(* ===== verification/Bit_Array_Codec.thy ===== *)
theory Bit_Array_Codec
  imports Bit_Array_Order
begin

unbundle bit_operations_syntax

text \<open>
  Byte encodings of bit arrays (\<open>core/trie/bitarray.go\<close>): the 32 bytes of the words, the
  database encoding of \<open>Write\<close> and \<open>UnmarshalBinary\<close>, and \<open>SetBytes\<close>, which reads any
  number of bytes with one branch per length. A byte byte_slice is a list of bytes. Big-endian
  reads and writes of \<open>encoding/binary\<close> are \<open>be_uint\<close> and \<open>be_bytes64\<close>; \<open>feltBytes\<close> is
  \<open>felt.Bytes\<close>, the 32 big-endian bytes of a field element.
\<close>

section \<open>Big-endian words\<close>

definition be_bytes64 :: "uint64 \<Rightarrow> uint8 list" where
  "be_bytes64 w = [ucast (shr w 56), ucast (shr w 48), ucast (shr w 40), ucast (shr w 32),
     ucast (shr w 24), ucast (shr w 16), ucast (shr w 8), ucast w]"

definition be_uint :: "uint8 list \<Rightarrow> uint64" where
  "be_uint bs = foldl (\<lambda>acc x. shl acc 8 OR ucast x) 0 bs"

definition byte_slice :: "nat \<Rightarrow> nat \<Rightarrow> 'b list \<Rightarrow> 'b list" where
  "byte_slice i j xs = take (j - i) (drop i xs)"

definition bigEndianUint40 :: "uint8 list \<Rightarrow> uint64" where
  "bigEndianUint40 b = ucast (b ! 4) OR shl (ucast (b ! 3)) 8 OR shl (ucast (b ! 2)) 16 OR shl (ucast (b ! 1)) 24 OR
     shl (ucast (b ! 0)) 32"

definition bigEndianUint48 :: "uint8 list \<Rightarrow> uint64" where
  "bigEndianUint48 b = ucast (b ! 5) OR shl (ucast (b ! 4)) 8 OR shl (ucast (b ! 3)) 16 OR shl (ucast (b ! 2)) 24 OR
     shl (ucast (b ! 1)) 32 OR shl (ucast (b ! 0)) 40"

definition bigEndianUint56 :: "uint8 list \<Rightarrow> uint64" where
  "bigEndianUint56 b = ucast (b ! 6) OR shl (ucast (b ! 5)) 8 OR shl (ucast (b ! 4)) 16 OR shl (ucast (b ! 3)) 24 OR
     shl (ucast (b ! 2)) 32 OR shl (ucast (b ! 1)) 40 OR shl (ucast (b ! 0)) 48"

section \<open>Encodings\<close>

definition Bytes :: "bit_array \<Rightarrow> uint8 list" where
  "Bytes b = be_bytes64 (words3 b) @ be_bytes64 (words2 b) @ be_bytes64 (words1 b) @ be_bytes64 (words0 b)"

definition byteCount :: "bit_array \<Rightarrow> nat" where
  "byteCount b = (unat (ba_len b) + (8 - 1)) div 8"

definition activeBytes :: "bit_array \<Rightarrow> uint8 list" where
  "activeBytes b = drop (32 - byteCount b) (Bytes b)"

definition EncodedLen :: "bit_array \<Rightarrow> nat" where
  "EncodedLen b = byteCount b + 1"

definition EncodedString :: "bit_array \<Rightarrow> uint8 list" where
  "EncodedString b = ba_len b # Bytes b"

text \<open>Writing to a \<open>bytes.Buffer\<close> appends and does not fail.\<close>

definition Write :: "bit_array \<Rightarrow> uint8 list \<Rightarrow> nat \<times> uint8 list" where
  "Write b buf = (let bs = activeBytes b in (length bs + 1, buf @ [ba_len b] @ bs))"

text \<open>\<open>setBytes32\<close> panics on fewer than 32 bytes; its callers pass at least 32.\<close>

definition setBytes32 :: "bit_array \<Rightarrow> uint8 list \<Rightarrow> bit_array" where
  "setBytes32 b data = b\<lparr>words3 := be_uint (byte_slice 0 8 data), words2 := be_uint (byte_slice 8 16 data),
     words1 := be_uint (byte_slice 16 24 data), words0 := be_uint (byte_slice 24 32 data)\<rparr>"

datatype decode_error = EmptyData | InvalidDataLength nat nat

definition UnmarshalBinary :: "bit_array \<Rightarrow> uint8 list \<Rightarrow> decode_error + bit_array" where
  "UnmarshalBinary b data =
     (if data = [] then Inl EmptyData
      else let l = data ! 0; byteCount = (unat l + 7) div 8
           in if length data < byteCount + 1 then Inl (InvalidDataLength (length data) (byteCount + 1))
              else let bs = replicate (32 - byteCount) 0 @ take byteCount (drop 1 data)
                   in Inr (setBytes32 (b\<lparr>ba_len := l\<rparr>) bs))"

definition setFelt :: "('f \<Rightarrow> uint8 list) \<Rightarrow> bit_array \<Rightarrow> 'f \<Rightarrow> bit_array" where
  "setFelt feltBytes b f = (let res = feltBytes f in
     b\<lparr>words3 := be_uint (byte_slice 0 8 res), words2 := be_uint (byte_slice 8 16 res),
       words1 := be_uint (byte_slice 16 24 res), words0 := be_uint (byte_slice 24 32 res)\<rparr>)"

definition SetFelt :: "('f \<Rightarrow> uint8 list) \<Rightarrow> bit_array \<Rightarrow> uint8 \<Rightarrow> 'f \<Rightarrow> bit_array" where
  "SetFelt feltBytes b l f = truncateToLength (setFelt feltBytes (b\<lparr>ba_len := l\<rparr>) f)"

definition SetFelt251 :: "('f \<Rightarrow> uint8 list) \<Rightarrow> bit_array \<Rightarrow> 'f \<Rightarrow> bit_array" where
  "SetFelt251 feltBytes b f = truncateToLength (setFelt feltBytes (b\<lparr>ba_len := 251\<rparr>) f)"

text \<open>\<open>Felt\<close> reads the 32 bytes back; \<open>feltSetBytes\<close> is \<open>felt.SetBytes\<close>.\<close>

definition Felt :: "(uint8 list \<Rightarrow> 'f) \<Rightarrow> bit_array \<Rightarrow> 'f" where
  "Felt feltSetBytes b = feltSetBytes (Bytes b)"

text \<open>The words \<open>SetBytes\<close> reads from fewer than 32 bytes, most significant first.\<close>

definition SetBytes_words :: "uint8 list \<Rightarrow> uint64 \<times> uint64 \<times> uint64 \<times> uint64" where
  "SetBytes_words data =
     (let l = length data; u8 = (\<lambda>i. ucast (data ! i)); be = (\<lambda>(i, j). be_uint (byte_slice i j data))
      in if l = 0 then (0, 0, 0, 0)
        else if l = 1 then (0, 0, 0, u8 0)
        else if l = 2 then (0, 0, 0, be (0, 2))
        else if l = 3 then (0, 0, 0, be (1, 3) OR shl (u8 0) 16)
        else if l = 4 then (0, 0, 0, be (0, 4))
        else if l = 5 then (0, 0, 0, bigEndianUint40 (byte_slice 0 5 data))
        else if l = 6 then (0, 0, 0, bigEndianUint48 (byte_slice 0 6 data))
        else if l = 7 then (0, 0, 0, bigEndianUint56 (byte_slice 0 7 data))
        else if l = 8 then (0, 0, 0, be (0, 8))
        else if l = 9 then (0, 0, u8 0, be (1, 9))
        else if l = 10 then (0, 0, be (0, 2), be (2, 10))
        else if l = 11 then (0, 0, be (1, 3) OR shl (u8 0) 16, be (3, 11))
        else if l = 12 then (0, 0, be (0, 4), be (4, 12))
        else if l = 13 then (0, 0, bigEndianUint40 (byte_slice 0 5 data), be (5, 13))
        else if l = 14 then (0, 0, bigEndianUint48 (byte_slice 0 6 data), be (6, 14))
        else if l = 15 then (0, 0, bigEndianUint56 (byte_slice 0 7 data), be (7, 15))
        else if l = 16 then (0, 0, be (0, 8), be (8, 16))
        else if l = 17 then (0, u8 0, be (1, 9), be (9, 17))
        else if l = 18 then (0, be (0, 2), be (2, 10), be (10, 18))
        else if l = 19 then (0, be (1, 3) OR shl (u8 0) 16, be (3, 11), be (11, 19))
        else if l = 20 then (0, be (0, 4), be (4, 12), be (12, 20))
        else if l = 21 then (0, bigEndianUint40 (byte_slice 0 5 data), be (5, 13), be (13, 21))
        else if l = 22 then (0, bigEndianUint48 (byte_slice 0 6 data), be (6, 14), be (14, 22))
        else if l = 23 then (0, bigEndianUint56 (byte_slice 0 7 data), be (7, 15), be (15, 23))
        else if l = 24 then (0, be (0, 8), be (8, 16), be (16, 24))
        else if l = 25 then (u8 0, be (1, 9), be (9, 17), be (17, 25))
        else if l = 26 then (be (0, 2), be (2, 10), be (10, 18), be (18, 26))
        else if l = 27 then (be (1, 3) OR shl (u8 0) 16, be (3, 11), be (11, 19), be (19, 27))
        else if l = 28 then (be (0, 4), be (4, 12), be (12, 20), be (20, 28))
        else if l = 29 then (bigEndianUint40 (byte_slice 0 5 data), be (5, 13), be (13, 21), be (21, 29))
        else if l = 30 then (bigEndianUint48 (byte_slice 0 6 data), be (6, 14), be (14, 22), be (22, 30))
        else if l = 31 then (bigEndianUint56 (byte_slice 0 7 data), be (7, 15), be (15, 23), be (23, 31))
        else (be (0, 8), be (8, 16), be (16, 24), be (24, 32)))"

definition SetBytes :: "uint8 \<Rightarrow> uint8 list \<Rightarrow> bit_array" where
  "SetBytes l data =
     (case SetBytes_words data of (w3, w2, w1, w0) \<Rightarrow>
        truncateToLength \<lparr>ba_len = l, words0 = w0, words1 = w1, words2 = w2, words3 = w3\<rparr>)"

section \<open>Reading and writing words\<close>

lemma be_uint_Nil [simp]: "be_uint [] = 0"
  by (simp add: be_uint_def)

lemma be_uint_snoc: "be_uint (xs @ [x]) = shl (be_uint xs) 8 OR ucast x"
  by (simp add: be_uint_def)

lemma be_uint_zeros [simp]: "be_uint (replicate n 0 @ xs) = be_uint xs"
proof -
  have "foldl (\<lambda>acc x. shl acc 8 OR ucast x) 0 (replicate n (0 :: uint8)) = 0" by (induction n) simp_all
  then show ?thesis by (simp add: be_uint_def)
qed

lemma be_uint_replicate [simp]: "be_uint (replicate n 0) = 0"
  using be_uint_zeros [of n "[]"] by simp

lemma be_uint_zero_Cons [simp]: "be_uint (0 # xs) = be_uint xs"
  using be_uint_zeros [of 1 xs] by simp

text \<open>The hand-written readers are the generic one.\<close>

lemmas be_ac = push_bit_or push_bit_push_bit or.assoc or.left_commute or.commute

lemma bigEndianUint40_be: "length b = 5 \<Longrightarrow> bigEndianUint40 b = be_uint b"
proof -
  assume "length b = 5"
  then obtain p q r s t where b: "b = [p, q, r, s, t]" by (auto simp: numeral_eq_Suc length_Suc_conv)
  show ?thesis by (simp add: b bigEndianUint40_def be_uint_def be_ac)
qed

lemma bigEndianUint48_be: "length b = 6 \<Longrightarrow> bigEndianUint48 b = be_uint b"
proof -
  assume "length b = 6"
  then obtain p q r s t u where b: "b = [p, q, r, s, t, u]" by (auto simp: numeral_eq_Suc length_Suc_conv)
  show ?thesis by (simp add: b bigEndianUint48_def be_uint_def be_ac)
qed

lemma bigEndianUint56_be: "length b = 7 \<Longrightarrow> bigEndianUint56 b = be_uint b"
proof -
  assume "length b = 7"
  then obtain p q r s t u v where b: "b = [p, q, r, s, t, u, v]" by (auto simp: numeral_eq_Suc length_Suc_conv)
  show ?thesis by (simp add: b bigEndianUint56_def be_uint_def be_ac)
qed

lemma length_byte_slice [simp]: "j \<le> length xs \<Longrightarrow> length (byte_slice i j xs) = j - i"
  by (simp add: byte_slice_def)

lemma byte_slice_empty [simp]: "byte_slice i i xs = []"
  by (simp add: byte_slice_def)

lemma be_uint_head: "0 < length d \<Longrightarrow> be_uint (byte_slice 0 (Suc 0) d) = ucast (d ! 0)"
  by (cases d) (simp_all add: be_uint_def byte_slice_def)

lemma be_uint_3:
  assumes "3 \<le> length d"
  shows "be_uint (byte_slice (Suc 0) 3 d) OR shl (ucast (d ! 0)) 16 = be_uint (byte_slice 0 3 d)"
proof -
  obtain p q r rest where "d = p # q # r # rest"
    using assms by (auto simp: numeral_eq_Suc Suc_le_length_iff)
  then show ?thesis by (simp add: byte_slice_def be_uint_def be_ac)
qed

lemma be_uint_slice_pad:
  assumes "i \<le> j"
  shows "be_uint (byte_slice i j (replicate n 0 @ d)) = be_uint (byte_slice (i - n) (j - n) d)"
proof -
  have "j - i - (n - i) = j - n - (i - n)" using assms by linarith
  then show ?thesis by (simp add: byte_slice_def)
qed

lemma SetBytes_words_pad:
  assumes "length data \<le> 32"
  defines "p \<equiv> replicate (32 - length data) 0 @ data"
  shows "SetBytes_words data =
    (be_uint (byte_slice 0 8 p), be_uint (byte_slice 8 16 p), be_uint (byte_slice 16 24 p), be_uint (byte_slice 24 32 p))"
proof -
  let ?l = "length data"
  have "?l = 0 \<or> ?l = 1 \<or> ?l = 2 \<or> ?l = 3 \<or> ?l = 4 \<or> ?l = 5 \<or> ?l = 6 \<or> ?l = 7 \<or> ?l = 8
    \<or> ?l = 9 \<or> ?l = 10 \<or> ?l = 11 \<or> ?l = 12 \<or> ?l = 13 \<or> ?l = 14 \<or> ?l = 15 \<or> ?l = 16
    \<or> ?l = 17 \<or> ?l = 18 \<or> ?l = 19 \<or> ?l = 20 \<or> ?l = 21 \<or> ?l = 22 \<or> ?l = 23 \<or> ?l =
    24 \<or> ?l = 25 \<or> ?l = 26 \<or> ?l = 27 \<or> ?l = 28 \<or> ?l = 29 \<or> ?l = 30 \<or> ?l = 31 \<or> ?l
    = 32" using assms(1) by presburger
  then have "SetBytes_words data = (be_uint (byte_slice 0 (8 - (32 - ?l)) data),
      be_uint (byte_slice (8 - (32 - ?l)) (16 - (32 - ?l)) data),
      be_uint (byte_slice (16 - (32 - ?l)) (24 - (32 - ?l)) data),
      be_uint (byte_slice (24 - (32 - ?l)) (32 - (32 - ?l)) data))"
    by (elim disjE) (simp_all add: SetBytes_words_def be_uint_head be_uint_3
        bigEndianUint40_be bigEndianUint48_be bigEndianUint56_be del: length_0_conv)
  then show ?thesis unfolding p_def by (simp add: be_uint_slice_pad)
qed

section \<open>Values of byte lists\<close>

definition be_value :: "uint8 list \<Rightarrow> int" where
  "be_value bs = foldl (\<lambda>a x. a * 256 + uint x) 0 bs"

lemma be_value_simps [simp]: "be_value [] = 0" "be_value (xs @ [x]) = be_value xs * 256 + uint x"
  by (simp_all add: be_value_def)

lemma be_value_append: "be_value (xs @ ys) = be_value xs * 256 ^ length ys + be_value ys"
proof (induction ys rule: rev_induct)
  case (snoc y ys)
  have "be_value (xs @ ys @ [y]) = be_value (xs @ ys) * 256 + uint y"
    using be_value_simps(2) [of "xs @ ys" y] by simp
  with snoc show ?case by (simp add: algebra_simps)
qed simp

lemma uint8_range: "0 \<le> uint w" "uint (w :: uint8) < 256"
proof -
  have "uint w < 2 ^ LENGTH(8)" by (rule unsigned_less)
  then show "uint w < 256" by simp
qed simp

lemma be_value_bound: "0 \<le> be_value xs \<and> be_value xs < 256 ^ length xs"
proof (induction xs rule: rev_induct)
  case (snoc x xs)
  with uint8_range [of x] show ?case by simp
qed simp

lemma be_value_0: "be_value xs = 0 \<Longrightarrow> xs = replicate (length xs) 0"
proof (induction xs rule: rev_induct)
  case (snoc x xs)
  with be_value_bound [of xs] uint8_range [of x] have "be_value xs = 0" "uint x = 0" by (simp_all add: add_nonneg_eq_0_iff)
  then have "xs = replicate (length xs) 0" "x = 0" using snoc.IH by (simp_all add: uint_0_iff)
  then show ?case by (metis length_append_singleton replicate_Suc replicate_append_same)
qed simp

lemma be_value_zeros [simp]: "be_value (replicate n 0 @ xs) = be_value xs" "be_value (replicate n 0) = 0"
proof -
  show "be_value (replicate n 0) = 0"
  proof (induction n)
    case (Suc n)
    have "replicate (Suc n) (0 :: uint8) = replicate n 0 @ [0]" by (simp add: replicate_append_same)
    with Suc show ?case by (simp only: be_value_simps) simp
  qed simp
  then show "be_value (replicate n 0 @ xs) = be_value xs" by (simp add: be_value_append)
qed

lemma uint_be_uint: "length bs \<le> 8 \<Longrightarrow> uint (be_uint bs) = be_value bs"
proof (induction bs rule: rev_induct)
  case (snoc x xs)
  have v: "uint (be_uint xs) = be_value xs" using snoc by simp
  have "be_value xs < 256 ^ length xs" using be_value_bound by blast
  also have "(256 :: int) ^ length xs \<le> 256 ^ 7" using snoc.prems by (intro power_increasing) simp_all
  finally have lt: "uint (be_uint xs) * 256 < 2 ^ 64" by (simp add: v)
  have "uint (shl (be_uint xs) 8) = uint (be_uint xs) * 256"
    using lt by (simp add: push_bit_eq_mult uint_word_ariths)
  moreover have "shl (be_uint xs) 8 OR ucast x = shl (be_uint xs) 8 + (ucast x :: uint64)"
    by (rule disjunctive_add [symmetric]) (auto simp: bit_push_bit_iff bit_ucast_iff dest: bit_imp_le_length)
  moreover have "uint (ucast x :: uint64) = uint x"
    using uint8_range [of x] by (simp add: unsigned_ucast_eq take_bit_int_eq_self)
  moreover have "(be_value xs * 256 + uint x) mod 2 ^ 64 = be_value xs * 256 + uint x"
    using lt uint8_range [of x] be_value_bound [of xs] v by (intro mod_pos_pos_trivial) simp_all
  ultimately show ?case by (simp add: be_uint_snoc uint_word_ariths v)
qed simp

lemma length_be_bytes64 [simp]: "length (be_bytes64 w) = 8"
  by (simp add: be_bytes64_def)

lemma uint_byte: "uint (ucast (shr w n) :: uint8) = uint w div 2 ^ n mod 256"
proof -
  have "uint (shr w n) = drop_bit n (uint w)" by (simp add: unsigned_drop_bit_eq take_bit_uint_eq)
  then have "uint (shr w n) = uint w div 2 ^ n" by (simp only: drop_bit_eq_div)
  then show ?thesis by (simp only: unsigned_ucast_eq take_bit_eq_mod) simp
qed

lemma be_value_be_bytes64: "be_value (be_bytes64 w) = uint w"
proof -
  define q where "q n = uint w div 2 ^ n" for n
  have step: "q (n + 8) * 256 + q n mod 256 = q n" for n
  proof -
    have "q (n + 8) = q n div 256" by (simp add: q_def power_add zdiv_zmult2_eq)
    then show ?thesis by (simp add: div_mult_mod_eq)
  qed
  have "q 64 = 0" using uint64_range [of w] by (simp add: q_def)
  with step [of 56] have top: "q 56 mod 256 = q 56" by simp
  have byte: "uint (ucast (shr w n) :: uint8) = q n mod 256" for n by (simp add: uint_byte q_def)
  have low: "uint (ucast w :: uint8) = q 0 mod 256" using byte [of 0] by simp
  have "be_value (be_bytes64 w) = ((((((q 56 mod 256 * 256 + q 48 mod 256) * 256 + q 40 mod 256) * 256 +
      q 32 mod 256) * 256 + q 24 mod 256) * 256 + q 16 mod 256) * 256 + q 8 mod 256) * 256 + q 0 mod 256"
    by (simp only: be_value_def be_bytes64_def foldl.simps byte low mult_zero_left add_0)
  also have "\<dots> = q 0"
    using step [of 48] step [of 40] step [of 32] step [of 24] step [of 16] step [of 8] step [of 0]
    by (simp only: top) simp
  finally show ?thesis by (simp add: q_def)
qed

lemma be_uint_be_bytes64: "be_uint (be_bytes64 w) = w"
  using uint_be_uint [of "be_bytes64 w"] by (simp add: be_value_be_bytes64 word_uint_eq_iff)

lemma length_Bytes [simp]: "length (Bytes b) = 32"
  by (simp add: Bytes_def)

lemma be_value_Bytes: "be_value (Bytes b) = ba_value b"
  by (simp add: Bytes_def be_value_append be_value_be_bytes64 ba_value_def)

section \<open>Round trips\<close>

lemma slices_Bytes [simp]:
  "byte_slice 0 8 (Bytes b) = be_bytes64 (words3 b)" "byte_slice 8 16 (Bytes b) = be_bytes64 (words2 b)"
  "byte_slice 16 24 (Bytes b) = be_bytes64 (words1 b)" "byte_slice 24 32 (Bytes b) = be_bytes64 (words0 b)"
  by (simp_all add: byte_slice_def Bytes_def)

lemma setBytes32_Bytes: "setBytes32 (x\<lparr>ba_len := ba_len b\<rparr>) (Bytes b) = b"
  by (cases b; cases x) (simp add: setBytes32_def be_uint_be_bytes64)

lemma byteCount_le: "byteCount b \<le> 32"
  using uint8_lt [of "ba_len b"] by (simp add: byteCount_def)

lemma ba_value_lt: "ba_ok b \<Longrightarrow> ba_value b < 256 ^ byteCount b"
proof -
  assume "ba_ok b"
  then have "ba_value b < 2 ^ unat (ba_len b)" using bin_value_bound [of "ba_bits b"] by (simp add: ba_value_bits)
  also have "\<dots> \<le> (2 :: int) ^ (8 * byteCount b)"
  proof (rule power_increasing)
    show "unat (ba_len b) \<le> 8 * byteCount b" unfolding byteCount_def by presburger
  qed simp
  also have "\<dots> = 256 ^ byteCount b" by (simp add: power_mult)
  finally show ?thesis .
qed

text \<open>The bytes \<open>activeBytes\<close> leaves out are zero.\<close>

lemma pad_activeBytes:
  assumes "ba_ok b"
  shows "replicate (32 - byteCount b) 0 @ activeBytes b = Bytes b"
proof -
  let ?k = "byteCount b"
  let ?hi = "take (32 - ?k) (Bytes b)"
  have lo: "length (activeBytes b) = ?k" using byteCount_le [of b] by (simp add: activeBytes_def)
  have split: "?hi @ activeBytes b = Bytes b" by (simp add: activeBytes_def)
  have "ba_value b = be_value (?hi @ activeBytes b)" by (simp only: split be_value_Bytes)
  also have "\<dots> = be_value ?hi * 256 ^ ?k + be_value (activeBytes b)" by (simp add: be_value_append lo)
  finally have "be_value ?hi * 256 ^ ?k < 1 * 256 ^ ?k"
    using ba_value_lt [OF assms] be_value_bound [of "activeBytes b"] by linarith
  then have "be_value ?hi < 1" by (simp only: mult_less_cancel_right) simp
  with be_value_bound [of ?hi] have "?hi = replicate (length ?hi) 0" by (intro be_value_0) linarith
  moreover have "length ?hi = 32 - ?k" by simp
  ultimately show ?thesis using split by metis
qed

lemma UnmarshalBinary_encoded:
  assumes "ba_ok b"
  shows "UnmarshalBinary x (ba_len b # activeBytes b @ rest) = Inr b"
proof -
  let ?k = "byteCount b"
  have k: "(unat (ba_len b) + 7) div 8 = ?k" by (simp add: byteCount_def)
  have len: "length (activeBytes b) = ?k" using byteCount_le [of b] by (simp add: activeBytes_def)
  then have "take ?k (activeBytes b @ rest) = activeBytes b" by simp
  then show ?thesis
    by (simp add: UnmarshalBinary_def Let_def k len pad_activeBytes [OF assms] setBytes32_Bytes)
qed

lemma ba_value_truncate: "ba_value (truncateToLength b) = ba_value b mod 2 ^ unat (ba_len b)"
proof -
  have "ba_value (truncateToLength b) = take_bit (unat (ba_len b)) (ba_value b)"
    by (rule bit_eqI) (simp add: bit_ba_value bit_take_bit_iff)
  then show ?thesis by (simp only: take_bit_eq_mod)
qed

lemma be_value_slices:
  assumes "length p = 32"
  shows "be_value p = uint (be_uint (byte_slice 24 32 p)) + 2 ^ 64 * uint (be_uint (byte_slice 16 24 p)) +
    2 ^ 128 * uint (be_uint (byte_slice 8 16 p)) + 2 ^ 192 * uint (be_uint (byte_slice 0 8 p))"
proof -
  have "p = byte_slice 0 8 p @ byte_slice 8 16 p @ byte_slice 16 24 p @ byte_slice 24 32 p"
    using assms by (simp add: byte_slice_def flip: append_assoc) (simp flip: take_add)
  then have "be_value p = be_value (byte_slice 0 8 p @ byte_slice 8 16 p @ byte_slice 16 24 p @ byte_slice 24 32 p)"
    by metis
  then show ?thesis using assms by (simp add: be_value_append uint_be_uint)
qed

lemma SetBytes_value:
  assumes "length data \<le> 32"
  shows "ba_value (SetBytes l data) = be_value data mod 2 ^ unat l" "ba_len (SetBytes l data) = l" "ba_ok (SetBytes l data)"
proof -
  let ?p = "replicate (32 - length data) 0 @ data"
  have "length ?p = 32" using assms by simp
  from be_value_slices [OF this] show "ba_value (SetBytes l data) = be_value data mod 2 ^ unat l"
    by (simp add: SetBytes_def SetBytes_words_pad [OF assms] ba_value_truncate) (simp add: ba_value_def)
  show "ba_len (SetBytes l data) = l" "ba_ok (SetBytes l data)" by (simp_all add: SetBytes_def split_beta)
qed

lemma SetBytes_long:
  assumes "32 \<le> length data"
  shows "SetBytes l data = SetBytes l (take 32 data)"
proof -
  obtain n where "length data = 32 + n" using assms by (auto simp: le_iff_add)
  then have "SetBytes_words data = (be_uint (byte_slice 0 8 data), be_uint (byte_slice 8 16 data),
      be_uint (byte_slice 16 24 data), be_uint (byte_slice 24 32 data))"
    by (simp add: SetBytes_words_def Let_def)
  moreover have "byte_slice i j data = byte_slice i j (take 32 data)" if "j \<le> 32" for i j
    using that by (simp add: byte_slice_def drop_take min_def)
  ultimately show ?thesis
    using SetBytes_words_pad [of "take 32 data"] assms by (simp add: SetBytes_def)
qed

end
