(* ===== verification/Bit_Array_Contract.thy ===== *)
theory Bit_Array_Contract
  imports Bit_Array_Codec
begin

text \<open>
  The contract of the bit arrays: their operations on lists of bits, their order, their
  encoding, and what happens at the limits of the length byte.
\<close>

text \<open>The bits 10110 and 1010, for examples.\<close>

definition b10110 :: bit_array where
  "b10110 = NewBitArray 5 22"

definition b1010 :: bit_array where
  "b1010 = NewBitArray 4 10"

lemma examples_ok: "ba_ok b10110" "ba_ok b1010"
  by (simp_all add: b10110_def b1010_def NewBitArray_def SetUint64_def)

lemma examples_bits: "ba_bits b10110 = [True, False, True, True, False]" "ba_bits b1010 = [True, False, True, False]"
  by code_simp+

text \<open>C9: \<open>CommonMSBs\<close> computes the longest common prefix of its operands, in canonical form, by a single xor
  and a search for the first set bit.\<close>

theorem common_msbs_lcp:
  assumes "ba_ok x" and "ba_ok y"
  shows "ba_bits (CommonMSBs x y) = longest_common_prefix (ba_bits x) (ba_bits y) \<and> ba_ok (CommonMSBs x y)"
  using CommonMSBs_bits [OF assms] by blast

theorem common_msbs_lcp_witness: "ba_bits (CommonMSBs b10110 b1010) = [True, False, True]"
  using common_msbs_lcp [OF examples_ok] examples_bits by simp

text \<open>C23: The bit arrays implement lists of bits: taking, dropping and selecting bits, comparing and
  testing them are the operations of lists, and two arrays are equal when their bits are.\<close>

theorem bit_array_refines_list:
  assumes "ba_ok x" and "ba_ok y"
  shows "ba_bits (MSBs x n) = take (unat n) (ba_bits x) \<and> ba_bits (LSBs x n) = drop (unat n) (ba_bits x) \<and>
    ba_bits (Subset x s e) = take (unat e - unat s) (drop (unat s) (ba_bits x)) \<and>
    (Equal (Some x) (Some y) \<longleftrightarrow> ba_bits x = ba_bits y) \<and>
    (EqualMSBs x y \<longleftrightarrow> prefix (ba_bits x) (ba_bits y) \<or> prefix (ba_bits y) (ba_bits x)) \<and>
    (unat n < length (ba_bits x) \<longrightarrow> IsBitSet x n = ba_bits x ! unat n) \<and>
    ba_ok (MSBs x n) \<and> ba_ok (LSBs x n) \<and> ba_ok (Subset x s e)"
  using ba_bits_MSBs [OF assms(1)] ba_bits_LSBs [OF assms(1)] Subset_bits [OF assms(1)] Equal_bits [OF assms]
    EqualMSBs_bits [OF assms] IsBitSet_nth [OF assms(1)] by blast

theorem bit_array_refines_list_witness:
  "ba_bits (MSBs b10110 2) = [True, False] \<and> ba_bits (LSBs b10110 2) = [True, True, False] \<and>
   ba_bits (Subset b10110 1 3) = [False, True] \<and> IsBitSet b10110 2 \<and>
   (Equal (Some b10110) (Some b1010) \<longleftrightarrow> False) \<and> (EqualMSBs b10110 b1010 \<longleftrightarrow> False)"
  using bit_array_refines_list [OF examples_ok, of 2 1 3] by (simp add: examples_bits)

text \<open>\<open>Append\<close> concatenates, and past the 255 bits a length byte can count keeps the 255 least
  significant ones: bits of the first operand are dropped without an error.\<close>

theorem append_saturates:
  assumes x: "ba_ok x" and y: "ba_ok y"
  shows "ba_bits (Append x y) = drop (length (ba_bits x) + length (ba_bits y) - 255) (ba_bits x @ ba_bits y) \<and>
    ba_ok (Append x y)"
proof (cases "unat (ba_len x) + unat (ba_len y) \<le> 255")
  case True
  then show ?thesis using Append_simps [OF x y True] by simp
next
  case False
  let ?l = "unat (ba_len x)" and ?m = "unat (ba_len y)"
  have bound: "?l \<le> 255" "?m \<le> 255" using uint8_lt [of "ba_len x"] uint8_lt [of "ba_len y"] by simp_all
  show ?thesis
  proof (cases "ba_len y = maxUint8")
    case True
    then show ?thesis using False y by (simp add: Append_def)
  next
    case ne: False
    have "?m \<noteq> 255" using ne unat_maxUint8 word_unat_eq_iff by metis
    with False bound have nz: "ba_len x \<noteq> 0" "ba_len y \<noteq> 0" "?m < 255" by auto
    then have app: "Append x y = Or (Lsh x (ba_len y)) y" using ne by (simp add: Append_def)
    have len: "unat (ba_len (Append x y)) = 255" using nz False by (simp add: app Lsh_simps(1))
    have at: "bit_at (Append x y) i \<longleftrightarrow> i < 255 \<and> (if i < ?m then bit_at y i else bit_at x (i - ?m))" for i
      using nz False ba_okD [OF y, of i] bound by (auto simp: app Lsh_simps(2))
    have "ba_bits (Append x y) ! i = drop (?l + ?m - 255) (ba_bits x @ ba_bits y) ! i" if "i < 255" for i
    proof (cases "i < 255 - ?m")
      case True
      moreover have "?l + ?m - 255 + i < ?l" using True False by linarith
      moreover from this have "?l - Suc (?l + ?m - 255 + i) = 254 - i - ?m" using False True by linarith
      moreover have "\<not> 254 - i < ?m" "254 - i < 255" using True by linarith+
      ultimately show ?thesis using that False len bound
        by (simp add: nth_ba_bits at nth_append)
    next
      case i: False
      then have "\<not> ?l + ?m - 255 + i < ?l" "?l + ?m - 255 + i - ?l < ?m" using False bound that nz(3) by linarith+
      moreover from i this have "?m - Suc (?l + ?m - 255 + i - ?l) = 254 - i" using False bound by linarith
      moreover have "254 - i < ?m" "254 - i < 255" using i that by linarith+
      ultimately show ?thesis using that False len bound i by (simp add: nth_ba_bits at nth_append)
    qed
    moreover have "ba_ok (Append x y)" by (simp add: ba_ok_def len at)
    ultimately show ?thesis using len False by (auto intro!: nth_equalityI)
  qed
qed

theorem append_saturates_witness:
  "ba_bits (Append b1010 b10110) = [True, False, True, False, True, False, True, True, False] \<and>
   ba_bits (Append b1010 (Zeros 255)) = replicate 255 False"
  using append_saturates [OF examples_ok(2) examples_ok(1)]
    append_saturates [OF examples_ok(2) ba_bits_Zeros(2) [of 255]]
  by (simp add: examples_bits ba_bits_Zeros(1))

text \<open>C29: \<open>Cmp\<close> orders bit arrays by length and then by their bits from the most significant one, and is zero
  exactly for equal arrays.\<close>

theorem cmp_order:
  assumes "ba_ok x" and "ba_ok y"
  shows "(Cmp x y = -1 \<longleftrightarrow> length (ba_bits x) < length (ba_bits y) \<or>
      length (ba_bits x) = length (ba_bits y) \<and> (ba_bits x, ba_bits y) \<in> lexord {(False, True)}) \<and>
    (Cmp x y = 0 \<longleftrightarrow> x = y) \<and> Cmp y x = - Cmp x y \<and> Cmp x y \<in> {-1, 0, 1}"
proof -
  have lt: "ba_len x < ba_len y \<longleftrightarrow> length (ba_bits x) < length (ba_bits y)"
    "ba_len y < ba_len x \<longleftrightarrow> length (ba_bits y) < length (ba_bits x)" by (simp_all add: word_less_nat_alt)
  have val: "ba_value x = bin_value (ba_bits x)" "ba_value y = bin_value (ba_bits y)" using ba_value_bits assms by simp_all
  have eq: "x = y" if "length (ba_bits x) = length (ba_bits y)" "ba_value x = ba_value y"
    using that by (intro bit_array_eqI) (simp_all add: bit_ba_value [symmetric] word_unat_eq_iff)
  have anti: "sgn (ba_value y - ba_value x) = - sgn (ba_value x - ba_value y)" by (simp add: sgn_if)
  have "Cmp x y = -1 \<longleftrightarrow> length (ba_bits x) < length (ba_bits y) \<or>
      length (ba_bits x) = length (ba_bits y) \<and> (ba_bits x, ba_bits y) \<in> lexord {(False, True)}"
    using bin_value_less [of "ba_bits x" "ba_bits y"]
    by (auto simp only: Cmp_value lt val split: if_split) (auto simp: sgn_if split: if_splits)
  moreover have "Cmp x y = 0 \<longleftrightarrow> x = y"
    using eq by (auto simp: Cmp_value lt sgn_if split: if_splits)
  moreover have "Cmp y x = - Cmp x y" using anti by (auto simp: Cmp_value)
  moreover have "Cmp x y \<in> {-1, 0, 1}" by (auto simp: Cmp_value sgn_if)
  ultimately show ?thesis by blast
qed

theorem cmp_order_witness: "Cmp b10110 b1010 = 1 \<and> Cmp b1010 b10110 = -1"
  using cmp_order [OF examples_ok] cmp_order [OF examples_ok(2) examples_ok(1)] by (simp add: examples_bits)

text \<open>C26: Encoding. \<open>Write\<close> appends at most 32 bytes after the length byte, and \<open>UnmarshalBinary\<close> reads the same
  array back from them, whatever receiver it is given and whatever follows.\<close>

theorem bit_array_roundtrip:
  assumes "ba_ok b"
  shows "UnmarshalBinary x (drop (length buf) (snd (Write b buf)) @ rest) = Inr b \<and>
    fst (Write b buf) = EncodedLen b \<and> length (snd (Write b buf)) = length buf + EncodedLen b \<and> EncodedLen b \<le> 33"
proof -
  have "length (activeBytes b) = byteCount b" using byteCount_le [of b] by (simp add: activeBytes_def)
  then show ?thesis using UnmarshalBinary_encoded [OF assms, of x rest] byteCount_le [of b]
    by (simp add: Write_def Let_def EncodedLen_def)
qed

theorem bit_array_roundtrip_witness:
  "UnmarshalBinary emptyBitArray (drop 1 (snd (Write b10110 [9])) @ [1, 2]) = Inr b10110 \<and> fst (Write b10110 [9]) = EncodedLen b10110"
  using bit_array_roundtrip [OF examples_ok(1), of emptyBitArray "[9]" "[1, 2]"] by simp

text \<open>Decoding fails exactly on data without a length byte or with fewer bytes than the length byte asks
  for, and otherwise reads the big-endian value of those bytes without looking at the rest. It
  does not clear bits above the length, so the result is canonical only if that value fits.\<close>

theorem unmarshal_total:
  "UnmarshalBinary x [] = Inl EmptyData \<and>
   (let n = (unat l + 7) div 8 in
     if length d < n then UnmarshalBinary x (l # d) = Inl (InvalidDataLength (length d + 1) (n + 1))
     else \<exists>b. UnmarshalBinary x (l # d) = Inr b \<and> ba_len b = l \<and> ba_value b = be_value (take n d) \<and>
       (ba_ok b \<longleftrightarrow> be_value (take n d) < 2 ^ unat l))"
proof -
  let ?n = "(unat l + 7) div 8"
  have "UnmarshalBinary x [] = Inl EmptyData" by (simp add: UnmarshalBinary_def)
  moreover have "UnmarshalBinary x (l # d) = Inl (InvalidDataLength (length d + 1) (?n + 1))" if "length d < ?n"
    using that by (simp add: UnmarshalBinary_def Let_def)
  moreover have "\<exists>b. UnmarshalBinary x (l # d) = Inr b \<and> ba_len b = l \<and> ba_value b = be_value (take ?n d) \<and>
       (ba_ok b \<longleftrightarrow> be_value (take ?n d) < 2 ^ unat l)" if n: "\<not> length d < ?n"
  proof -
    let ?p = "replicate (32 - ?n) 0 @ take ?n d" and ?b = "setBytes32 (x\<lparr>ba_len := l\<rparr>) (replicate (32 - ?n) 0 @ take ?n d)"
    have "length ?p = 32" using n uint8_lt [of l] by simp
    from be_value_slices [OF this] have v: "ba_value ?b = be_value (take ?n d)"
      by (simp add: setBytes32_def ba_value_def)
    have "ba_len ?b = l" by (simp add: setBytes32_def)
    moreover have "ba_ok ?b \<longleftrightarrow> be_value (take ?n d) < 2 ^ unat l"
    proof
      assume "ba_ok ?b"
      then show "be_value (take ?n d) < 2 ^ unat l"
        using ba_value_bits [of ?b] bin_value_bound [of "ba_bits ?b"] v \<open>ba_len ?b = l\<close> by simp
    next
      assume lt: "be_value (take ?n d) < 2 ^ unat l"
      have "0 \<le> ba_value ?b" using v be_value_bound by simp
      then have "take_bit (unat l) (ba_value ?b) = ba_value ?b" using lt v by (simp add: take_bit_int_eq_self)
      then show "ba_ok ?b"
        unfolding ba_ok_def \<open>ba_len ?b = l\<close> by (metis bit_ba_value bit_take_bit_iff)
    qed
    moreover have "UnmarshalBinary x (l # d) = Inr ?b" using n by (simp add: UnmarshalBinary_def Let_def)
    ultimately show ?thesis using v by blast
  qed
  ultimately show ?thesis by (simp add: Let_def)
qed

text \<open>\<open>SetBytes\<close> reads any number of bytes through one of its 33 cases; the result has the length given, is
  canonical, and has the big-endian value of the first 32 bytes, modulo two to the length.\<close>

theorem set_bytes_value:
  "ba_len (SetBytes l data) = l \<and> ba_ok (SetBytes l data) \<and> ba_value (SetBytes l data) = be_value (take 32 data) mod 2 ^ unat l"
proof (cases "length data \<le> 32")
  case True
  then show ?thesis using SetBytes_value [OF True, of l] by simp
next
  case False
  then show ?thesis using SetBytes_long [of data l] SetBytes_value [of "take 32 data" l] by simp
qed

end
