(* ===== verification/Felt_Lib.thy ===== *)
theory Felt_Lib
  imports Bit_Array_Codec
begin

text \<open>
  The field elements of \<open>core/felt\<close>. The package forwards to the \<open>fp.Element\<close> of gnark-crypto,
  so its operations are a parameter of the model, a record; the locale \<open>felt_lib\<close> states
  what the code relies on: elements are the integers below a modulus, their bytes are
  32 big-endian bytes, and the arithmetic is that of the ring. The locale is interpreted
  on the prime field of Starknet and on the bytes, where examples are evaluated.
\<close>

record 'f felt_ops =
  feltModulus :: int
  feltBytes :: "'f \<Rightarrow> uint8 list"
  feltSetBytes :: "uint8 list \<Rightarrow> 'f"
  feltOfUint64 :: "uint64 \<Rightarrow> 'f"
  feltAdd :: "'f \<Rightarrow> 'f \<Rightarrow> 'f"
  feltSub :: "'f \<Rightarrow> 'f \<Rightarrow> 'f"
  feltExp :: "'f \<Rightarrow> nat \<Rightarrow> 'f"
  feltCmp :: "'f \<Rightarrow> 'f \<Rightarrow> int"

abbreviation feltZero :: "'f felt_ops \<Rightarrow> 'f" where
  "feltZero F \<equiv> feltOfUint64 F 0"

definition felt_val :: "'f felt_ops \<Rightarrow> 'f \<Rightarrow> int" where
  "felt_val F x = be_value (feltBytes F x)"

locale felt_lib =
  fixes F :: "'f felt_ops"
  assumes modulus: "1 < feltModulus F" "feltModulus F \<le> 2 ^ 256"
    and bytes_length: "length (feltBytes F x) = 32"
    and val_less: "felt_val F x < feltModulus F"
    and val_inj: "felt_val F x = felt_val F y \<Longrightarrow> x = y"
    and val_SetBytes: "felt_val F (feltSetBytes F bs) = be_value bs mod feltModulus F"
    and val_OfUint64: "felt_val F (feltOfUint64 F w) = uint w mod feltModulus F"
    and val_Add: "felt_val F (feltAdd F x y) = (felt_val F x + felt_val F y) mod feltModulus F"
    and val_Sub: "felt_val F (feltSub F x y) = (felt_val F x - felt_val F y) mod feltModulus F"
    and val_Exp: "felt_val F (feltExp F x n) = felt_val F x ^ n mod feltModulus F"
    and val_Cmp: "feltCmp F x y = sgn (felt_val F x - felt_val F y)"
begin

lemma val_nonneg: "0 \<le> felt_val F x"
  using be_value_bound by (simp add: felt_val_def)

lemma SetBytes_Bytes [simp]: "feltSetBytes F (feltBytes F x) = x"
proof (rule val_inj)
  show "felt_val F (feltSetBytes F (feltBytes F x)) = felt_val F x"
    using val_nonneg [of x] val_less [of x] by (simp add: val_SetBytes) (simp add: felt_val_def)
qed

lemma val_zero [simp]: "felt_val F (feltZero F) = 0"
  by (simp add: val_OfUint64)

lemma max_key:
  assumes "2 ^ h \<le> feltModulus F"
  shows "felt_val F (feltSub F (feltExp F (feltOfUint64 F 2) h) (feltOfUint64 F 1)) = 2 ^ h - 1"
proof -
  let ?m = "feltModulus F"
  have "((2 mod ?m) ^ h mod ?m - 1 mod ?m) mod ?m = (2 ^ h - 1) mod ?m"
    by (simp add: power_mod mod_diff_eq)
  also have "\<dots> = 2 ^ h - 1" using assms by (intro mod_pos_pos_trivial) simp_all
  finally show ?thesis by (simp add: val_Sub val_Exp val_OfUint64)
qed

end

section \<open>The Starknet field\<close>

definition stark_prime :: int where
  "stark_prime = 2 ^ 251 + 17 * 2 ^ 192 + 1"

lemma stark_prime_pos: "1 < stark_prime" "stark_prime \<le> 2 ^ 256"
  by (simp_all add: stark_prime_def)

typedef stark = "{0..<stark_prime}"
  by (rule exI [of _ 0]) (simp add: stark_prime_def)

setup_lifting type_definition_stark

fun int_bytes :: "nat \<Rightarrow> int \<Rightarrow> uint8 list" where
  "int_bytes 0 v = []"
| "int_bytes (Suc n) v = int_bytes n (v div 256) @ [of_int v]"

lemma length_int_bytes [simp]: "length (int_bytes n v) = n"
  by (induction n arbitrary: v) simp_all

lemma be_value_int_bytes: "be_value (int_bytes n v) = v mod 256 ^ n"
proof (induction n arbitrary: v)
  case (Suc n)
  have "v div 256 mod 256 ^ n * 256 + v mod 256 = v mod (256 * 256 ^ n)"
    by (simp add: zmod_zmult2_eq algebra_simps)
  moreover have "uint (of_int v :: uint8) = v mod 256" by (simp add: uint_word_of_int)
  ultimately show ?case using Suc by simp
qed simp

lift_definition stark_of_int :: "int \<Rightarrow> stark" is "\<lambda>v. v mod stark_prime"
  using stark_prime_pos(1) by simp

lift_definition stark_to_int :: "stark \<Rightarrow> int" is "\<lambda>v. v" .

lemma stark_to_int_range: "0 \<le> stark_to_int x" "stark_to_int x < stark_prime"
  by (transfer; simp)+

lemma stark_of_int_inverse: "stark_to_int (stark_of_int v) = v mod stark_prime"
  by transfer simp

lemma stark_to_int_inject: "stark_to_int x = stark_to_int y \<Longrightarrow> x = y"
  by transfer

definition stark_ops :: "stark felt_ops" where
  "stark_ops = \<lparr>feltModulus = stark_prime, feltBytes = (\<lambda>x. int_bytes 32 (stark_to_int x)),
     feltSetBytes = (\<lambda>bs. stark_of_int (be_value bs)), feltOfUint64 = (\<lambda>w. stark_of_int (uint w)),
     feltAdd = (\<lambda>x y. stark_of_int (stark_to_int x + stark_to_int y)),
     feltSub = (\<lambda>x y. stark_of_int (stark_to_int x - stark_to_int y)),
     feltExp = (\<lambda>x n. stark_of_int (stark_to_int x ^ n)),
     feltCmp = (\<lambda>x y. sgn (stark_to_int x - stark_to_int y))\<rparr>"

lemma stark_val: "felt_val stark_ops x = stark_to_int x"
proof -
  have "stark_to_int x < 256 ^ 32" using stark_to_int_range(2) [of x] stark_prime_pos(2) by simp
  then show ?thesis using stark_to_int_range(1) [of x] by (simp add: felt_val_def stark_ops_def be_value_int_bytes)
qed

interpretation stark: felt_lib stark_ops
proof unfold_locales
  show "1 < feltModulus stark_ops" "feltModulus stark_ops \<le> 2 ^ 256"
    by (simp_all add: stark_ops_def stark_prime_def)
  show "felt_val stark_ops x = felt_val stark_ops y \<Longrightarrow> x = y" for x y
    by (simp add: stark_val stark_to_int_inject)
  show "felt_val stark_ops x < feltModulus stark_ops" for x
    using stark_to_int_range(2) [of x] by (simp add: stark_val) (simp add: stark_ops_def)
  show "feltCmp stark_ops x y = sgn (felt_val stark_ops x - felt_val stark_ops y)" for x y
    by (simp add: stark_val) (simp add: stark_ops_def)
qed (simp_all add: stark_val, simp_all add: stark_ops_def stark_of_int_inverse)

section \<open>The ring of bytes\<close>

definition byte_ops :: "uint8 felt_ops" where
  "byte_ops = \<lparr>feltModulus = 256, feltBytes = (\<lambda>x. replicate 31 0 @ [x]),
     feltSetBytes = (\<lambda>bs. if bs = [] then 0 else last bs), feltOfUint64 = ucast, feltAdd = (+), feltSub = (-),
     feltExp = (\<lambda>x n. x ^ n), feltCmp = (\<lambda>x y. sgn (uint x - uint y))\<rparr>"

lemma byte_val: "felt_val byte_ops x = uint x"
  by (simp add: felt_val_def byte_ops_def)

lemma be_value_last: "uint (if bs = [] then 0 else last bs) = be_value bs mod 256"
proof (cases bs rule: rev_cases)
  case (snoc ys y)
  then show ?thesis using uint8_range [of y] by (simp add: mod_add_eq [symmetric])
qed simp

lemma uint_power_byte: "uint ((x :: uint8) ^ n) = uint x ^ n mod 256"
  by (induction n) (simp_all add: uint_word_ariths mod_mult_right_eq)

interpretation bytes: felt_lib byte_ops
proof unfold_locales
  show "felt_val byte_ops x < feltModulus byte_ops" for x
    using uint8_range [of x] by (simp add: byte_val) (simp add: byte_ops_def)
  show "felt_val byte_ops (feltSetBytes byte_ops bs) = be_value bs mod feltModulus byte_ops" for bs
    using be_value_last [of bs] by (simp only: byte_val) (simp add: byte_ops_def)
  show "felt_val byte_ops (feltExp byte_ops x n) = felt_val byte_ops x ^ n mod feltModulus byte_ops" for x n
    by (simp add: byte_val) (simp add: byte_ops_def uint_power_byte)
  show "feltCmp byte_ops x y = sgn (felt_val byte_ops x - felt_val byte_ops y)" for x y
    by (simp add: byte_val) (simp add: byte_ops_def)
  show "felt_val byte_ops x = felt_val byte_ops y \<Longrightarrow> x = y" for x y
    by (simp add: byte_val word_uint_eq_iff)
qed (simp_all add: byte_val, simp_all add: byte_ops_def uint_word_ariths unsigned_ucast_eq take_bit_eq_mod)

end
