(* ===== verification/Trie_Storage.thy ===== *)
theory Trie_Storage
  imports Felt_Lib
begin

text \<open>
  Trie nodes and their storage (\<open>core/trie/node.go\<close>, \<open>core/trie/storage.go\<close>): the node
  codec, the keys nodes are stored under and the read and write operations on a database
  transaction. A transaction is a map from byte strings to byte strings; I/O errors of the
  database are not modelled, a missing key is \<open>ErrKeyNotFound\<close>. Pointers that may be nil are
  options; following a nil pointer is \<open>ErrPanic\<close>. \<open>pool\<close> is what \<open>nodePool.Get\<close> hands out
  for a read: a node an earlier read filled (with both children or none), or a new one.
\<close>

section \<open>Results\<close>

datatype trie_error =
    ErrKeyNotFound | ErrPanic | ErrDiverges
  | ErrNilValue | ErrOneHash | ErrShortData | ErrHashLength | ErrDecode decode_error
  | ErrConflict | ErrKeyTooLarge | ErrMaxHeight | ErrNilNode

section \<open>Nodes\<close>

record 'f node =
  nd_Value :: "'f option"
  nd_Left :: "bit_array option"
  nd_Right :: "bit_array option"
  nd_LeftHash :: "'f option"
  nd_RightHash :: "'f option"

definition newNode :: "'f node" where
  "newNode = \<lparr>nd_Value = None, nd_Left = None, nd_Right = None, nd_LeftHash = None, nd_RightHash = None\<rparr>"

definition Node_Hash ::
  "'f felt_ops \<Rightarrow> ('f \<Rightarrow> 'f \<Rightarrow> 'f) \<Rightarrow> 'f node \<Rightarrow> bit_array \<Rightarrow> trie_error + 'f" where
  "Node_Hash F hashFn n path =
     (case nd_Value n of None \<Rightarrow> Inl ErrPanic
      | Some v \<Rightarrow>
          if Len path = 0 then Inr v
          else let pathFelt = Felt (feltSetBytes F) path;
                   hash = hashFn v pathFelt;
                   lenFelt = feltOfUint64 F (ucast (Len path))
               in Inr (feltAdd F hash lenFelt))"

text \<open>The part of a key below its parent's; the bit after the parent's key is implied.\<close>

definition path :: "bit_array \<Rightarrow> bit_array option \<Rightarrow> bit_array" where
  "path key parentKey = (case parentKey of None \<Rightarrow> Copy key | Some p \<Rightarrow> LSBs key (Len p + 1))"

definition HashFromParent ::
  "'f felt_ops \<Rightarrow> ('f \<Rightarrow> 'f \<Rightarrow> 'f) \<Rightarrow> 'f node \<Rightarrow> bit_array option \<Rightarrow> bit_array \<Rightarrow> trie_error + 'f" where
  "HashFromParent F hashFn n parentKey nodeKey = Node_Hash F hashFn n (path nodeKey parentKey)"

definition WriteTo :: "'f felt_ops \<Rightarrow> 'f node \<Rightarrow> uint8 list \<Rightarrow> trie_error + uint8 list" where
  "WriteTo F n buf =
     (case nd_Value n of None \<Rightarrow> Inl ErrNilValue
      | Some v \<Rightarrow>
          let b1 = buf @ feltBytes F v
          in bindE (case nd_Left n of None \<Rightarrow> Inr b1
                    | Some l \<Rightarrow> (case nd_Right n of None \<Rightarrow> Inl ErrPanic
                                | Some r \<Rightarrow> Inr (snd (Write r (snd (Write l b1))))))
               (\<lambda>b2. case (nd_LeftHash n, nd_RightHash n) of
                  (None, None) \<Rightarrow> Inr b2
                | (Some lh, Some rh) \<Rightarrow> Inr ((b2 @ feltBytes F lh) @ feltBytes F rh)
                | _ \<Rightarrow> Inl ErrOneHash))"

definition Node_UnmarshalBinary :: "'f felt_ops \<Rightarrow> 'f node \<Rightarrow> uint8 list \<Rightarrow> trie_error + 'f node" where
  "Node_UnmarshalBinary F n data =
     (if length data < 32 then Inl ErrShortData
      else let n1 = n\<lparr>nd_Value := Some (feltSetBytes F (take 32 data))\<rparr>; d = drop 32 data
      in if d = [] then
           Inr (n1\<lparr>nd_Left := None, nd_Right := None, nd_LeftHash := None, nd_RightHash := None\<rparr>)
         else
           let l0 = (case nd_Left n of None \<Rightarrow> emptyBitArray | Some l \<Rightarrow> l);
               r0 = (case nd_Left n of None \<Rightarrow> emptyBitArray
                     | Some _ \<Rightarrow> (case nd_Right n of None \<Rightarrow> emptyBitArray | Some r \<Rightarrow> r))
           in bindE (mapErr ErrDecode (UnmarshalBinary l0 d)) (\<lambda>l.
              let d1 = drop (EncodedLen l) d
              in bindE (mapErr ErrDecode (UnmarshalBinary r0 d1)) (\<lambda>r.
                 let d2 = drop (EncodedLen r) d1;
                     lh = (case nd_LeftHash n of None \<Rightarrow> feltZero F | Some h \<Rightarrow> h);
                     rh = (case nd_RightHash n of None \<Rightarrow> feltZero F | Some h \<Rightarrow> h);
                     n2 = n1\<lparr>nd_Left := Some l, nd_Right := Some r, nd_LeftHash := Some lh, nd_RightHash := Some rh\<rparr>
                 in if d2 = [] then Inr n2
                    else if length d2 \<noteq> 2 * 32 then Inl ErrHashLength
                    else Inr (n2\<lparr>nd_LeftHash := Some (feltSetBytes F (take 32 d2)),
                                 nd_RightHash := Some (feltSetBytes F (take 32 (drop 32 d2)))\<rparr>))))"

text \<open>
  \<open>Update\<close> merges the fields another node has set into this one, unless both have set a field
  and differ there; an empty key counts as not set.
\<close>

definition conflict_felt :: "'f option \<Rightarrow> 'f option \<Rightarrow> bool" where
  "conflict_felt a b \<longleftrightarrow> a \<noteq> None \<and> b \<noteq> None \<and> a \<noteq> b"

definition conflict_key :: "bit_array option \<Rightarrow> bit_array option \<Rightarrow> bool" where
  "conflict_key a b \<longleftrightarrow> a \<noteq> None \<and> b \<noteq> None \<and> \<not> Equal a (Some emptyBitArray) \<and>
     \<not> Equal b (Some emptyBitArray) \<and> \<not> Equal a b"

definition Node_Update :: "'f node \<Rightarrow> 'f node \<Rightarrow> trie_error + 'f node" where
  "Node_Update n other =
     (if conflict_felt (nd_Value n) (nd_Value other) then Inl ErrConflict
      else if conflict_key (nd_Left n) (nd_Left other) then Inl ErrConflict
      else if conflict_key (nd_Right n) (nd_Right other) then Inl ErrConflict
      else if conflict_felt (nd_LeftHash n) (nd_LeftHash other) then Inl ErrConflict
      else if conflict_felt (nd_RightHash n) (nd_RightHash other) then Inl ErrConflict
      else let keep = (\<lambda>a b. if b \<noteq> None then b else a);
               keepKey = (\<lambda>a b. if b \<noteq> None \<and> \<not> Equal b (Some emptyBitArray) then b else a)
           in Inr \<lparr>nd_Value = keep (nd_Value n) (nd_Value other),
                   nd_Left = keepKey (nd_Left n) (nd_Left other), nd_Right = keepKey (nd_Right n) (nd_Right other),
                   nd_LeftHash = keep (nd_LeftHash n) (nd_LeftHash other),
                   nd_RightHash = keep (nd_RightHash n) (nd_RightHash other)\<rparr>)"

section \<open>Storage\<close>

record storage =
  st_txn :: "uint8 list \<rightharpoonup> uint8 list"
  st_prefix :: "uint8 list"

definition NewStorage :: "(uint8 list \<rightharpoonup> uint8 list) \<Rightarrow> uint8 list \<Rightarrow> storage" where
  "NewStorage txn pre = \<lparr>st_txn = txn, st_prefix = pre\<rparr>"

definition dbKey :: "storage \<Rightarrow> bit_array \<Rightarrow> uint8 list \<Rightarrow> nat \<times> uint8 list" where
  "dbKey s key buffer =
     (let b = buffer @ st_prefix s; (keyLen, b') = Write key b in (length (st_prefix s) + keyLen, b'))"

definition Storage_Put :: "'f felt_ops \<Rightarrow> storage \<Rightarrow> bit_array \<Rightarrow> 'f node \<Rightarrow> trie_error + storage" where
  "Storage_Put F s key val =
     (let (keyLen, buffer) = dbKey s key []
      in bindE (WriteTo F val buffer)
           (\<lambda>enc. Inr (s\<lparr>st_txn := (st_txn s)(take keyLen enc \<mapsto> drop keyLen enc)\<rparr>)))"

definition Storage_Delete :: "storage \<Rightarrow> bit_array \<Rightarrow> storage" where
  "Storage_Delete s key = s\<lparr>st_txn := (st_txn s)(snd (dbKey s key []) := None)\<rparr>"

definition PutRootKey :: "storage \<Rightarrow> bit_array \<Rightarrow> storage" where
  "PutRootKey s newRootKey = s\<lparr>st_txn := (st_txn s)(st_prefix s \<mapsto> snd (Write newRootKey []))\<rparr>"

definition DeleteRootKey :: "storage \<Rightarrow> storage" where
  "DeleteRootKey s = s\<lparr>st_txn := (st_txn s)(st_prefix s := None)\<rparr>"

definition ReadStorage_Get ::
  "'f felt_ops \<Rightarrow> (bit_array \<Rightarrow> 'f node) \<Rightarrow> storage \<Rightarrow> bit_array \<Rightarrow> trie_error + 'f node" where
  "ReadStorage_Get F pool s key =
     (case st_txn s (snd (dbKey s key [])) of
        None \<Rightarrow> Inl ErrKeyNotFound
      | Some val \<Rightarrow> Node_UnmarshalBinary F (pool key) val)"

definition ReadStorage_RootKey :: "storage \<Rightarrow> trie_error + bit_array" where
  "ReadStorage_RootKey s =
     (case st_txn s (st_prefix s) of
        None \<Rightarrow> Inl ErrKeyNotFound
      | Some val \<Rightarrow> mapErr ErrDecode (UnmarshalBinary emptyBitArray val))"

section \<open>The node codec\<close>

text \<open>The nodes the trie writes: a value, both children or none, both hashes or none.\<close>

definition node_ok :: "'f node \<Rightarrow> bool" where
  "node_ok n \<longleftrightarrow> nd_Value n \<noteq> None \<and>
     (case (nd_Left n, nd_Right n) of
        (None, None) \<Rightarrow> nd_LeftHash n = None \<and> nd_RightHash n = None
      | (Some l, Some r) \<Rightarrow> ba_ok l \<and> ba_ok r \<and> (nd_LeftHash n = None \<longleftrightarrow> nd_RightHash n = None)
      | _ \<Rightarrow> False)"

definition encoded :: "bit_array \<Rightarrow> uint8 list" where
  "encoded k = ba_len k # activeBytes k"

definition node_bytes :: "'f felt_ops \<Rightarrow> 'f node \<Rightarrow> uint8 list" where
  "node_bytes F n = feltBytes F (the (nd_Value n)) @
     (case nd_Left n of None \<Rightarrow> [] | Some l \<Rightarrow> encoded l @ encoded (the (nd_Right n))) @
     (case nd_LeftHash n of None \<Rightarrow> [] | Some lh \<Rightarrow> feltBytes F lh @ feltBytes F (the (nd_RightHash n)))"

lemma Write_encoded: "Write k buf = (length (encoded k), buf @ encoded k)"
  by (simp add: Write_def encoded_def Let_def)

lemma length_activeBytes [simp]: "length (activeBytes b) = byteCount b"
  using byteCount_le [of b] by (simp add: activeBytes_def)

lemma length_encoded: "length (encoded k) = EncodedLen k"
  by (simp add: encoded_def EncodedLen_def)

lemma encoded_not_Nil [simp]: "encoded k \<noteq> []"
  by (simp add: encoded_def)

lemma UnmarshalBinary_encoded': "ba_ok k \<Longrightarrow> UnmarshalBinary x (encoded k @ rest) = Inr k"
  by (simp add: encoded_def UnmarshalBinary_encoded)

lemma encoded_inj:
  assumes "ba_ok k" and "ba_ok k'" and "encoded k @ xs = encoded k' @ ys"
  shows "k = k'"
  using UnmarshalBinary_encoded' [OF assms(1), of emptyBitArray xs]
    UnmarshalBinary_encoded' [OF assms(2), of emptyBitArray ys] assms(3) by simp

lemma WriteTo_bytes: "node_ok n \<Longrightarrow> WriteTo F n buf = Inr (buf @ node_bytes F n)"
  by (auto simp: node_ok_def WriteTo_def node_bytes_def Write_encoded Let_def split: option.splits)

text \<open>Reading does not depend on the recycled node, but for the hashes of a node stored without.\<close>

lemma Unmarshal_node_bytes:
  assumes "felt_lib F" and "node_ok n"
  shows "\<exists>lh rh. Node_UnmarshalBinary F recv (node_bytes F n) = Inr (n\<lparr>nd_LeftHash := lh, nd_RightHash := rh\<rparr>) \<and>
    (nd_Left n = None \<longleftrightarrow> lh = None) \<and> (nd_Left n = None \<longleftrightarrow> rh = None)"
proof -
  obtain v where v: "nd_Value n = Some v" using assms(2) by (auto simp: node_ok_def)
  have len: "length (feltBytes F x) = 32" for x using assms(1) by (rule felt_lib.bytes_length)
  have rt: "feltSetBytes F (feltBytes F x) = x" for x using assms(1) by (rule felt_lib.SetBytes_Bytes)
  show ?thesis
  proof (cases "nd_Left n")
    case None
    with assms(2) have "nd_Right n = None" "nd_LeftHash n = None" "nd_RightHash n = None"
      by (auto simp: node_ok_def split: option.splits)
    with None v show ?thesis
      by (cases n) (simp add: node_bytes_def Node_UnmarshalBinary_def Let_def len rt)
  next
    case (Some l)
    with assms(2) obtain r where r: "nd_Right n = Some r" and ok: "ba_ok l" "ba_ok r"
      by (auto simp: node_ok_def split: option.splits)
    let ?h = "case nd_LeftHash n of None \<Rightarrow> [] | Some lh \<Rightarrow> feltBytes F lh @ feltBytes F (the (nd_RightHash n))"
    have bytes: "node_bytes F n = feltBytes F v @ encoded l @ encoded r @ ?h"
      using Some r v by (simp add: node_bytes_def)
    have h: "?h = [] \<or> (\<exists>lh rh. ?h = feltBytes F lh @ feltBytes F rh)" by (cases "nd_LeftHash n") auto
    have "\<exists>lh rh. Node_UnmarshalBinary F recv (feltBytes F v @ encoded l @ encoded r @ ?h) =
        Inr \<lparr>nd_Value = Some v, nd_Left = Some l, nd_Right = Some r, nd_LeftHash = Some lh, nd_RightHash = Some rh\<rparr>"
      using h by (cases recv) (elim disjE exE; simp add: Node_UnmarshalBinary_def Let_def len rt length_encoded [symmetric]
          UnmarshalBinary_encoded' [OF ok(1)] UnmarshalBinary_encoded' [OF ok(2)]
          UnmarshalBinary_encoded' [OF ok(2), where rest = "[]", simplified])
    then obtain lh rh where "Node_UnmarshalBinary F recv (node_bytes F n) =
        Inr \<lparr>nd_Value = Some v, nd_Left = Some l, nd_Right = Some r, nd_LeftHash = Some lh, nd_RightHash = Some rh\<rparr>"
      unfolding bytes by blast
    then show ?thesis
      using Some r v by (intro exI [of _ "Some lh"] exI [of _ "Some rh"]) (cases n, simp)
  qed
qed

section \<open>The store as a map\<close>

text \<open>What a read returns, without the cached hashes.\<close>

type_synonym 'f view = "'f option \<times> bit_array option \<times> bit_array option"

definition node_view :: "'f node \<Rightarrow> 'f view" where
  "node_view n = (nd_Value n, nd_Left n, nd_Right n)"

definition node_at :: "'f felt_ops \<Rightarrow> storage \<Rightarrow> bit_array \<Rightarrow> 'f view option" where
  "node_at F s k =
     (case ReadStorage_Get F (\<lambda>_. newNode) s k of Inl _ \<Rightarrow> None | Inr n \<Rightarrow> Some (node_view n))"

definition store_ok :: "'f felt_ops \<Rightarrow> storage \<Rightarrow> bool" where
  "store_ok F s \<longleftrightarrow> (\<forall>k val. ba_ok k \<longrightarrow> st_txn s (st_prefix s @ encoded k) = Some val \<longrightarrow>
     (\<exists>n. node_ok n \<and> val = node_bytes F n))"

lemma dbKey_encoded: "dbKey s k [] = (length (st_prefix s @ encoded k), st_prefix s @ encoded k)"
  by (simp add: dbKey_def Write_encoded)

lemma Storage_Put_eq:
  "node_ok n \<Longrightarrow> Storage_Put F s k n =
     Inr (s\<lparr>st_txn := (st_txn s)(st_prefix s @ encoded k \<mapsto> node_bytes F n)\<rparr>)"
  by (simp add: Storage_Put_def dbKey_encoded WriteTo_bytes)

text \<open>
  A store of nodes under keys, as the trie uses it. Its operations act on the looked-up
  nodes like on a map.
\<close>

locale node_store =
  fixes inv :: "'s \<Rightarrow> bool" and look :: "'s \<Rightarrow> bit_array \<Rightarrow> 'v option"
    and put :: "'s \<Rightarrow> bit_array \<Rightarrow> 'n \<Rightarrow> 's" and del :: "'s \<Rightarrow> bit_array \<Rightarrow> 's"
    and nok :: "'n \<Rightarrow> bool" and view :: "'n \<Rightarrow> 'v"
  assumes inv_put: "inv s \<Longrightarrow> ba_ok k \<Longrightarrow> nok n \<Longrightarrow> inv (put s k n)"
    and inv_del: "inv s \<Longrightarrow> ba_ok k \<Longrightarrow> inv (del s k)"
    and look_put: "inv s \<Longrightarrow> ba_ok k \<Longrightarrow> nok n \<Longrightarrow> ba_ok k' \<Longrightarrow>
      look (put s k n) k' = (if k' = k then Some (view n) else look s k')"
    and look_del: "inv s \<Longrightarrow> ba_ok k \<Longrightarrow> ba_ok k' \<Longrightarrow>
      look (del s k) k' = (if k' = k then None else look s k')"
begin

text \<open>Writes to different keys commute, and a write after a delete undoes it.\<close>

lemma put_put_look:
  assumes "inv s" "ba_ok k" "ba_ok k'" "nok n" "nok n'" "k \<noteq> k'" "ba_ok j"
  shows "look (put (put s k n) k' n') j = look (put (put s k' n') k n) j"
  using assms by (simp add: look_put inv_put)

lemma del_put_look:
  assumes "inv s" "ba_ok k" "nok n" "ba_ok j"
  shows "look (put (del s k) k n) j = look (put s k n) j"
  using assms by (simp add: look_put look_del inv_del)

end

lemma node_ok_hashes:
  "node_ok n \<Longrightarrow> nd_Left n = None \<longleftrightarrow> lh = None \<Longrightarrow> nd_Left n = None \<longleftrightarrow> rh = None \<Longrightarrow>
   node_ok (n\<lparr>nd_LeftHash := lh, nd_RightHash := rh\<rparr>)"
  by (auto simp: node_ok_def split: option.splits)

context felt_lib
begin

lemma Get_stored:
  assumes "store_ok F s" and "ba_ok k"
  shows "(ReadStorage_Get F pool s k = Inl ErrKeyNotFound \<and> node_at F s k = None) \<or>
    (\<exists>n. ReadStorage_Get F pool s k = Inr n \<and> node_ok n \<and> node_at F s k = Some (node_view n))"
proof (cases "st_txn s (st_prefix s @ encoded k)")
  case None
  then show ?thesis by (simp add: ReadStorage_Get_def node_at_def dbKey_encoded)
next
  case (Some val)
  with assms obtain n where n: "node_ok n" "val = node_bytes F n" by (auto simp: store_ok_def)
  have read: "\<exists>m. Node_UnmarshalBinary F recv (node_bytes F n) = Inr m \<and> node_ok m \<and> node_view m = node_view n" for recv
  proof -
    obtain lh rh where m: "Node_UnmarshalBinary F recv (node_bytes F n) = Inr (n\<lparr>nd_LeftHash := lh, nd_RightHash := rh\<rparr>)"
      and h: "nd_Left n = None \<longleftrightarrow> lh = None" "nd_Left n = None \<longleftrightarrow> rh = None"
      using Unmarshal_node_bytes [OF felt_lib_axioms n(1), of recv] by (elim exE conjE) (rule that)
    have "node_ok (n\<lparr>nd_LeftHash := lh, nd_RightHash := rh\<rparr>)" by (rule node_ok_hashes [OF n(1) h])
    with m show ?thesis by (simp add: node_view_def)
  qed
  from read [of newNode] read [of "pool k"] n(2) Some show ?thesis
    by (auto simp: ReadStorage_Get_def node_at_def dbKey_encoded)
qed

lemma Get_Inr:
  assumes "store_ok F s" and "ba_ok k" and "node_at F s k = Some w"
  obtains n where "ReadStorage_Get F pool s k = Inr n" "node_ok n" "node_view n = w"
  using Get_stored [OF assms(1,2), of pool] assms(3) by auto

lemma Get_absent:
  "store_ok F s \<Longrightarrow> ba_ok k \<Longrightarrow> node_at F s k = None \<Longrightarrow> ReadStorage_Get F pool s k = Inl ErrKeyNotFound"
  using Get_stored [of s k pool] by auto

lemma node_at_put:
  assumes "store_ok F s" and "ba_ok k" and "node_ok n" and "ba_ok k'"
  defines "s' \<equiv> projr (Storage_Put F s k n)"
  shows "store_ok F s'" "node_at F s' k' = (if k' = k then Some (node_view n) else node_at F s k')"
    "Storage_Put F s k n = Inr s'" "st_prefix s' = st_prefix s"
proof -
  have s': "s' = s\<lparr>st_txn := (st_txn s)(st_prefix s @ encoded k \<mapsto> node_bytes F n)\<rparr>"
    by (simp add: s'_def Storage_Put_eq assms(3))
  have ne: "encoded j = encoded k \<longleftrightarrow> j = k" if "ba_ok j" for j
    using encoded_inj [OF that assms(2), of "[]" "[]"] by auto
  show ok': "store_ok F s'" using assms(1,3) by (auto simp: store_ok_def s')
  show "node_at F s' k' = (if k' = k then Some (node_view n) else node_at F s k')"
    using Unmarshal_node_bytes [OF felt_lib_axioms assms(3), of newNode] ne [OF assms(4)]
    by (auto simp: node_at_def ReadStorage_Get_def dbKey_encoded s' node_view_def)
  show "Storage_Put F s k n = Inr s'" by (simp add: s'_def Storage_Put_eq assms(3))
  show "st_prefix s' = st_prefix s" by (simp add: s')
qed

lemma node_at_del:
  assumes "store_ok F s" and "ba_ok k" and "ba_ok k'"
  shows "store_ok F (Storage_Delete s k)"
    "node_at F (Storage_Delete s k) k' = (if k' = k then None else node_at F s k')"
proof -
  have ne: "encoded k' = encoded k \<longleftrightarrow> k' = k"
    using encoded_inj [OF assms(3,2), of "[]" "[]"] by auto
  show "store_ok F (Storage_Delete s k)" using assms(1) by (auto simp: store_ok_def Storage_Delete_def dbKey_encoded)
  show "node_at F (Storage_Delete s k) k' = (if k' = k then None else node_at F s k')"
    using ne by (auto simp: node_at_def ReadStorage_Get_def Storage_Delete_def dbKey_encoded)
qed

lemma node_at_root:
  "store_ok F s \<Longrightarrow> store_ok F (PutRootKey s k)" "node_at F (PutRootKey s k) k' = node_at F s k'"
  "store_ok F s \<Longrightarrow> store_ok F (DeleteRootKey s)" "node_at F (DeleteRootKey s) k' = node_at F s k'"
  by (simp_all add: store_ok_def node_at_def ReadStorage_Get_def PutRootKey_def DeleteRootKey_def dbKey_encoded)

end

sublocale felt_lib \<subseteq> node_store "store_ok F" "node_at F" "\<lambda>s k n. projr (Storage_Put F s k n)" Storage_Delete
  node_ok node_view
proof unfold_locales
  fix s :: storage and k k' :: bit_array and n :: "'f node"
  assume s: "store_ok F s" "ba_ok k"
  show "store_ok F (projr (Storage_Put F s k n))" if "node_ok n" by (rule node_at_put(1) [OF s that s(2)])
  show "store_ok F (Storage_Delete s k)" by (rule node_at_del(1) [OF s s(2)])
  show "node_at F (projr (Storage_Put F s k n)) k' = (if k' = k then Some (node_view n) else node_at F s k')"
    if "node_ok n" "ba_ok k'" by (rule node_at_put(2) [OF s that])
  show "node_at F (Storage_Delete s k) k' = (if k' = k then None else node_at F s k')" if "ba_ok k'"
    by (rule node_at_del(2) [OF s that])
qed

lemma RootKey_roundtrip:
  "ba_ok k \<Longrightarrow> ReadStorage_RootKey (PutRootKey s k) = Inr k" "ReadStorage_RootKey (DeleteRootKey s) = Inl ErrKeyNotFound"
  using UnmarshalBinary_encoded' [of k emptyBitArray "[]"]
  by (simp_all add: ReadStorage_RootKey_def PutRootKey_def DeleteRootKey_def Write_encoded)

lemma Unmarshal_exact:
  assumes F: "felt_lib F" and n: "node_ok n"
  shows "Node_UnmarshalBinary F recv (node_bytes F n) =
      Inr (if nd_Left n = None \<or> nd_LeftHash n \<noteq> None then n
           else n\<lparr>nd_LeftHash := Some (case nd_LeftHash recv of None \<Rightarrow> feltZero F | Some h \<Rightarrow> h),
                  nd_RightHash := Some (case nd_RightHash recv of None \<Rightarrow> feltZero F | Some h \<Rightarrow> h)\<rparr>)"
proof -
  have len: "length (feltBytes F x) = 32" for x using F by (rule felt_lib.bytes_length)
  have rt: "feltSetBytes F (feltBytes F x) = x" for x using F by (rule felt_lib.SetBytes_Bytes)
  obtain v l r lh rh where eq: "n = \<lparr>nd_Value = Some v, nd_Left = l, nd_Right = r, nd_LeftHash = lh, nd_RightHash = rh\<rparr>"
    using n by (cases n) (auto simp: node_ok_def)
  show ?thesis
  proof (cases l)
    case None
    then show ?thesis using n unfolding eq
      by (cases recv) (simp add: node_ok_def node_bytes_def Node_UnmarshalBinary_def Let_def len rt split: option.splits)
  next
    case (Some lk)
    then obtain rk where r: "r = Some rk" and ok: "ba_ok lk" "ba_ok rk" and h: "lh = None \<longleftrightarrow> rh = None"
      using n unfolding eq by (auto simp: node_ok_def split: option.splits)
    show ?thesis using h unfolding eq Some r
      by (cases recv; cases lh; cases rh) (simp_all add: node_bytes_def Node_UnmarshalBinary_def Let_def len rt
          length_encoded [symmetric] UnmarshalBinary_encoded' [OF ok(1)] UnmarshalBinary_encoded' [OF ok(2)]
          UnmarshalBinary_encoded' [OF ok(2), where rest = "[]", simplified])
  qed
qed

section \<open>Properties\<close>

text \<open>C31: The node codec. A node with both children or none is written as its value, the keys of its children and
  their hashes if set, and reads back as it was; only an inner node stored without hashes
  gets the hashes the recycled receiver happens to have, or zero.\<close>

theorem node_roundtrip:
  assumes F: "felt_lib F" and n: "node_ok n"
  shows "WriteTo F n buf = Inr (buf @ node_bytes F n) \<and>
    Node_UnmarshalBinary F recv (node_bytes F n) =
      Inr (if nd_Left n = None \<or> nd_LeftHash n \<noteq> None then n
           else n\<lparr>nd_LeftHash := Some (case nd_LeftHash recv of None \<Rightarrow> feltZero F | Some h \<Rightarrow> h),
                  nd_RightHash := Some (case nd_RightHash recv of None \<Rightarrow> feltZero F | Some h \<Rightarrow> h)\<rparr>)"
  using WriteTo_bytes [OF n] Unmarshal_exact [OF F n] by blast

definition leaf7 :: "uint8 node" where
  "leaf7 = newNode\<lparr>nd_Value := Some 7\<rparr>"

theorem node_roundtrip_witness:
  "WriteTo byte_ops leaf7 [] = Inr (node_bytes byte_ops leaf7) \<and>
   Node_UnmarshalBinary byte_ops newNode (node_bytes byte_ops leaf7) = Inr leaf7"
  using node_roundtrip [OF bytes.felt_lib_axioms, of leaf7 "[]" newNode] by (simp add: leaf7_def newNode_def node_ok_def)

text \<open>Writing a node fails exactly when it has no value, a left child without a right one, or one hash
  without the other; the first of these that holds gives the error.\<close>

theorem node_write_errors:
  "WriteTo F n buf =
     (if nd_Value n = None then Inl ErrNilValue
      else if nd_Left n \<noteq> None \<and> nd_Right n = None then Inl ErrPanic
      else if (nd_LeftHash n = None) \<noteq> (nd_RightHash n = None) then Inl ErrOneHash
      else Inr (buf @ node_bytes F n))"
  by (auto simp: WriteTo_def node_bytes_def Write_encoded Let_def split: option.splits)

text \<open>C30: Storage. Putting a well-formed node under a key of a well-formed store succeeds and keeps the store well formed. Reading
  that key afterwards gives the very node, its value, children and hashes, if it is a leaf or has its hashes; an inner node without
  hashes comes back with those of the recycled node, or zero. Reading another key, and reading the root key, gives what it gave
  before, an error included, and deleting the key again makes the read fail.\<close>

theorem storage_put_get:
  assumes F: "felt_lib F" and s: "store_ok F s" and k: "ba_ok k" and n: "node_ok n" and k': "ba_ok k'"
  shows "\<exists>s'. Storage_Put F s k n = Inr s' \<and> store_ok F s' \<and> ReadStorage_RootKey s' = ReadStorage_RootKey s \<and>
    ReadStorage_Get F pool s' k' =
      (if k' \<noteq> k then ReadStorage_Get F pool s k'
       else Inr (if nd_Left n = None \<or> nd_LeftHash n \<noteq> None then n
         else n\<lparr>nd_LeftHash := Some (case nd_LeftHash (pool k) of None \<Rightarrow> feltZero F | Some h \<Rightarrow> h),
                nd_RightHash := Some (case nd_RightHash (pool k) of None \<Rightarrow> feltZero F | Some h \<Rightarrow> h)\<rparr>)) \<and>
    ReadStorage_Get F pool (Storage_Delete s' k) k' =
      (if k' \<noteq> k then ReadStorage_Get F pool s k' else Inl ErrKeyNotFound)"
proof -
  note put = felt_lib.node_at_put [OF F s k n k']
  have ne: "encoded k' = encoded k \<longleftrightarrow> k' = k" using encoded_inj [OF k' k, of "[]" "[]"] by auto
  have ok: "store_ok F (s\<lparr>st_txn := (st_txn s)(st_prefix s @ encoded k \<mapsto> node_bytes F n)\<rparr>)"
    using put(1) by (simp add: Storage_Put_eq [OF n])
  show ?thesis
    by (rule exI [of _ "s\<lparr>st_txn := (st_txn s)(st_prefix s @ encoded k \<mapsto> node_bytes F n)\<rparr>"])
      (simp add: ok Storage_Put_eq [OF n] ReadStorage_Get_def ReadStorage_RootKey_def Storage_Delete_def dbKey_encoded ne
        Unmarshal_exact [OF F n])
qed

definition inner7 :: "uint8 node" where
  "inner7 = \<lparr>nd_Value = Some 7, nd_Left = Some emptyBitArray, nd_Right = Some emptyBitArray, nd_LeftHash = Some 8, nd_RightHash = Some 9\<rparr>"

theorem storage_put_get_witness:
  "\<exists>s'. Storage_Put byte_ops (NewStorage Map.empty [1]) emptyBitArray inner7 = Inr s' \<and>
     ReadStorage_Get byte_ops (\<lambda>_. newNode) s' emptyBitArray = Inr inner7"
proof -
  have "store_ok byte_ops (NewStorage Map.empty [1])" by (simp add: store_ok_def NewStorage_def)
  moreover have "ba_ok emptyBitArray" by (simp add: ba_ok_def emptyBitArray_def)
  moreover have "node_ok inner7" by (simp add: inner7_def node_ok_def ba_ok_def emptyBitArray_def)
  ultimately show ?thesis
    using storage_put_get [OF bytes.felt_lib_axioms, of "NewStorage Map.empty [1]" emptyBitArray inner7 emptyBitArray "\<lambda>_. newNode"]
    by (auto simp: inner7_def)
qed

end
