(* ===== verification/Trie.thy ===== *)
theory Trie
  imports Trie_Storage
begin

text \<open>
  The Merkle-Patricia trie (\<open>core/trie/trie.go\<close>): reading, writing and deleting leaves, the
  links between the stored nodes and the recomputation of the commitment. An operation
  returns the new trie, or the error it stops with; after an error the transaction is
  given up, so the state it leaves behind is not kept. \<open>tr_storage\<close> stands for the fields
  \<open>storage\<close> and \<open>readStorage\<close>, which share one transaction. Following a nil pointer is \<open>ErrPanic\<close>.

  The nodes on a path from the root are pairs of a key and a node. In the code the key of
  a node on the path is the pointer that the node above it holds, so that changing the
  link of the parent also changes that key; no operation reads the key after it has
  changed the link, and keys are values here.
\<close>

section \<open>Tries\<close>

record 'f trie_reader =
  tr_height :: uint8
  tr_rootKey :: "bit_array option"
  tr_maxKey :: 'f
  tr_storage :: storage
  tr_hash :: "'f \<Rightarrow> 'f \<Rightarrow> 'f"

record 'f trie = "'f trie_reader" +
  tr_dirtyNodes :: "bit_array list"
  tr_rootKeyIsDirty :: bool

definition felt_Bits :: nat where
  "felt_Bits = 252"

definition maxKeyByHeight :: "'f felt_ops \<Rightarrow> uint8 \<Rightarrow> 'f" where
  "maxKeyByHeight F h =
     (let x = feltOfUint64 F 2; y = unat h; maxKey = feltExp F x y in feltSub F maxKey (feltOfUint64 F 1))"

definition newTrieReader ::
  "'f felt_ops \<Rightarrow> (uint8 list \<rightharpoonup> uint8 list) \<Rightarrow> uint8 list \<Rightarrow> uint8 \<Rightarrow> ('f \<Rightarrow> 'f \<Rightarrow> 'f) \<Rightarrow> trie_error + 'f trie_reader" where
  "newTrieReader F r pre height hash =
     (if unat height > felt_Bits then Inl ErrMaxHeight
      else let readStorage = NewStorage r pre;
               reader = (\<lambda>k. \<lparr>tr_height = height, tr_rootKey = k, tr_maxKey = maxKeyByHeight F height,
                              tr_storage = readStorage, tr_hash = hash\<rparr>)
           in case ReadStorage_RootKey readStorage of
                Inl e \<Rightarrow> if e = ErrKeyNotFound then Inr (reader None) else Inl e
              | Inr rootKey \<Rightarrow> Inr (reader (Some rootKey)))"

definition newTrie ::
  "'f felt_ops \<Rightarrow> (uint8 list \<rightharpoonup> uint8 list) \<Rightarrow> uint8 list \<Rightarrow> uint8 \<Rightarrow> ('f \<Rightarrow> 'f \<Rightarrow> 'f) \<Rightarrow> trie_error + 'f trie" where
  "newTrie F txn pre height hash =
     bindE (newTrieReader F txn pre height hash) (\<lambda>r.
       Inr \<lparr>tr_height = tr_height r, tr_rootKey = tr_rootKey r, tr_maxKey = tr_maxKey r,
            tr_storage = tr_storage r, tr_hash = tr_hash r, tr_dirtyNodes = [], tr_rootKeyIsDirty = False\<rparr>)"

text \<open>\<open>RunOnTempTriePedersen\<close> and \<open>RunOnTempTriePoseidon\<close> are this function at their hash.\<close>

definition RunOnTempTrie ::
  "'f felt_ops \<Rightarrow> ('f \<Rightarrow> 'f \<Rightarrow> 'f) \<Rightarrow> uint8 \<Rightarrow> ('f trie \<Rightarrow> trie_error + 'a) \<Rightarrow> trie_error + 'a" where
  "RunOnTempTrie F hash height run = bindE (newTrie F Map.empty [] height hash) run"

definition FeltToKey :: "'f felt_ops \<Rightarrow> ('f, 'z) trie_reader_scheme \<Rightarrow> 'f \<Rightarrow> bit_array" where
  "FeltToKey F t k = SetFelt (feltBytes F) emptyBitArray (tr_height t) k"

section \<open>Reading\<close>

text \<open>
  The walk from the root towards a key, an accumulator of the nodes met so far. The links
  of stored nodes are data, so the walk is given fuel; 257 steps are enough for every trie.
\<close>

fun nodesFromRoot_loop ::
  "'f felt_ops \<Rightarrow> (bit_array \<Rightarrow> 'f node) \<Rightarrow> storage \<Rightarrow> bit_array \<Rightarrow> nat \<Rightarrow> (bit_array \<times> 'f node) list \<Rightarrow>
   bit_array option \<Rightarrow> trie_error + (bit_array \<times> 'f node) list" where
  "nodesFromRoot_loop F pool s key fuel nodes None = Inr nodes"
| "nodesFromRoot_loop F pool s key 0 nodes (Some cur) = Inl ErrDiverges"
| "nodesFromRoot_loop F pool s key (Suc fuel) nodes (Some cur) =
     (if nodes \<noteq> [] \<and> ba_len cur = 0 then Inr nodes
      else bindE (ReadStorage_Get F pool s cur) (\<lambda>node.
        let nodes' = nodes @ [(cur, node)]
        in if Len cur \<ge> Len key \<or> \<not> EqualMSBs key cur then Inr nodes'
           else if IsBitSet key (Len cur) then nodesFromRoot_loop F pool s key fuel nodes' (nd_Right node)
           else nodesFromRoot_loop F pool s key fuel nodes' (nd_Left node)))"

definition nodesFromRoot ::
  "'f felt_ops \<Rightarrow> (bit_array \<Rightarrow> 'f node) \<Rightarrow> ('f, 'z) trie_reader_scheme \<Rightarrow> bit_array \<Rightarrow>
   trie_error + (bit_array \<times> 'f node) list" where
  "nodesFromRoot F pool t key = nodesFromRoot_loop F pool (tr_storage t) key 257 [] (tr_rootKey t)"

definition TrieReader_Get ::
  "'f felt_ops \<Rightarrow> (bit_array \<Rightarrow> 'f node) \<Rightarrow> ('f, 'z) trie_reader_scheme \<Rightarrow> 'f \<Rightarrow> trie_error + 'f" where
  "TrieReader_Get F pool t key =
     (case ReadStorage_Get F pool (tr_storage t) (FeltToKey F t key) of
        Inl e \<Rightarrow> if e = ErrKeyNotFound then Inr (feltZero F) else Inl e
      | Inr value \<Rightarrow> (case nd_Value value of None \<Rightarrow> Inl ErrPanic | Some leafValue \<Rightarrow> Inr leafValue))"

definition GetLeafPedersen ::
  "'f felt_ops \<Rightarrow> (bit_array \<Rightarrow> 'f node) \<Rightarrow> ('f \<Rightarrow> 'f \<Rightarrow> 'f) \<Rightarrow> (uint8 list \<rightharpoonup> uint8 list) \<Rightarrow> uint8 list \<Rightarrow> uint8 \<Rightarrow> 'f \<Rightarrow>
   trie_error + 'f" where
  "GetLeafPedersen F pool pedersen r pre height key =
     (if unat height > felt_Bits then Inl ErrMaxHeight
      else TrieReader_Get F pool
        \<lparr>tr_height = height, tr_rootKey = None, tr_maxKey = maxKeyByHeight F height,
         tr_storage = NewStorage r pre, tr_hash = pedersen\<rparr> key)"

definition GetNodeFromKey ::
  "'f felt_ops \<Rightarrow> (bit_array \<Rightarrow> 'f node) \<Rightarrow> ('f, 'z) trie_reader_scheme \<Rightarrow> bit_array \<Rightarrow> trie_error + 'f node" where
  "GetNodeFromKey F pool t key = ReadStorage_Get F pool (tr_storage t) key"

definition TrieReader_Hash ::
  "'f felt_ops \<Rightarrow> (bit_array \<Rightarrow> 'f node) \<Rightarrow> ('f, 'z) trie_reader_scheme \<Rightarrow> trie_error + 'f" where
  "TrieReader_Hash F pool t =
     (case tr_rootKey t of None \<Rightarrow> Inl ErrPanic
      | Some rootKey \<Rightarrow> bindE (ReadStorage_Get F pool (tr_storage t) rootKey)
          (\<lambda>root. Node_Hash F (tr_hash t) root (path rootKey None)))"

section \<open>Writing\<close>

definition putNode :: "'f felt_ops \<Rightarrow> 'f trie \<Rightarrow> bit_array \<Rightarrow> 'f node \<Rightarrow> trie_error + 'f trie" where
  "putNode F t key n = bindE (Storage_Put F (tr_storage t) key n) (\<lambda>s. Inr (t\<lparr>tr_storage := s\<rparr>))"

definition addDirty :: "'f trie \<Rightarrow> bit_array \<Rightarrow> 'f trie" where
  "addDirty t key = t\<lparr>tr_dirtyNodes := tr_dirtyNodes t @ [key]\<rparr>"

definition PutInner :: "'f felt_ops \<Rightarrow> 'f trie \<Rightarrow> bit_array \<Rightarrow> 'f node \<Rightarrow> trie_error + 'f trie" where
  "PutInner F t key n = putNode F t key n"

definition setRootKey :: "'f trie \<Rightarrow> bit_array option \<Rightarrow> 'f trie" where
  "setRootKey t newRootKey = t\<lparr>tr_rootKey := newRootKey, tr_rootKeyIsDirty := True\<rparr>"

definition updateLeaf ::
  "'f felt_ops \<Rightarrow> (bit_array \<Rightarrow> 'f node) \<Rightarrow> 'f trie \<Rightarrow> bit_array \<Rightarrow> 'f node \<Rightarrow> 'f \<Rightarrow> trie_error + 'f trie \<times> 'f option" where
  "updateLeaf F pool t nodeKey n val =
     (if val \<noteq> feltZero F then
        (case ReadStorage_Get F pool (tr_storage t) nodeKey of
           Inr existingLeaf \<Rightarrow>
             (case nd_Value existingLeaf of None \<Rightarrow> Inl ErrPanic
              | Some old \<Rightarrow> bindE (putNode F t nodeKey n) (\<lambda>t1. Inr (addDirty t1 nodeKey, Some old)))
         | Inl e \<Rightarrow> if e \<noteq> ErrKeyNotFound then Inl e else Inr (t, None))
      else Inr (t, None))"

definition handleEmptyTrie ::
  "'f felt_ops \<Rightarrow> 'f trie \<Rightarrow> 'f \<Rightarrow> bit_array \<Rightarrow> 'f node \<Rightarrow> 'f \<Rightarrow> trie_error + 'f trie \<times> 'f option" where
  "handleEmptyTrie F t old nodeKey n val =
     (if val = feltZero F then Inr (t, None)
      else bindE (putNode F t nodeKey n) (\<lambda>t1. Inr (setRootKey t1 (Some nodeKey), Some old)))"

text \<open>Writing through the pointer to a child key.\<close>

definition setLink :: "'f node \<Rightarrow> bool \<Rightarrow> bit_array \<Rightarrow> trie_error + 'f node" where
  "setLink n left key =
     (if left then (case nd_Left n of None \<Rightarrow> Inl ErrPanic | Some _ \<Rightarrow> Inr (n\<lparr>nd_Left := Some key\<rparr>))
      else (case nd_Right n of None \<Rightarrow> Inl ErrPanic | Some _ \<Rightarrow> Inr (n\<lparr>nd_Right := Some key\<rparr>)))"

definition replaceLinkWithNewParent :: "bit_array \<Rightarrow> bit_array \<Rightarrow> 'f node \<Rightarrow> trie_error + 'f node" where
  "replaceLinkWithNewParent key commonKey siblingParent =
     setLink siblingParent (Equal (nd_Left siblingParent) (Some key)) commonKey"

definition deleteLast :: "'f felt_ops \<Rightarrow> 'f trie \<Rightarrow> (bit_array \<times> 'f node) list \<Rightarrow> trie_error + 'f trie" where
  "deleteLast F t nodes =
     (case rev nodes of
        [] \<Rightarrow> Inl ErrPanic
      | (lastKey, lastNode) # rest \<Rightarrow>
          let t1 = t\<lparr>tr_storage := Storage_Delete (tr_storage t) lastKey\<rparr>
          in case rest of
               [] \<Rightarrow> Inr (setRootKey t1 None)
             | (parentKey, parent) # upper \<Rightarrow>
                 let t2 = t1\<lparr>tr_storage := Storage_Delete (tr_storage t1) parentKey\<rparr>
                 in case (if Equal (nd_Left parent) (Some lastKey) then nd_Right parent else nd_Left parent) of
                      None \<Rightarrow> Inl ErrPanic
                    | Some siblingKey \<Rightarrow>
                        (case upper of
                           [] \<Rightarrow> Inr (setRootKey t2 (Some siblingKey))
                         | (grandParentKey, grandParent) # _ \<Rightarrow>
                             bindE (setLink grandParent (Equal (nd_Left grandParent) (Some parentKey)) siblingKey)
                               (\<lambda>g. bindE (putNode F t2 grandParentKey g) (\<lambda>t3. Inr (addDirty t3 siblingKey)))))"

definition deleteExistingKey ::
  "'f felt_ops \<Rightarrow> 'f trie \<Rightarrow> bit_array \<times> 'f node \<Rightarrow> bit_array \<Rightarrow> (bit_array \<times> 'f node) list \<Rightarrow>
   trie_error + 'f trie \<times> 'f option" where
  "deleteExistingKey F t sibling nodeKey nodes =
     (if Equal (Some nodeKey) (Some (fst sibling)) then
        (case nd_Value (snd sibling) of None \<Rightarrow> Inl ErrPanic
         | Some old \<Rightarrow> bindE (deleteLast F t nodes) (\<lambda>t1. Inr (t1, Some old)))
      else Inr (t, None))"

text \<open>A proof node whose key is the sibling's takes its child in place; only its key is used.\<close>

definition insertOrUpdateValue ::
  "'f felt_ops \<Rightarrow> (bit_array \<Rightarrow> 'f node) \<Rightarrow> 'f trie \<Rightarrow> bit_array \<Rightarrow> 'f node \<Rightarrow> (bit_array \<times> 'f node) list \<Rightarrow>
   bit_array \<times> 'f node \<Rightarrow> bool \<Rightarrow> trie_error + 'f trie" where
  "insertOrUpdateValue F pool t nodeKey n nodes sibling siblingIsParentProof =
     (let commonKey = CommonMSBs nodeKey (fst sibling)
      in bindE
        (if siblingIsParentProof then
           bindE (GetNodeFromKey F pool t commonKey) (\<lambda>newParent.
           bindE (Node_Hash F (tr_hash t) n nodeKey) (\<lambda>h.
             let newParent' =
                   (if IsBitSet nodeKey (Len commonKey) then newParent\<lparr>nd_Right := Some nodeKey, nd_RightHash := Some h\<rparr>
                    else newParent\<lparr>nd_Left := Some nodeKey, nd_LeftHash := Some h\<rparr>)
             in bindE (putNode F t commonKey newParent') (\<lambda>t1. Inr (addDirty t1 commonKey))))
         else
           let right = IsBitSet nodeKey (Len commonKey);
               leftKey = (if right then fst sibling else nodeKey);
               rightKey = (if right then nodeKey else fst sibling);
               leftChild = (if right then snd sibling else n);
               rightChild = (if right then n else snd sibling)
           in bindE (Node_Hash F (tr_hash t) leftChild (path leftKey (Some commonKey))) (\<lambda>leftChildHash.
              bindE (Node_Hash F (tr_hash t) rightChild (path rightKey (Some commonKey))) (\<lambda>rightChildHash.
                let newParent = newNode\<lparr>nd_Left := Some leftKey, nd_Right := Some rightKey,
                                        nd_Value := Some (tr_hash t leftChildHash rightChildHash)\<rparr>
                in bindE (putNode F t commonKey newParent) (\<lambda>t1.
                   case rev nodes of
                     _ # (parentKey, siblingParent) # _ \<Rightarrow>
                       bindE (replaceLinkWithNewParent (fst sibling) commonKey siblingParent) (\<lambda>p.
                       bindE (putNode F t1 parentKey p) (\<lambda>t2. Inr (addDirty t2 commonKey)))
                   | _ \<Rightarrow> Inr (setRootKey t1 (Some commonKey))))))
        (\<lambda>t3. putNode F t3 nodeKey n))"

definition Put ::
  "'f felt_ops \<Rightarrow> (bit_array \<Rightarrow> 'f node) \<Rightarrow> 'f trie \<Rightarrow> 'f \<Rightarrow> 'f \<Rightarrow> trie_error + 'f trie \<times> 'f option" where
  "Put F pool t key val =
     (if feltCmp F key (tr_maxKey t) > 0 then Inl ErrKeyTooLarge
      else let old = feltZero F; nodeKey = FeltToKey F t key; n = newNode\<lparr>nd_Value := Some val\<rparr>
      in bindE (updateLeaf F pool t nodeKey n val) (\<lambda>(t1, oldValue).
         if oldValue \<noteq> None then Inr (t1, oldValue)
         else bindE (nodesFromRoot F pool t1 nodeKey) (\<lambda>nodes.
           if nodes = [] then handleEmptyTrie F t1 old nodeKey n val
           else let sibling = last nodes
           in bindE (deleteExistingKey F t1 sibling nodeKey nodes) (\<lambda>(t2, oldValue2).
              if oldValue2 \<noteq> None then Inr (t2, oldValue2)
              else if val = feltZero F then Inr (t2, None)
              else bindE (insertOrUpdateValue F pool t2 nodeKey n nodes sibling False)
                     (\<lambda>t3. Inr (t3, Some old))))))"

definition Trie_Update ::
  "'f felt_ops \<Rightarrow> (bit_array \<Rightarrow> 'f node) \<Rightarrow> 'f trie \<Rightarrow> 'f \<Rightarrow> 'f \<Rightarrow> trie_error + 'f trie" where
  "Trie_Update F pool t key val = bindE (Put F pool t key val) (\<lambda>(t1, _). Inr t1)"

record 'f storage_node =
  sn_key :: "bit_array option"
  sn_node :: "'f node option"

definition PutWithProof ::
  "'f felt_ops \<Rightarrow> (bit_array \<Rightarrow> 'f node) \<Rightarrow> 'f trie \<Rightarrow> 'f \<Rightarrow> 'f \<Rightarrow> 'f storage_node list \<Rightarrow>
   trie_error + 'f trie \<times> 'f option" where
  "PutWithProof F pool t key val proof =
     (if feltCmp F key (tr_maxKey t) > 0 then Inl ErrKeyTooLarge
      else let old = feltZero F; nodeKey = FeltToKey F t key; n = newNode\<lparr>nd_Value := Some val\<rparr>
      in bindE (updateLeaf F pool t nodeKey n val) (\<lambda>(t1, oldValue).
         if oldValue \<noteq> None then Inr (t1, oldValue)
         else bindE (nodesFromRoot F pool t1 nodeKey) (\<lambda>nodes.
           if nodes = [] then handleEmptyTrie F t1 old nodeKey n val
           else let sibling = last nodes
           in bindE (deleteExistingKey F t1 sibling nodeKey nodes) (\<lambda>(t2, oldValue2).
              if oldValue2 \<noteq> None then Inr (t2, oldValue2)
              else if val = feltZero F then Inr (t2, None)
              else let parentIsProof = (\<exists>p \<in> set proof. Equal (sn_key p) (Some (fst sibling)))
              in bindE (insertOrUpdateValue F pool t2 nodeKey n nodes sibling parentIsProof)
                   (\<lambda>t3. Inr (t3, Some old))))))"

section \<open>The commitment\<close>

text \<open>
  The two ways to update the children of a node. They take the update of a subtree as an
  argument. In the concurrent one the two goroutines work on disjoint keys of a storage
  that serialises single operations; \<open>leftFirst\<close> says which of the two runs comes first.
\<close>

definition updateChild ::
  "('f trie \<Rightarrow> bit_array \<Rightarrow> trie_error + 'f trie \<times> 'f node) \<Rightarrow> 'f trie \<Rightarrow> bit_array option \<Rightarrow> bool \<Rightarrow>
   trie_error + 'f trie \<times> 'f node option" where
  "updateChild update t child isProof =
     (if isProof then Inr (t, None)
      else case child of None \<Rightarrow> Inl ErrPanic
           | Some key \<Rightarrow> bindE (update t key) (\<lambda>(t1, n). Inr (t1, Some n)))"

definition updateChildTriesSerially ::
  "('f trie \<Rightarrow> bit_array \<Rightarrow> trie_error + 'f trie \<times> 'f node) \<Rightarrow> 'f trie \<Rightarrow> 'f node \<Rightarrow> bool \<Rightarrow> bool \<Rightarrow>
   trie_error + 'f trie \<times> 'f node option \<times> 'f node option" where
  "updateChildTriesSerially update t root leftIsProof rightIsProof =
     bindE (updateChild update t (nd_Left root) leftIsProof) (\<lambda>(t1, leftChild).
     bindE (updateChild update t1 (nd_Right root) rightIsProof) (\<lambda>(t2, rightChild).
       Inr (t2, leftChild, rightChild)))"

definition updateChildTriesConcurrently ::
  "('f trie \<Rightarrow> bit_array \<Rightarrow> trie_error + 'f trie \<times> 'f node) \<Rightarrow> bool \<Rightarrow> 'f trie \<Rightarrow> 'f node \<Rightarrow> bool \<Rightarrow> bool \<Rightarrow>
   trie_error + 'f trie \<times> 'f node option \<times> 'f node option" where
  "updateChildTriesConcurrently update leftFirst t root leftIsProof rightIsProof =
     (if leftFirst then updateChildTriesSerially update t root leftIsProof rightIsProof
      else case updateChild update t (nd_Right root) rightIsProof of
             Inl rErr \<Rightarrow> (case updateChild update t (nd_Left root) leftIsProof of Inl lErr \<Rightarrow> Inl lErr | Inr _ \<Rightarrow> Inl rErr)
           | Inr (t1, rightChild) \<Rightarrow>
               bindE (updateChild update t1 (nd_Left root) leftIsProof) (\<lambda>(t2, leftChild).
                 Inr (t2, leftChild, rightChild)))"

definition childHash ::
  "'f felt_ops \<Rightarrow> ('f \<Rightarrow> 'f \<Rightarrow> 'f) \<Rightarrow> bit_array \<Rightarrow> bit_array option \<Rightarrow> 'f node option \<Rightarrow> 'f option \<Rightarrow> bool \<Rightarrow>
   trie_error + 'f" where
  "childHash F hash key childKey child proofHash isProof =
     (if isProof then (case proofHash of None \<Rightarrow> Inl ErrPanic | Some h \<Rightarrow> Inr h)
      else case (childKey, child) of
             (Some k, Some n) \<Rightarrow> Node_Hash F hash n (path k (Some key))
           | _ \<Rightarrow> Inl ErrPanic)"

primrec updateValueIfDirty ::
  "'f felt_ops \<Rightarrow> (bit_array \<Rightarrow> 'f node) \<Rightarrow> (bit_array \<Rightarrow> bool) \<Rightarrow> nat \<Rightarrow> 'f trie \<Rightarrow> bit_array \<Rightarrow>
   trie_error + 'f trie \<times> 'f node" where
  "updateValueIfDirty F pool leftFirst 0 = (\<lambda>t key. Inl ErrDiverges)"
| "updateValueIfDirty F pool leftFirst (Suc fuel) = (\<lambda>t key.
     bindE (ReadStorage_Get F pool (tr_storage t) key) (\<lambda>node.
       if Len key = tr_height t then Inr (t, node)
       else
         let isDirty = (\<exists>d \<in> set (tr_dirtyNodes t). Len key < Len d \<and> EqualMSBs key d);
             leftIsProof = Equal (nd_Left node) (Some emptyBitArray);
             rightIsProof = Equal (nd_Right node) (Some emptyBitArray);
             shouldUpdate = (if leftIsProof \<and> rightIsProof then False
                             else if leftIsProof \<or> rightIsProof then True else isDirty)
         in if \<not> shouldUpdate then Inr (t, node)
            else
              bindE (if ba_len key \<le> 8
                     then updateChildTriesConcurrently (updateValueIfDirty F pool leftFirst fuel) (leftFirst key)
                            t node leftIsProof rightIsProof
                     else updateChildTriesSerially (updateValueIfDirty F pool leftFirst fuel)
                            t node leftIsProof rightIsProof) (\<lambda>(t1, leftChild, rightChild).
              bindE (childHash F (tr_hash t) key (nd_Left node) leftChild (nd_LeftHash node) leftIsProof) (\<lambda>leftHash.
              bindE (childHash F (tr_hash t) key (nd_Right node) rightChild (nd_RightHash node) rightIsProof) (\<lambda>rightHash.
                let node' = node\<lparr>nd_Value := Some (tr_hash t leftHash rightHash)\<rparr>
                in bindE (putNode F t1 key node') (\<lambda>t2. Inr (t2, node')))))))"

definition Trie_Hash ::
  "'f felt_ops \<Rightarrow> (bit_array \<Rightarrow> 'f node) \<Rightarrow> (bit_array \<Rightarrow> bool) \<Rightarrow> 'f trie \<Rightarrow> trie_error + 'f trie \<times> 'f" where
  "Trie_Hash F pool leftFirst t =
     (let t1 = (if tr_rootKeyIsDirty t then
                  (case tr_rootKey t of
                     None \<Rightarrow> t\<lparr>tr_storage := DeleteRootKey (tr_storage t), tr_rootKeyIsDirty := False\<rparr>
                   | Some rootKey \<Rightarrow> t\<lparr>tr_storage := PutRootKey (tr_storage t) rootKey, tr_rootKeyIsDirty := False\<rparr>)
                else t)
      in case tr_rootKey t1 of
           None \<Rightarrow> Inr (t1\<lparr>tr_dirtyNodes := []\<rparr>, feltZero F)
         | Some rootKey \<Rightarrow>
             bindE (updateValueIfDirty F pool leftFirst 257 t1 rootKey) (\<lambda>(t2, root).
             let t3 = t2\<lparr>tr_dirtyNodes := []\<rparr>
             in bindE (Node_Hash F (tr_hash t3) root (path rootKey None)) (\<lambda>h. Inr (t3, h))))"

definition Trie_Root ::
  "'f felt_ops \<Rightarrow> (bit_array \<Rightarrow> 'f node) \<Rightarrow> (bit_array \<Rightarrow> bool) \<Rightarrow> 'f trie \<Rightarrow> trie_error + 'f trie \<times> 'f" where
  "Trie_Root F pool leftFirst t = Trie_Hash F pool leftFirst t"

definition Trie_Commit ::
  "'f felt_ops \<Rightarrow> (bit_array \<Rightarrow> 'f node) \<Rightarrow> (bit_array \<Rightarrow> bool) \<Rightarrow> 'f trie \<Rightarrow> trie_error + 'f trie" where
  "Trie_Commit F pool leftFirst t = bindE (Trie_Hash F pool leftFirst t) (\<lambda>(t1, _). Inr t1)"

end
