(* ===== verification/Trie_Tree.thy ===== *)
theory Trie_Tree
  imports "HOL-Library.Sublist" Main
begin

text \<open>
  The abstract level of the trie: a tree in which a leaf has the full key and a branch the
  common prefix of the keys below it, together with the value that is cached for the
  branch. \<open>E\<close> is the hash of an edge (a value and the path above it), \<open>H\<close> the hash of two
  children. The operations are those of the trie, without its storage; \<open>tnode\<close> is the
  content of the storage that a tree stands for.
\<close>

section \<open>Trees\<close>

datatype 'f ptree =
    PLeaf (pkey: "bool list") (cval: 'f)
  | PBranch (pkey: "bool list") (cval: 'f) (pleft: "'f ptree") (pright: "'f ptree")

fun pwf :: "nat \<Rightarrow> 'f ptree \<Rightarrow> bool" where
  "pwf h (PLeaf k v) \<longleftrightarrow> length k = h"
| "pwf h (PBranch p c l r) \<longleftrightarrow> length p < h \<and> prefix (p @ [False]) (pkey l) \<and> prefix (p @ [True]) (pkey r) \<and>
     pwf h l \<and> pwf h r"

fun pview :: "'f ptree \<Rightarrow> 'f \<times> (bool list \<times> bool list) option" where
  "pview (PLeaf k v) = (v, None)"
| "pview (PBranch p c l r) = (c, Some (pkey l, pkey r))"

fun tnode :: "'f ptree \<Rightarrow> bool list \<Rightarrow> ('f \<times> (bool list \<times> bool list) option) option" where
  "tnode (PLeaf k v) x = (if x = k then Some (v, None) else None)"
| "tnode (PBranch p c l r) x =
     (if x = p then Some (c, Some (pkey l, pkey r))
      else if prefix (p @ [False]) x then tnode l x
      else if prefix (p @ [True]) x then tnode r x
      else None)"

fun ppath :: "bool list \<Rightarrow> 'f ptree \<Rightarrow> 'f ptree list" where
  "ppath x (PLeaf k v) = [PLeaf k v]"
| "ppath x (PBranch p c l r) = PBranch p c l r #
     (if prefix (p @ [False]) x then ppath x l else if prefix (p @ [True]) x then ppath x r else [])"

fun pval :: "('f \<Rightarrow> bool list \<Rightarrow> 'f) \<Rightarrow> ('f \<Rightarrow> 'f \<Rightarrow> 'f) \<Rightarrow> 'f ptree \<Rightarrow> 'f" where
  "pval E H (PLeaf k v) = v"
| "pval E H (PBranch p c l r) =
     H (E (pval E H l) (drop (Suc (length p)) (pkey l))) (E (pval E H r) (drop (Suc (length p)) (pkey r)))"

text \<open>The updates: a leaf beside a subtree, a new leaf, a new value for a leaf, a removed leaf.\<close>

definition pjoin :: "('f \<Rightarrow> bool list \<Rightarrow> 'f) \<Rightarrow> ('f \<Rightarrow> 'f \<Rightarrow> 'f) \<Rightarrow> bool list \<Rightarrow> 'f \<Rightarrow> 'f ptree \<Rightarrow> 'f ptree" where
  "pjoin E H x v T =
     (let q = longest_common_prefix x (pkey T); n = Suc (length q);
          eT = E (cval T) (drop n (pkey T)); ex = E v (drop n x)
      in if x ! length q then PBranch q (H eT ex) T (PLeaf x v) else PBranch q (H ex eT) (PLeaf x v) T)"

fun pins :: "('f \<Rightarrow> bool list \<Rightarrow> 'f) \<Rightarrow> ('f \<Rightarrow> 'f \<Rightarrow> 'f) \<Rightarrow> bool list \<Rightarrow> 'f \<Rightarrow> 'f ptree \<Rightarrow> 'f ptree" where
  "pins E H x v (PLeaf k w) = pjoin E H x v (PLeaf k w)"
| "pins E H x v (PBranch p c l r) =
     (if prefix (p @ [False]) x then PBranch p c (pins E H x v l) r
      else if prefix (p @ [True]) x then PBranch p c l (pins E H x v r)
      else pjoin E H x v (PBranch p c l r))"

fun pset :: "bool list \<Rightarrow> 'f \<Rightarrow> 'f ptree \<Rightarrow> 'f ptree" where
  "pset x v (PLeaf k w) = PLeaf k v"
| "pset x v (PBranch p c l r) =
     (if prefix (p @ [False]) x then PBranch p c (pset x v l) r else PBranch p c l (pset x v r))"

fun pdel :: "bool list \<Rightarrow> 'f ptree \<Rightarrow> 'f ptree option" where
  "pdel x (PLeaf k w) = None"
| "pdel x (PBranch p c l r) =
     (if prefix (p @ [False]) x
      then (case pdel x l of None \<Rightarrow> Some r | Some l' \<Rightarrow> Some (PBranch p c l' r))
      else (case pdel x r of None \<Rightarrow> Some l | Some r' \<Rightarrow> Some (PBranch p c l r')))"

text \<open>
  A cached value is right, or some changed key \<open>d \<in> D\<close> lies below its branch. \<open>pupd\<close> computes
  the values of the branches above changed keys.
\<close>

fun pclean :: "('f \<Rightarrow> bool list \<Rightarrow> 'f) \<Rightarrow> ('f \<Rightarrow> 'f \<Rightarrow> 'f) \<Rightarrow> bool list set \<Rightarrow> 'f ptree \<Rightarrow> bool" where
  "pclean E H D (PLeaf k v) \<longleftrightarrow> True"
| "pclean E H D (PBranch p c l r) \<longleftrightarrow>
     (c = pval E H (PBranch p c l r) \<or> (\<exists>d\<in>D. strict_prefix p d)) \<and> pclean E H D l \<and> pclean E H D r"

fun pupd :: "('f \<Rightarrow> bool list \<Rightarrow> 'f) \<Rightarrow> ('f \<Rightarrow> 'f \<Rightarrow> 'f) \<Rightarrow> bool list set \<Rightarrow> 'f ptree \<Rightarrow> 'f ptree" where
  "pupd E H D (PLeaf k v) = PLeaf k v"
| "pupd E H D (PBranch p c l r) =
     (if \<exists>d\<in>D. strict_prefix p d
      then let l' = pupd E H D l; r' = pupd E H D r
           in PBranch p (H (E (cval l') (drop (Suc (length p)) (pkey l))) (E (cval r') (drop (Suc (length p)) (pkey r)))) l' r'
      else PBranch p c l r)"

section \<open>Prefixes\<close>

lemma prefix_bit_cases:
  "prefix (p @ [b]) x \<longleftrightarrow> strict_prefix p x \<and> x ! length p = b"
proof
  assume "strict_prefix p x \<and> x ! length p = b"
  moreover from this obtain zs where "x = p @ zs" "zs \<noteq> []" by (auto simp: strict_prefix_def prefix_def)
  ultimately show "prefix (p @ [b]) x" by (cases zs) (auto simp: nth_append)
qed (auto simp: strict_prefix_def prefix_def nth_append)

lemma prefix_bit_excl: "prefix (p @ [False]) x \<Longrightarrow> prefix (p @ [True]) x \<Longrightarrow> False"
  by (auto simp: prefix_bit_cases)

lemma prefix_bit_not_self [simp]: "\<not> prefix (p @ [b]) p"
  by (auto simp: prefix_def)

lemma prefix_bit_trans: "prefix (p @ [b]) k \<Longrightarrow> prefix k y \<Longrightarrow> prefix (p @ [b]) y"
  by (rule prefix_order.trans)

lemma lcp_diverge:
  assumes "\<not> prefix x k" and "\<not> prefix k x"
  defines "q \<equiv> longest_common_prefix x k"
  shows "prefix (q @ [x ! length q]) x" "prefix (q @ [\<not> x ! length q]) k"
proof -
  have px: "prefix q x" and pk: "prefix q k"
    unfolding q_def by (rule longest_common_prefix_prefix1, rule longest_common_prefix_prefix2)
  have sx: "strict_prefix q x" and sk: "strict_prefix q k"
    using px pk assms(1,2) by (auto simp: strict_prefix_def)
  show *: "prefix (q @ [x ! length q]) x" using sx by (simp add: prefix_bit_cases)
  have kk: "prefix (q @ [k ! length q]) k" using sk by (simp add: prefix_bit_cases)
  have "k ! length q \<noteq> x ! length q"
  proof
    assume "k ! length q = x ! length q"
    with * kk have "prefix (q @ [x ! length q]) (longest_common_prefix x k)"
      by (intro longest_common_prefix_max_prefix) simp_all
    then show False unfolding q_def [symmetric] by simp
  qed
  with kk show "prefix (q @ [\<not> x ! length q]) k"
    by (cases "k ! length q"; cases "x ! length q") simp_all
qed

definition apart :: "bool list \<Rightarrow> 'f ptree \<Rightarrow> bool" where
  "apart x T \<longleftrightarrow> \<not> prefix x (pkey T) \<and> \<not> prefix (pkey T) x"

abbreviation lcpk :: "bool list \<Rightarrow> 'f ptree \<Rightarrow> bool list" where
  "lcpk x T \<equiv> longest_common_prefix x (pkey T)"

lemma apartD:
  assumes "apart x T"
  shows "prefix (lcpk x T @ [x ! length (lcpk x T)]) x" "prefix (lcpk x T @ [\<not> x ! length (lcpk x T)]) (pkey T)"
  using lcp_diverge assms unfolding apart_def by blast+

lemma branch_apart:
  assumes "pwf h (PBranch p c l r)" "length x = h" "\<not> prefix (p @ [False]) x" "\<not> prefix (p @ [True]) x"
  shows "apart x (PBranch p c l r)"
proof -
  have "\<not> prefix p x" using assms by (cases "x ! length p") (auto simp: prefix_bit_cases strict_prefix_def)
  moreover have "\<not> prefix x p" using assms(1,2) by (auto dest: prefix_length_le)
  ultimately show ?thesis by (simp add: apart_def)
qed

section \<open>Walking towards a key\<close>

text \<open>A branch with its child \<open>s\<close> on side \<open>b\<close>, so that both sides are one case.\<close>

definition pbr :: "bool \<Rightarrow> bool list \<Rightarrow> 'f \<Rightarrow> 'f ptree \<Rightarrow> 'f ptree \<Rightarrow> 'f ptree" where
  "pbr b p c s s' = (if b then PBranch p c s' s else PBranch p c s s')"

lemma pbr_simps [simp]:
  "pkey (pbr b p c s s') = p" "cval (pbr b p c s s') = c"
  "pwf h (pbr b p c s s') \<longleftrightarrow>
     length p < h \<and> prefix (p @ [b]) (pkey s) \<and> prefix (p @ [\<not> b]) (pkey s') \<and> pwf h s \<and> pwf h s'"
  by (cases b; auto simp: pbr_def)+

lemma prefix_bit_neg: "prefix (p @ [b]) x \<Longrightarrow> prefix (p @ [\<not> b]) x \<Longrightarrow> False"
  by (auto simp: prefix_bit_cases)

lemma tnode_pbr:
  "tnode (pbr b p c s s') y =
     (if y = p then Some (pview (pbr b p c s s')) else if prefix (p @ [b]) y then tnode s y
      else if prefix (p @ [\<not> b]) y then tnode s' y else None)"
  by (cases b) (auto simp: pbr_def dest: prefix_bit_excl)

lemma pbr_below:
  assumes "prefix (p @ [b]) x"
  shows "ppath x (pbr b p c s s') = pbr b p c s s' # ppath x s"
    "pins E H x v (pbr b p c s s') = pbr b p c (pins E H x v s) s'"
    "pset x v (pbr b p c s s') = pbr b p c (pset x v s) s'"
    "pdel x (pbr b p c s s') = (case pdel x s of None \<Rightarrow> Some s' | Some t \<Rightarrow> Some (pbr b p c t s'))"
proof -
  have "\<not> prefix (p @ [\<not> b]) x" using assms prefix_bit_neg by blast
  with assms show "ppath x (pbr b p c s s') = pbr b p c s s' # ppath x s"
    "pins E H x v (pbr b p c s s') = pbr b p c (pins E H x v s) s'"
    "pset x v (pbr b p c s s') = pbr b p c (pset x v s) s'"
    "pdel x (pbr b p c s s') = (case pdel x s of None \<Rightarrow> Some s' | Some t \<Rightarrow> Some (pbr b p c t s'))"
    by (cases b; simp add: pbr_def split: option.split)+
qed

lemma walk_induct [consumes 2, case_names leaf here below]:
  assumes "pwf h T" and "length x = h"
    and leaf: "\<And>k v. length k = h \<Longrightarrow> P (PLeaf k v)"
    and here: "\<And>p c l r. pwf h (PBranch p c l r) \<Longrightarrow> \<not> prefix (p @ [False]) x \<Longrightarrow> \<not> prefix (p @ [True]) x \<Longrightarrow>
      apart x (PBranch p c l r) \<Longrightarrow> P (PBranch p c l r)"
    and below: "\<And>b p c s s'. pwf h (pbr b p c s s') \<Longrightarrow> prefix (p @ [b]) x \<Longrightarrow> P s \<Longrightarrow> P (pbr b p c s s')"
  shows "P T"
  using assms(1)
proof (induction T)
  case (PLeaf k v)
  then show ?case by (simp add: leaf)
next
  case (PBranch p c l r)
  consider (left) "prefix (p @ [False]) x" | (right) "prefix (p @ [True]) x"
    | (here) "\<not> prefix (p @ [False]) x" "\<not> prefix (p @ [True]) x" by blast
  then show ?case
  proof cases
    case left
    then show ?thesis using below [of False p c l r] PBranch by (simp add: pbr_def)
  next
    case right
    then show ?thesis using below [of True p c r l] PBranch by (simp add: pbr_def)
  next
    case h: here
    show ?thesis by (rule here [OF PBranch.prems h branch_apart [OF PBranch.prems assms(2) h]])
  qed
qed

section \<open>Content\<close>

lemma tnode_root: "tnode T (pkey T) = Some (pview T)"
  by (cases T) simp_all

lemma tnode_below: "pwf h T \<Longrightarrow> tnode T y \<noteq> None \<Longrightarrow> prefix (pkey T) y"
proof (induction T y rule: tnode.induct)
  case (2 p c l r y)
  then show ?case
    by (auto split: if_splits dest: append_prefixD)
qed (auto split: if_splits)

lemma tnode_outside: "pwf h T \<Longrightarrow> \<not> prefix (pkey T) y \<Longrightarrow> tnode T y = None"
  using tnode_below by blast

lemma pwf_len: "pwf h T \<Longrightarrow> length (pkey T) \<le> h"
  by (cases T) auto

lemma tnode_len: "pwf h T \<Longrightarrow> tnode T y = Some w \<Longrightarrow> length y \<le> h"
  by (induction T y rule: tnode.induct) (auto split: if_splits)

text \<open>At the height of the tree there are only leaves, above it only branches.\<close>

lemma tnode_leaf: "pwf h T \<Longrightarrow> tnode T y = Some w \<Longrightarrow> length y = h \<longleftrightarrow> snd w = None"
  by (induction T y rule: tnode.induct) (auto split: if_splits)

text \<open>The children of a branch extend its key and are there.\<close>

lemma tnode_children:
  "pwf h T \<Longrightarrow> tnode T y = Some w \<Longrightarrow> snd w = Some ch \<Longrightarrow>
   prefix (y @ [False]) (fst ch) \<and> prefix (y @ [True]) (snd ch) \<and> length (fst ch) \<le> h \<and> length (snd ch) \<le> h \<and>
   tnode T (fst ch) \<noteq> None \<and> tnode T (snd ch) \<noteq> None"
proof (induction T y rule: tnode.induct)
  case (2 p c l r y)
  have lift: "tnode (PBranch p c l r) z = tnode (if b then r else l) z" if "prefix (p @ [b]) z" for b z
    using that prefix_bit_neg [OF that] by (cases b) auto
  consider (here) "y = p" | (below) b where "y \<noteq> p" "prefix (p @ [b]) y" using "2.prems"(2) by (auto split: if_splits)
  then show ?case
  proof cases
    case here
    then have "ch = (pkey l, pkey r)" using "2.prems"(2,3) by auto
    then show ?thesis using here "2.prems"(1) lift [of False "pkey l"] lift [of True "pkey r"] tnode_root [of l] tnode_root [of r]
      pwf_len [of h l] pwf_len [of h r] by simp
  next
    case (below b)
    let ?s = "if b then r else l"
    have "tnode ?s y = Some w" using lift [OF below(2)] "2.prems"(2) by simp
    then have IH: "prefix (y @ [False]) (fst ch) \<and> prefix (y @ [True]) (snd ch) \<and> length (fst ch) \<le> h \<and> length (snd ch) \<le> h \<and>
        tnode ?s (fst ch) \<noteq> None \<and> tnode ?s (snd ch) \<noteq> None"
      using "2.IH"(1) "2.IH"(2) below prefix_bit_excl "2.prems"(1,3) by (cases b) auto
    then have "prefix (p @ [b]) (fst ch)" "prefix (p @ [b]) (snd ch)"
      using below(2) append_prefixD prefix_order.trans by blast+
    with IH lift show ?thesis by metis
  qed
qed (auto split: if_splits)

lemma ppath_not_Nil [simp]: "ppath x T \<noteq> []"
  by (cases T) auto

lemma apart_absent: "pwf h T \<Longrightarrow> apart x T \<Longrightarrow> tnode T x = None"
  by (simp add: apart_def tnode_outside)

lemma last_ppath:
  assumes "pwf h T" and "length x = h"
  shows "tnode T x = None \<and> apart x (last (ppath x T)) \<or> tnode T x \<noteq> None \<and> (\<exists>v. last (ppath x T) = PLeaf x v)"
  using assms
proof (induction rule: walk_induct)
  case (leaf k v)
  then show ?case using assms(2) by (auto simp: apart_def prefix_def)
next
  case (here p c l r)
  then show ?case using apart_absent [OF here(1,4)] by simp
next
  case (below b p c s s')
  have "p \<noteq> x" using below.hyps(2) by auto
  with below show ?case by (simp add: pbr_below tnode_pbr)
qed

lemma ppath_in:
  assumes "pwf h T" and "length x = h" and "S \<in> set (ppath x T)"
  shows "prefix (pkey T) (pkey S) \<and> pwf h S \<and> tnode T (pkey S) = Some (pview S)"
  using assms
proof (induction rule: walk_induct)
  case (below b p c s s')
  show ?case
  proof (cases "S \<in> set (ppath x s)")
    case True
    with below have IH: "prefix (pkey s) (pkey S)" "pwf h S" "tnode s (pkey S) = Some (pview S)" by simp_all
    then have *: "prefix (p @ [b]) (pkey S)" using below.hyps(1) prefix_bit_trans by fastforce
    then have "p \<noteq> pkey S" by auto
    with * IH show ?thesis by (auto simp: tnode_pbr dest: append_prefixD)
  next
    case False
    with below.prems below.hyps show ?thesis by (auto simp: pbr_below tnode_pbr)
  qed
qed (auto split: if_splits)

section \<open>Insertion\<close>

lemma pjoin_pbr:
  assumes "apart x T"
  defines "q \<equiv> lcpk x T"
  defines "n \<equiv> Suc (length q)"
  shows "pjoin E H x v T = pbr (x ! length q) q
     (if x ! length q then H (E (cval T) (drop n (pkey T))) (E v (drop n x)) else H (E v (drop n x)) (E (cval T) (drop n (pkey T))))
     (PLeaf x v) T"
  by (simp add: pjoin_def Let_def pbr_def q_def n_def)

lemma pjoin_pkey [simp]: "pkey (pjoin E H x v T) = lcpk x T"
  by (simp add: pjoin_def Let_def)

lemma pwf_pjoin:
  assumes "pwf h T" "length x = h" "apart x T"
  shows "pwf h (pjoin E H x v T)"
  using assms(1,2) apartD [OF assms(3)] prefix_length_le [OF apartD(1) [OF assms(3)]]
  unfolding pjoin_pbr [OF assms(3)] by simp

lemma tnode_pjoin:
  assumes "pwf h T" "apart x T"
  shows "tnode (pjoin E H x v T) =
    (tnode T)(lcpk x T \<mapsto> pview (pjoin E H x v T), x \<mapsto> (v, None))"
proof
  fix y
  let ?q = "lcpk x T"
  note d = apartD [OF assms(2)]
  have qx: "?q \<noteq> x" using d(1) by auto
  have x: "tnode T x = None" by (rule apart_absent [OF assms])
  have below: "tnode T y = None" if "\<not> prefix (?q @ [\<not> x ! length ?q]) y"
    using prefix_bit_trans [OF d(2)] tnode_below [OF assms(1)] that by blast
  show "tnode (pjoin E H x v T) y = ((tnode T)(?q \<mapsto> pview (pjoin E H x v T), x \<mapsto> (v, None))) y"
    using qx x d(1) below unfolding pjoin_pbr [OF assms(2)]
    by (auto simp: tnode_pbr dest: prefix_bit_neg)
qed

text \<open>
  The nodes an insertion writes: the new parent of the leaf and of the last node on the
  path, the link of the node above it, and the leaf.
\<close>

fun relink :: "bool list \<Rightarrow> bool list \<Rightarrow> 'f \<times> (bool list \<times> bool list) option \<Rightarrow> 'f \<times> (bool list \<times> bool list) option" where
  "relink old new (c, Some (l, r)) = (if l = old then (c, Some (new, r)) else (c, Some (l, new)))"
| "relink old new (c, None) = (c, None)"

lemma relink_pbr:
  "prefix (p @ [b]) (pkey s) \<Longrightarrow> prefix (p @ [\<not> b]) (pkey s') \<Longrightarrow>
   relink (pkey s) (pkey t) (pview (pbr b p c s s')) = pview (pbr b p c t s')"
  by (cases b) (auto simp: pbr_def dest: prefix_bit_excl)

fun pins_content :: "('f \<Rightarrow> bool list \<Rightarrow> 'f) \<Rightarrow> ('f \<Rightarrow> 'f \<Rightarrow> 'f) \<Rightarrow> bool list \<Rightarrow> 'f \<Rightarrow> 'f ptree list \<Rightarrow>
    (bool list \<Rightarrow> ('f \<times> (bool list \<times> bool list) option) option) \<Rightarrow>
    bool list \<Rightarrow> ('f \<times> (bool list \<times> bool list) option) option" where
  "pins_content E H x v (S # P # _) m =
     m(lcpk x S \<mapsto> pview (pjoin E H x v S), pkey P \<mapsto> relink (pkey S) (lcpk x S) (pview P), x \<mapsto> (v, None))"
| "pins_content E H x v [S] m = m(lcpk x S \<mapsto> pview (pjoin E H x v S), x \<mapsto> (v, None))"
| "pins_content E H x v [] m = m"

text \<open>A path is the root alone, or goes on below it.\<close>

lemma ppath_cases:
  obtains (root) "ppath x T = [T]" | (deeper) S P zs where "rev (ppath x T) = S # P # zs"
proof -
  obtain rest where r: "ppath x T = T # rest" by (cases T) auto
  obtain S zs where S: "rev (ppath x T) = S # zs" using r by (cases "rev (ppath x T)") auto
  show thesis
  proof (cases zs)
    case Nil
    with S have "ppath x T = [S]" by (simp add: rev_eq_Cons_iff)
    with r root show thesis by simp
  next
    case (Cons P zs')
    with S deeper show thesis by simp
  qed
qed

lemma pins_root: "ppath x T = [T] \<Longrightarrow> pins E H x v T = pjoin E H x v T"
  by (cases T) (auto split: if_splits)

lemma pkey_pins: "rev (ppath x T) = S # P # zs \<Longrightarrow> pkey (pins E H x v T) = pkey T"
  by (cases T) (auto split: if_splits)

lemma lcp_below: "prefix z x \<Longrightarrow> prefix z (pkey T) \<Longrightarrow> prefix z (lcpk x T)"
  by (rule longest_common_prefix_max_prefix)

lemma rev_ppath_mem: "rev (ppath x T) = S # P # zs \<Longrightarrow> S \<in> set (ppath x T) \<and> P \<in> set (ppath x T)"
  by (metis list.set_intros set_rev)

lemma tnode_pins:
  assumes "pwf h T" and "length x = h" and "tnode T x = None"
  shows "tnode (pins E H x v T) = pins_content E H x v (rev (ppath x T)) (tnode T)"
  using assms
proof (induction rule: walk_induct)
  case (leaf k w)
  have "apart x (PLeaf k w)" using last_ppath [of h "PLeaf k w" x] leaf assms(2) by auto
  then show ?case using leaf(1) tnode_pjoin [of h "PLeaf k w" x E H v] by (simp del: tnode.simps)
next
  case (here p c l r)
  then show ?case using tnode_pjoin [OF here(1,4), of E H v] by (simp del: tnode.simps)
next
  case (below b p c s s')
  let ?T = "pbr b p c s s'"
  have wf: "pwf h s" "prefix (p @ [b]) (pkey s)" "prefix (p @ [\<not> b]) (pkey s')" using below.hyps(1) by simp_all
  have x: "tnode s x = None" "p \<noteq> x" using below.hyps(2) below.prems by (auto simp: tnode_pbr split: if_splits)
  show ?case
  proof (cases rule: ppath_cases [of x s])
    case root
    have ap: "apart x s" using last_ppath [OF wf(1) assms(2)] root x(1) by simp
    have q: "prefix (p @ [b]) (lcpk x s)" by (rule lcp_below [OF below.hyps(2) wf(2)])
    then have "p \<noteq> lcpk x s" by auto
    then show ?thesis
      using root x q below.hyps(2) tnode_pjoin [OF wf(1) ap, of E H v] relink_pbr [OF wf(2,3), of "pjoin E H x v s" c]
      by (auto simp: pbr_below pins_root tnode_pbr)
  next
    case (deeper S P zs)
    have P: "prefix (pkey s) (pkey P)" and S: "prefix (pkey s) (pkey S)"
      using rev_ppath_mem [OF deeper] ppath_in [OF wf(1) assms(2)] by blast+
    have b: "prefix (p @ [b]) (pkey P)" "prefix (p @ [b]) (lcpk x S)"
      using prefix_bit_trans [OF wf(2) P] lcp_below [OF below.hyps(2) prefix_bit_trans [OF wf(2) S]] .
    then have "p \<noteq> pkey P" "p \<noteq> lcpk x S" by auto
    moreover have "pview (pbr b p c (pins E H x v s) s') = pview ?T"
      using pkey_pins [OF deeper, of E H v] by (simp add: pbr_def)
    ultimately show ?thesis
      using deeper x b below.hyps(2) below.IH [OF x(1)]
      by (auto simp: pbr_below tnode_pbr)
  qed
qed

lemma pkey_pins_below:
  assumes "pwf h s" "length x = h" "prefix z x" "prefix z (pkey s)"
  shows "prefix z (pkey (pins E H x v s))"
  using assms by (cases rule: ppath_cases [of x s]) (simp_all add: pins_root lcp_below pkey_pins)

lemma pwf_pins:
  assumes "pwf h T" and "length x = h" and "tnode T x = None"
  shows "pwf h (pins E H x v T)"
  using assms
proof (induction rule: walk_induct)
  case (leaf k w)
  have "apart x (PLeaf k w)" using last_ppath [of h "PLeaf k w" x] leaf assms(2) by auto
  then show ?case using leaf(1) assms(2) by (simp add: pwf_pjoin)
next
  case (here p c l r)
  then show ?case using assms(2) pwf_pjoin [OF here(1) assms(2) here(4)] by simp
next
  case (below b p c s s')
  have "tnode s x = None" using below.hyps(2) below.prems by (auto simp: tnode_pbr split: if_splits)
  with below show ?case using pkey_pins_below [of h s x "p @ [b]" E H v] assms(2) by (simp add: pbr_below)
qed

section \<open>Changing a leaf\<close>

lemma pkey_pset [simp]: "pkey (pset x v T) = pkey T"
  by (cases T) auto

lemma pset_content:
  assumes "pwf h T" and "length x = h" and "tnode T x \<noteq> None"
  shows "pwf h (pset x v T) \<and> tnode (pset x v T) = (tnode T)(x \<mapsto> (v, None))"
  using assms
proof (induction rule: walk_induct)
  case (leaf k w)
  then show ?case by (auto simp: fun_eq_iff split: if_splits)
next
  case (here p c l r)
  then show ?case using apart_absent [OF here(1,4)] by simp
next
  case (below b p c s s')
  have x: "tnode s x \<noteq> None" "p \<noteq> x" using below.hyps(2) below.prems by (auto simp: tnode_pbr split: if_splits)
  have "pview (pbr b p c (pset x v s) s') = pview (pbr b p c s s')" by (simp add: pbr_def)
  with below x show ?case by (auto simp: pbr_below tnode_pbr)
qed

section \<open>Deletion\<close>

fun sibling_key :: "bool list \<Rightarrow> 'f \<times> (bool list \<times> bool list) option \<Rightarrow> bool list" where
  "sibling_key old (c, Some (l, r)) = (if l = old then r else l)"
| "sibling_key old (c, None) = []"

lemma sibling_key_pbr:
  "prefix (p @ [b]) (pkey s) \<Longrightarrow> prefix (p @ [\<not> b]) (pkey s') \<Longrightarrow>
   sibling_key (pkey s) (pview (pbr b p c s s')) = pkey s'"
  by (cases b) (auto simp: pbr_def dest: prefix_bit_excl)

fun pdel_content :: "bool list \<Rightarrow> 'f ptree list \<Rightarrow> (bool list \<Rightarrow> ('f \<times> (bool list \<times> bool list) option) option) \<Rightarrow>
    bool list \<Rightarrow> ('f \<times> (bool list \<times> bool list) option) option" where
  "pdel_content x [] m = m"
| "pdel_content x [S] m = m(x := None)"
| "pdel_content x [S, P] m = m(x := None, pkey P := None)"
| "pdel_content x (S # P # G # _) m =
     m(x := None, pkey P := None, pkey G \<mapsto> relink (pkey P) (sibling_key x (pview P)) (pview G))"

abbreviation tnode_opt :: "'f ptree option \<Rightarrow> bool list \<Rightarrow> ('f \<times> (bool list \<times> bool list) option) option" where
  "tnode_opt T \<equiv> case T of None \<Rightarrow> Map.empty | Some T' \<Rightarrow> tnode T'"

lemma pdel_root:
  assumes "pwf h T" "length x = h" "tnode T x \<noteq> None" "ppath x T = [T]"
  obtains v where "T = PLeaf x v"
  using last_ppath [OF assms(1,2)] assms(3,4) by auto

text \<open>Deleting below the root keeps the key of the root, unless the leaf is a child of it.\<close>

lemma pdel_below:
  assumes "pwf h T" "length x = h" "tnode T x \<noteq> None" "rev (ppath x T) = S # P # zs"
  shows "\<exists>t. pdel x T = Some t \<and> (if zs = [] then P = T \<and> pkey t = sibling_key x (pview T) else pkey t = pkey T)"
  using assms
proof (induction arbitrary: S P zs rule: walk_induct)
  case (below b p c s s')
  have x: "tnode s x \<noteq> None" using below.hyps(2) below.prems by (auto simp: tnode_pbr split: if_splits)
  have wf: "pwf h s" "prefix (p @ [b]) (pkey s)" "prefix (p @ [\<not> b]) (pkey s')" using below.hyps(1) by simp_all
  show ?case
  proof (cases rule: ppath_cases [of x s])
    case root
    with pdel_root [OF wf(1) assms(2) x] obtain v where "s = PLeaf x v" by blast
    with below root show ?thesis using sibling_key_pbr [OF wf(2,3), of c] by (auto simp: pbr_below)
  next
    case (deeper S' P' zs')
    with below.IH [OF x deeper] below.hyps(2) below.prems show ?thesis by (auto simp: pbr_below)
  qed
qed (use apart_absent in \<open>auto split: if_splits\<close>)

lemma tnode_pdel:
  assumes "pwf h T" and "length x = h" and "tnode T x \<noteq> None"
  shows "tnode_opt (pdel x T) = pdel_content x (rev (ppath x T)) (tnode T)"
  using assms
proof (induction rule: walk_induct)
  case (leaf k w)
  then show ?case by (auto simp: fun_eq_iff split: if_splits)
next
  case (here p c l r)
  then show ?case using apart_absent [OF here(1,4)] by simp
next
  case (below b p c s s')
  let ?T = "pbr b p c s s'"
  have wf: "pwf h s" "pwf h s'" "prefix (p @ [b]) (pkey s)" "prefix (p @ [\<not> b]) (pkey s')" using below.hyps(1) by simp_all
  have x: "tnode s x \<noteq> None" "p \<noteq> x" using below.hyps(2) below.prems by (auto simp: tnode_pbr split: if_splits)
  have s': "tnode s' y = None" if "\<not> prefix (p @ [\<not> b]) y" for y
    using prefix_bit_trans [OF wf(4)] tnode_below [OF wf(2)] that by blast
  show ?case
  proof (cases rule: ppath_cases [of x s])
    case root
    with pdel_root [OF wf(1) assms(2) x(1)] obtain v where "s = PLeaf x v" by blast
    then show ?thesis using below.hyps(2) s' s' [of p] by (auto simp: pbr_below tnode_pbr fun_eq_iff dest: prefix_bit_neg)
  next
    case (deeper S P zs)
    then obtain t where t: "pdel x s = Some t" "zs = [] \<Longrightarrow> P = s \<and> pkey t = sibling_key x (pview s)"
        "zs \<noteq> [] \<Longrightarrow> pkey t = pkey s"
      using pdel_below [OF wf(1) assms(2) x(1) deeper] by auto
    have IH: "tnode t = pdel_content x (S # P # zs) (tnode s)" using below.IH [OF x(1)] t(1) deeper by simp
    have in_s: "prefix (p @ [b]) (pkey R)" if "R \<in> set (ppath x s)" for R
      using prefix_bit_trans [OF wf(3)] ppath_in [OF wf(1) assms(2) that] by blast
    show ?thesis
    proof (cases zs)
      case Nil
      have "relink (pkey s) (pkey t) (pview ?T) = pview (pbr b p c t s')" by (rule relink_pbr [OF wf(3,4)])
      moreover have "p \<noteq> pkey s" using wf(3) by auto
      ultimately show ?thesis
        using Nil IH t below.hyps(2) deeper x wf(3) by (auto simp: pbr_below tnode_pbr fun_eq_iff)
    next
      case (Cons G zs')
      have "P \<in> set (ppath x s)" "G \<in> set (ppath x s)" using deeper Cons by (metis list.set_intros set_rev)+
      then have b: "prefix (p @ [b]) (pkey P)" "prefix (p @ [b]) (pkey G)" by (auto intro: in_s)
      then have "p \<noteq> pkey P" "p \<noteq> pkey G" by auto
      moreover have "pview (pbr b p c t s') = pview ?T" using t(3) Cons by (simp add: pbr_def)
      ultimately show ?thesis
        using Cons IH t(1) below.hyps(2) deeper x b by (auto simp: pbr_below tnode_pbr fun_eq_iff)
    qed
  qed
qed

lemma pwf_pdel:
  assumes "pwf h T" and "length x = h" and "tnode T x \<noteq> None" and "pdel x T = Some t"
  shows "pwf h t \<and> prefix (pkey T) (pkey t)"
  using assms
proof (induction arbitrary: t rule: walk_induct)
  case (here p c l r)
  then show ?case using apart_absent [OF here(1,4)] by simp
next
  case (below b p c s s')
  have "tnode s x \<noteq> None" using below.hyps(2) below.prems by (auto simp: tnode_pbr split: if_splits)
  with below show ?case
    by (auto simp: pbr_below split: option.splits dest: append_prefixD prefix_bit_trans)
qed simp

end
