(* ===== verification/Trie_Commitment.thy ===== *)
theory Trie_Commitment
  imports Trie_Tree
begin

text \<open>
  The commitment of the abstract trie. The first part shows that the cached values stay
  right but above changed keys, and that \<open>pupd\<close> makes all of them right. The second part is
  the sparse Merkle tree of the Starknet specification, over maps, and that its root is
  the root of the tree: the commitment depends on the map alone.
\<close>

section \<open>Cached values\<close>

lemma pclean_pbr [simp]:
  "pclean E H D (pbr b p c s s') \<longleftrightarrow>
     (c = pval E H (pbr b p c s s') \<or> (\<exists>d\<in>D. strict_prefix p d)) \<and> pclean E H D s \<and> pclean E H D s'"
  by (cases b) (auto simp: pbr_def)

lemma pclean_mono: "pclean E H D T \<Longrightarrow> D \<subseteq> D' \<Longrightarrow> pclean E H D' T"
  by (induction T) auto

lemma pclean_stale: "pclean E H D T \<Longrightarrow> cval T \<noteq> pval E H T \<Longrightarrow> \<exists>d\<in>D. strict_prefix (pkey T) d"
  by (cases T) auto

lemma strict_prefix_bit: "prefix (p @ [b]) x \<Longrightarrow> strict_prefix p x"
  by (simp add: prefix_bit_cases)

lemma pclean_pjoin:
  assumes "pclean E H D T" "apart x T"
  shows "pclean E H D (pjoin E H x v T)"
proof (cases "cval T = pval E H T")
  case True
  then show ?thesis using assms(1) by (simp add: pjoin_def Let_def)
next
  case False
  then obtain d where "d \<in> D" "strict_prefix (pkey T) d" using pclean_stale [OF assms(1)] by blast
  moreover have "strict_prefix (lcpk x T) (pkey T)" using strict_prefix_bit [OF apartD(2) [OF assms(2)]] .
  ultimately have "\<exists>d\<in>D. strict_prefix (lcpk x T) d" using prefix_order.less_trans by blast
  then show ?thesis using assms(1) unfolding pjoin_pbr [OF assms(2)] by simp
qed

lemma pclean_pins:
  assumes "pwf h T" "length x = h" "tnode T x = None" "pclean E H D T"
  shows "pclean E H (insert (lcpk x (last (ppath x T))) D) (pins E H x v T)"
  using assms
proof (induction rule: walk_induct)
  case (leaf k w)
  have "apart x (PLeaf k w)" using last_ppath [of h "PLeaf k w" x] leaf assms(2) by auto
  then show ?case by (simp add: pclean_pjoin)
next
  case (here p c l r)
  have "pclean E H (insert (lcpk x (PBranch p c l r)) D) (PBranch p c l r)"
    by (rule pclean_mono [OF here(6)]) blast
  with here show ?case by (simp del: pclean.simps add: pclean_pjoin)
next
  case (below b p c s s')
  have x: "tnode s x = None" using below.hyps(2) below.prems by (auto simp: tnode_pbr split: if_splits)
  have wf: "pwf h s" "prefix (p @ [b]) (pkey s)" using below.hyps(1) by simp_all
  have "last (ppath x s) \<in> set (ppath x s)" by simp
  then have "prefix (pkey s) (pkey (last (ppath x s)))" using ppath_in [OF wf(1) assms(2)] by blast
  then have "strict_prefix p (lcpk x (last (ppath x s)))"
    using strict_prefix_bit [OF lcp_below [OF below.hyps(2) prefix_bit_trans [OF wf(2)]]] by blast
  moreover have "pclean E H (insert q D) s'" for q by (rule pclean_mono [of E H D]) (use below.prems in auto)
  ultimately show ?case using below x by (simp add: pbr_below)
qed

lemma pclean_pset:
  assumes "pwf h T" "length x = h" "tnode T x \<noteq> None" "pclean E H D T"
  shows "pclean E H (insert x D) (pset x v T)"
  using assms
proof (induction rule: walk_induct)
  case (here p c l r)
  then show ?case using apart_absent [OF here(1,4)] by simp
next
  case (below b p c s s')
  have x: "tnode s x \<noteq> None" using below.hyps(2) below.prems by (auto simp: tnode_pbr split: if_splits)
  have "pclean E H (insert x D) s'" by (rule pclean_mono [of E H D]) (use below.prems in auto)
  then show ?case using below x strict_prefix_bit [OF below.hyps(2)] by (simp add: pbr_below)
qed simp

lemma pclean_pdel:
  assumes "pwf h T" "length x = h" "tnode T x \<noteq> None" "pclean E H D T" "rev (ppath x T) = S # P # zs"
  shows "\<exists>t. pdel x T = Some t \<and> prefix (pkey T) (sibling_key x (pview P)) \<and>
    pclean E H (if zs = [] then D else insert (sibling_key x (pview P)) D) t"
  using assms
proof (induction arbitrary: S P zs rule: walk_induct)
  case (leaf k w)
  then show ?case by simp
next
  case (here p c l r)
  then show ?case using apart_absent [OF here(1,4)] by simp
next
  case (below b p c s s')
  have x: "tnode s x \<noteq> None" using below.hyps(2) below.prems by (auto simp: tnode_pbr split: if_splits)
  have wf: "pwf h s" "prefix (p @ [b]) (pkey s)" "prefix (p @ [\<not> b]) (pkey s')" using below.hyps(1) by simp_all
  show ?case
  proof (cases rule: ppath_cases [of x s])
    case root
    with pdel_root [OF wf(1) assms(2) x] obtain v where "s = PLeaf x v" by blast
    with below root wf show ?thesis using sibling_key_pbr [OF wf(2,3), of c] by (auto simp: pbr_below dest: append_prefixD)
  next
    case (deeper S' P' zs')
    then have eq: "S' = S" "P' = P" "zs = zs' @ [pbr b p c s s']" using below.prems below.hyps(2) by (auto simp: pbr_below)
    let ?k = "sibling_key x (pview P)"
    have "pclean E H D s" using below.prems by simp
    then obtain t where t: "pdel x s = Some t" "prefix (pkey s) ?k" "pclean E H (if zs' = [] then D else insert ?k D) t"
      using below.IH [OF x _ deeper] eq by auto
    have "pclean E H (insert ?k D) t" by (rule pclean_mono [OF t(3)]) auto
    moreover have "pclean E H (insert ?k D) s'" by (rule pclean_mono [of E H D]) (use below.prems in auto)
    moreover have "prefix (p @ [b]) ?k" using prefix_bit_trans [OF wf(2) t(2)] .
    ultimately show ?thesis using t(1) eq below.hyps(2) strict_prefix_bit by (auto simp: pbr_below dest: append_prefixD)
  qed
qed

lemma pclean_settled:
  assumes "pwf h T" "pclean E H D T" "\<not> (\<exists>d\<in>D. strict_prefix (pkey T) d)"
  shows "pclean E H {} T"
  using assms
proof (induction T)
  case (PBranch p c l r)
  have "\<not> (\<exists>d\<in>D. strict_prefix (pkey s) d)" if "prefix (p @ [b]) (pkey s)" for b s
    using PBranch.prems(3) strict_prefix_bit [OF that] by (auto dest: prefix_order.less_trans)
  with PBranch show ?case by auto
qed simp

lemma pupd_simps [simp]: "pkey (pupd E H D T) = pkey T" "pwf h (pupd E H D T) = pwf h T" "pval E H (pupd E H D T) = pval E H T"
  by (induction T) (auto simp: Let_def)

lemma pupd_clean:
  assumes "pwf h T" "pclean E H D T"
  shows "pclean E H {} (pupd E H D T) \<and> cval (pupd E H D T) = pval E H T"
  using assms
proof (induction T)
  case (PBranch p c l r)
  show ?case
  proof (cases "\<exists>d\<in>D. strict_prefix p d")
    case True
    with PBranch show ?thesis by (simp add: Let_def)
  next
    case False
    with PBranch show ?thesis using pclean_settled [OF PBranch.prems] by (simp add: Let_def)
  qed
qed simp

lemma tnode_pupd_leaf: "pwf h T \<Longrightarrow> length x = h \<Longrightarrow> tnode (pupd E H D T) x = tnode T x"
  by (induction T) (auto simp: Let_def)

section \<open>The sparse Merkle tree\<close>

text \<open>
  The specification: the value at the bottom of a subtree of height \<open>n\<close> and the path to it. An
  empty subtree has none, a subtree with one non-empty child passes on what that child
  has, a subtree with two has their hash and an empty path.
\<close>

fun smt :: "('f \<Rightarrow> bool list \<Rightarrow> 'f) \<Rightarrow> ('f \<Rightarrow> 'f \<Rightarrow> 'f) \<Rightarrow> nat \<Rightarrow> (bool list \<Rightarrow> 'f option) \<Rightarrow> ('f \<times> bool list) option" where
  "smt E H 0 m = (case m [] of None \<Rightarrow> None | Some v \<Rightarrow> Some (v, []))"
| "smt E H (Suc n) m =
     (case (smt E H n (\<lambda>x. m (False # x)), smt E H n (\<lambda>x. m (True # x))) of
        (None, None) \<Rightarrow> None
      | (Some (b, p), None) \<Rightarrow> Some (b, False # p)
      | (None, Some (b, p)) \<Rightarrow> Some (b, True # p)
      | (Some (b, p), Some (b', p')) \<Rightarrow> Some (H (E b p) (E b' p'), []))"

lemma smt_empty: "(\<And>x. m x = None) \<Longrightarrow> smt E H n m = None"
  by (induction n arbitrary: m) simp_all

lemma smt_prefix:
  assumes "\<And>x. m x \<noteq> None \<Longrightarrow> prefix k x"
  shows "smt E H (length k + n) m = map_option (\<lambda>(b, p). (b, k @ p)) (smt E H n (\<lambda>x. m (k @ x)))"
  using assms
proof (induction k arbitrary: m)
  case Nil
  then show ?case by (simp add: option.map_id [unfolded id_def] case_prod_eta)
next
  case (Cons a k)
  have "m ((\<not> a) # x) = None" for x using Cons.prems [of "(\<not> a) # x"] by (cases "m ((\<not> a) # x)") auto
  then have other: "smt E H (length k + n) (\<lambda>x. m ((\<not> a) # x)) = None" by (rule smt_empty)
  have "smt E H (length k + n) (\<lambda>x. m (a # x)) = map_option (\<lambda>(b, p). (b, k @ p)) (smt E H n (\<lambda>x. m (a # k @ x)))"
    by (rule Cons.IH) (use Cons.prems in fastforce)
  with other show ?case by (cases a) (auto split: option.splits)
qed

definition leaves :: "nat \<Rightarrow> 'f ptree \<Rightarrow> bool list \<Rightarrow> 'f option" where
  "leaves h T x = (if length x = h then map_option fst (tnode T x) else None)"

lemma leaves_below: "pwf h T \<Longrightarrow> leaves h T x \<noteq> None \<Longrightarrow> prefix (pkey T) x"
  using tnode_below [of h T x] by (auto simp: leaves_def split: if_splits)

lemma smt_child:
  assumes "pwf h s" "prefix k (pkey s)" "smt E H h (leaves h s) = Some (pval E H s, pkey s)" "h = length k + n"
    and m: "\<And>x. m (k @ x) = leaves h s (k @ x)"
  shows "smt E H n (\<lambda>x. m (k @ x)) = Some (pval E H s, drop (length k) (pkey s))"
proof -
  have below: "prefix k x" if "leaves h s x \<noteq> None" for x
    using leaves_below [OF assms(1) that] assms(2) prefix_order.trans by blast
  have "smt E H h (leaves h s) = map_option (\<lambda>(b, p). (b, k @ p)) (smt E H n (\<lambda>x. leaves h s (k @ x)))"
    unfolding assms(4) by (rule smt_prefix) (use below assms(4) in auto)
  with assms(3) show ?thesis unfolding m by (auto dest!: sym [of _ "pkey s"])
qed

theorem smt_tree: "pwf h T \<Longrightarrow> smt E H h (leaves h T) = Some (pval E H T, pkey T)"
proof (induction T)
  case (PLeaf k v)
  have "smt E H (length k + 0) (leaves h (PLeaf k v)) =
      map_option (\<lambda>(b, p). (b, k @ p)) (smt E H 0 (\<lambda>x. leaves h (PLeaf k v) (k @ x)))"
    by (rule smt_prefix) (auto simp: leaves_def split: if_splits)
  moreover have "leaves h (PLeaf k v) k = Some v" using PLeaf by (simp add: leaves_def)
  ultimately show ?case using PLeaf by simp
next
  case (PBranch p c l r)
  let ?m = "leaves h (PBranch p c l r)"
  from PBranch.prems obtain n where n: "h = length p + Suc n" by (auto dest: less_imp_Suc_add)
  have "smt E H (length p + Suc n) ?m = map_option (\<lambda>(b, q). (b, p @ q)) (smt E H (Suc n) (\<lambda>x. ?m (p @ x)))"
    by (rule smt_prefix) (use leaves_below [OF PBranch.prems] in simp)
  moreover have "smt E H n (\<lambda>x. ?m ((p @ [False]) @ x)) = Some (pval E H l, drop (length (p @ [False])) (pkey l))"
    by (rule smt_child) (use PBranch n in \<open>auto simp: leaves_def\<close>)
  moreover have "smt E H n (\<lambda>x. ?m ((p @ [True]) @ x)) = Some (pval E H r, drop (length (p @ [True])) (pkey r))"
    by (rule smt_child) (use PBranch n in \<open>auto simp: leaves_def\<close>)
  ultimately show ?case by (simp add: n)
qed

end
