(* ===== verification/Trie_Correct.thy ===== *)
theory Trie_Correct
  imports Trie Trie_Commitment
begin

text \<open>
  The trie of \<open>core/trie/trie.go\<close> implements the abstract tree: what its storage holds is the
  content of a tree, its operations are those of the tree, and its commitment is the root
  of the sparse Merkle tree over the map it stands for.
\<close>

section \<open>Keys as bit lists\<close>

definition ba_of :: "bool list \<Rightarrow> bit_array" where
  "ba_of xs = foldl (\<lambda>b x. AppendBit b (of_bool x)) emptyBitArray xs"

lemma ba_of_bits: "length xs \<le> 255 \<Longrightarrow> ba_ok (ba_of xs) \<and> ba_bits (ba_of xs) = xs"
proof (induction xs rule: rev_induct)
  case Nil
  then show ?case by (simp add: ba_of_def ba_ok_def emptyBitArray_def)
next
  case (snoc x xs)
  then have IH: "ba_ok (ba_of xs)" "ba_bits (ba_of xs) = xs" by simp_all
  have len: "unat (ba_len (ba_of xs)) = length xs" using IH(2) length_ba_bits by metis
  have "unat (ba_len (SetBit (of_bool x))) = 1" using ba_bits_SetBit(1) [of "of_bool x"] length_ba_bits [of "SetBit (of_bool x)"] by simp
  with len snoc.prems have "unat (ba_len (ba_of xs)) + unat (ba_len (SetBit (of_bool x))) \<le> 255" by simp
  from Append_simps [OF IH(1) ba_bits_SetBit(2) this] IH(2)
  have "ba_ok (AppendBit (ba_of xs) (of_bool x))" "ba_bits (AppendBit (ba_of xs) (of_bool x)) = xs @ [x]"
    by (simp_all add: AppendBit_def ba_bits_SetBit)
  then show ?case by (simp add: ba_of_def)
qed

lemma ba_of_ba_bits: "ba_ok k \<Longrightarrow> ba_of (ba_bits k) = k"
  using ba_of_bits [of "ba_bits k"] uint8_lt [of "ba_len k"] by (intro ba_bits_inj) simp_all

lemma ba_of_eq: "ba_ok k \<Longrightarrow> length xs \<le> 255 \<Longrightarrow> k = ba_of xs \<longleftrightarrow> ba_bits k = xs"
  using ba_of_bits ba_of_ba_bits by auto

lemma ba_of_inj: "length xs \<le> 255 \<Longrightarrow> length ys \<le> 255 \<Longrightarrow> ba_of xs = ba_of ys \<longleftrightarrow> xs = ys"
  using ba_of_bits by metis

lemma unat_Len_ba_of: "length xs \<le> 255 \<Longrightarrow> unat (Len (ba_of xs)) = length xs"
  using ba_of_bits [of xs] length_ba_bits [of "ba_of xs"] by (simp add: Len_def)

section \<open>The store holds the content of a tree\<close>

definition to_view :: "'f \<times> (bool list \<times> bool list) option \<Rightarrow> 'f view" where
  "to_view w = (Some (fst w), map_option (\<lambda>c. ba_of (fst c)) (snd w), map_option (\<lambda>c. ba_of (snd c)) (snd w))"

definition holds :: "'f felt_ops \<Rightarrow> storage \<Rightarrow> (bool list \<Rightarrow> ('f \<times> (bool list \<times> bool list) option) option) \<Rightarrow> bool" where
  "holds F s m \<longleftrightarrow> store_ok F s \<and> (\<forall>k. ba_ok k \<longrightarrow> node_at F s k = map_option to_view (m (ba_bits k)))"

text \<open>The hash of an edge, with the path as the field element of its binary value.\<close>

definition path_felt :: "'f felt_ops \<Rightarrow> bool list \<Rightarrow> 'f" where
  "path_felt F p = feltSetBytes F (int_bytes 32 (bin_value p))"

definition edge :: "'f felt_ops \<Rightarrow> ('f \<Rightarrow> 'f \<Rightarrow> 'f) \<Rightarrow> 'f \<Rightarrow> bool list \<Rightarrow> 'f" where
  "edge F H v p = (if p = [] then v else feltAdd F (H v (path_felt F p)) (feltOfUint64 F (of_nat (length p))))"

definition on_path :: "bit_array \<times> 'f node \<Rightarrow> 'f ptree \<Rightarrow> bool" where
  "on_path kn S \<longleftrightarrow> fst kn = ba_of (pkey S) \<and> node_ok (snd kn) \<and> node_view (snd kn) = to_view (pview S)"

lemma path_bits:
  assumes "ba_ok k" and "ba_ok p" and "unat (ba_len p) < 255"
  shows "ba_bits (path k (Some p)) = drop (Suc (length (ba_bits p))) (ba_bits k)" "ba_ok (path k (Some p))"
proof -
  have "unat (Len p + 1) = Suc (unat (ba_len p))"
    using assms(3) by (simp add: Len_def unat_word_ariths)
  then show "ba_bits (path k (Some p)) = drop (Suc (length (ba_bits p))) (ba_bits k)" "ba_ok (path k (Some p))"
    using ba_bits_LSBs [OF assms(1), of "Len p + 1"] by (simp_all add: path_def)
qed

context felt_lib
begin

lemma Felt_path:
  assumes "ba_ok k"
  shows "Felt (feltSetBytes F) k = path_felt F (ba_bits k)"
proof (rule val_inj)
  have "bin_value (ba_bits k) mod 256 ^ 32 = bin_value (ba_bits k)"
  proof (rule mod_pos_pos_trivial)
    have "bin_value (ba_bits k) < 2 ^ length (ba_bits k)" using bin_value_bound by blast
    also have "(2 :: int) ^ length (ba_bits k) \<le> 2 ^ 256"
      by (rule power_increasing) (use uint8_lt [of "ba_len k"] in auto)
    finally show "bin_value (ba_bits k) < 256 ^ 32" by simp
  qed (use bin_value_bound in blast)
  then show "felt_val F (Felt (feltSetBytes F) k) = felt_val F (path_felt F (ba_bits k))"
    using assms by (simp add: Felt_def path_felt_def val_SetBytes be_value_Bytes be_value_int_bytes ba_value_bits)
qed

lemma Node_Hash_edge:
  assumes "nd_Value n = Some v" and "ba_ok k"
  shows "Node_Hash F H n k = Inr (edge F H v (ba_bits k))"
proof -
  have "Len k = 0 \<longleftrightarrow> ba_bits k = []"
    using length_ba_bits [of k] by (metis Len_def ba_bits_Nil list.size(3) unat_eq_zero)
  moreover have "(ucast (Len k) :: uint64) = of_nat (length (ba_bits k))"
    by (simp add: Len_def)
  ultimately show ?thesis using assms Felt_path [OF assms(2)]
    by (simp add: Node_Hash_def edge_def Let_def)
qed

lemma holds_get:
  assumes "holds F s m" and "ba_ok k"
  shows "m (ba_bits k) = None \<Longrightarrow> ReadStorage_Get F pool s k = Inl ErrKeyNotFound"
    "m (ba_bits k) = Some w \<Longrightarrow> \<exists>n. ReadStorage_Get F pool s k = Inr n \<and> node_ok n \<and> node_view n = to_view w"
  using Get_stored [of s k pool] assms by (auto simp: holds_def)

lemma holds_put:
  assumes "holds F s m" and "ba_ok k" and "node_ok n" and "node_view n = to_view w"
  obtains s' where "Storage_Put F s k n = Inr s'" "holds F s' (m(ba_bits k \<mapsto> w))"
    "ReadStorage_RootKey s' = ReadStorage_RootKey s" "st_prefix s' = st_prefix s"
proof -
  let ?s = "projr (Storage_Put F s k n)"
  have ok: "store_ok F s" using assms(1) by (simp add: holds_def)
  have eq: "ba_bits j = ba_bits k \<longleftrightarrow> j = k" if "ba_ok j" for j using ba_bits_inj [OF that assms(2)] by auto
  have "holds F ?s (m(ba_bits k \<mapsto> w))"
    unfolding holds_def using node_at_put(1,2) [OF ok assms(2,3)] assms eq by (auto simp: holds_def)
  moreover have put: "Storage_Put F s k n = Inr ?s" by (rule node_at_put(3) [OF ok assms(2,3,2)])
  moreover have "st_prefix ?s = st_prefix s" by (rule node_at_put(4) [OF ok assms(2,3,2)])
  moreover have "ReadStorage_RootKey ?s = ReadStorage_RootKey s"
    by (simp add: Storage_Put_eq [OF assms(3)] ReadStorage_RootKey_def)
  ultimately show thesis using that by blast
qed

lemma holds_del:
  assumes "holds F s m" and "ba_ok k"
  shows "holds F (Storage_Delete s k) (m(ba_bits k := None))"
proof -
  have ok: "store_ok F s" using assms(1) by (simp add: holds_def)
  have eq: "ba_bits j = ba_bits k \<longleftrightarrow> j = k" if "ba_ok j" for j using ba_bits_inj [OF that assms(2)] by auto
  show ?thesis
    unfolding holds_def using node_at_del [OF ok assms(2)] assms eq by (auto simp: holds_def)
qed

lemma RootKey_del: "ReadStorage_RootKey (Storage_Delete s k) = ReadStorage_RootKey s"
  by (simp add: ReadStorage_RootKey_def Storage_Delete_def dbKey_encoded)

lemma holds_root: "holds F s m \<Longrightarrow> holds F (PutRootKey s k) m" "holds F s m \<Longrightarrow> holds F (DeleteRootKey s) m"
  by (simp_all add: holds_def node_at_root)

section \<open>Walking from the root\<close>

lemma nodesFromRoot_step:
  assumes "pwf (length x) T" and "length x \<le> 255" and "holds F s m" and "ba_ok key" and "ba_bits key = x"
    and "m (pkey T) = Some (pview T)" and "acc = [] \<or> pkey T \<noteq> []"
  obtains n where "on_path (ba_of (pkey T), n) T"
    "nodesFromRoot_loop F pool s key (Suc fuel) acc (Some (ba_of (pkey T))) =
       (let nodes' = acc @ [(ba_of (pkey T), n)]
        in if prefix (pkey T @ [True]) x then nodesFromRoot_loop F pool s key fuel nodes' (nd_Right n)
           else if prefix (pkey T @ [False]) x then nodesFromRoot_loop F pool s key fuel nodes' (nd_Left n)
           else Inr nodes')"
proof -
  let ?k = "ba_of (pkey T)"
  have len: "length (pkey T) \<le> length x" "length (pkey T) \<le> 255" using pwf_len [OF assms(1)] assms(2) by simp_all
  have k: "ba_ok ?k" "ba_bits ?k = pkey T" "unat (Len ?k) = length (pkey T)"
    using ba_of_bits [OF len(2)] unat_Len_ba_of [OF len(2)] by simp_all
  have key: "unat (Len key) = length x" using assms(5) length_ba_bits [of key] by (simp add: Len_def)
  obtain n where n: "ReadStorage_Get F pool s ?k = Inr n" "node_ok n" "node_view n = to_view (pview T)"
    using holds_get(2) [OF assms(3) k(1), of "pview T" pool] assms(6) k(2) by auto
  have ge: "Len ?k \<ge> Len key \<longleftrightarrow> length x \<le> length (pkey T)" by (simp add: word_le_nat_alt k(3) key)
  have msb: "EqualMSBs key ?k \<longleftrightarrow> prefix (pkey T) x \<or> prefix x (pkey T)"
    using EqualMSBs_bits [OF assms(4) k(1)] assms(5) k(2) by auto
  have bit: "IsBitSet key (Len ?k) = x ! length (pkey T)" if "length (pkey T) < length x"
    using IsBitSet_nth [OF assms(4), of "Len ?k"] that assms(5) k(3) by simp
  have zero: "ba_len ?k = 0 \<longleftrightarrow> pkey T = []" using k(3) by (metis Len_def length_0_conv unat_eq_zero)
  have ext: "prefix (pkey T @ [b]) x \<longleftrightarrow> length (pkey T) < length x \<and> prefix (pkey T) x \<and> x ! length (pkey T) = b" for b
    unfolding prefix_bit_cases using prefix_length_less [of "pkey T" x] by (auto simp: strict_prefix_def)
  show thesis
  proof (rule that)
    show "on_path (?k, n) T" using n by (simp add: on_path_def)
    show "nodesFromRoot_loop F pool s key (Suc fuel) acc (Some ?k) =
       (let nodes' = acc @ [(?k, n)]
        in if prefix (pkey T @ [True]) x then nodesFromRoot_loop F pool s key fuel nodes' (nd_Right n)
           else if prefix (pkey T @ [False]) x then nodesFromRoot_loop F pool s key fuel nodes' (nd_Left n)
           else Inr nodes')"
      using assms(7) n(1) bit by (auto simp: zero ge msb ext Let_def dest: prefix_length_le)
  qed
qed

lemma nodesFromRoot_stop:
  assumes "pwf (length x) T" and "length x \<le> 255" and "holds F s m" and "ba_ok key" and "ba_bits key = x"
    and "m (pkey T) = Some (pview T)" and "acc = [] \<or> pkey T \<noteq> []"
    and "\<not> prefix (pkey T @ [False]) x" "\<not> prefix (pkey T @ [True]) x" and "0 < fuel" and "ppath x T = [T]"
  shows "\<exists>ns. nodesFromRoot_loop F pool s key fuel acc (Some (ba_of (pkey T))) = Inr (acc @ ns) \<and>
     list_all2 on_path ns (ppath x T)"
proof -
  obtain f where f: "fuel = Suc f" using assms(10) by (cases fuel) auto
  obtain n where n: "on_path (ba_of (pkey T), n) T"
    "nodesFromRoot_loop F pool s key (Suc f) acc (Some (ba_of (pkey T))) =
       (let nodes' = acc @ [(ba_of (pkey T), n)]
        in if prefix (pkey T @ [True]) x then nodesFromRoot_loop F pool s key f nodes' (nd_Right n)
           else if prefix (pkey T @ [False]) x then nodesFromRoot_loop F pool s key f nodes' (nd_Left n)
           else Inr nodes')"
    by (rule nodesFromRoot_step [OF assms(1-7)])
  show ?thesis
    by (intro exI [of _ "[(ba_of (pkey T), n)]"]) (simp only: f n(2) assms(8,9,11), simp add: Let_def n(1))
qed

lemma on_path_child:
  assumes "on_path (k, n) (pbr b p c s s')"
  shows "(if b then nd_Right n else nd_Left n) = Some (ba_of (pkey s))"
  using assms by (cases b) (auto simp: on_path_def pbr_def node_view_def to_view_def)

lemma nodesFromRoot_walk:
  assumes "pwf h T" and "length x = h" and "h \<le> 255" and "holds F s m"
    and "ba_ok key" and "ba_bits key = x"
  shows "\<lbrakk>\<And>y. prefix (pkey T) y \<Longrightarrow> m y = tnode T y; h - length (pkey T) < fuel; acc = [] \<or> pkey T \<noteq> []\<rbrakk> \<Longrightarrow>
    \<exists>ns. nodesFromRoot_loop F pool s key fuel acc (Some (ba_of (pkey T))) = Inr (acc @ ns) \<and>
         list_all2 on_path ns (ppath x T)"
  using assms(1,2)
proof (induction arbitrary: fuel acc rule: walk_induct)
  case (leaf k v)
  have "\<not> prefix (k @ [b]) x" for b using leaf(1) assms(2) by (auto dest: prefix_length_le)
  moreover have "pwf (length x) (PLeaf k v)" "m k = Some (v, None)" using leaf assms(2) by simp_all
  ultimately show ?case using nodesFromRoot_stop [of x "PLeaf k v" s m key acc fuel pool] assms leaf by auto
next
  case (here p c l r)
  have "m p = Some (pview (PBranch p c l r))" "pwf (length x) (PBranch p c l r)" using here assms(2) by simp_all
  then show ?case using nodesFromRoot_stop [of x "PBranch p c l r" s m key acc fuel pool] assms here by auto
next
  case (below b p c s1 s2)
  let ?T = "pbr b p c s1 s2"
  obtain f where f: "fuel = Suc f" using below by (cases fuel) auto
  have m: "m p = Some (pview ?T)" using below.prems(1) [of p] by (simp add: tnode_pbr)
  have wf: "pwf (length x) ?T" "prefix (p @ [b]) (pkey s1)" using below.hyps(1) assms(2) by simp_all
  have mT: "m (pkey ?T) = Some (pview ?T)" using m by simp
  have l255: "length x \<le> 255" using assms(2,3) by simp
  obtain n where n': "on_path (ba_of (pkey ?T), n) ?T"
    "nodesFromRoot_loop F pool s key (Suc f) acc (Some (ba_of (pkey ?T))) =
       (let nodes' = acc @ [(ba_of (pkey ?T), n)]
        in if prefix (pkey ?T @ [True]) x then nodesFromRoot_loop F pool s key f nodes' (nd_Right n)
           else if prefix (pkey ?T @ [False]) x then nodesFromRoot_loop F pool s key f nodes' (nd_Left n)
           else Inr nodes')"
    by (rule nodesFromRoot_step [OF wf(1) l255 assms(4-6) mT below.prems(3)])
  have nb: "\<not> prefix (p @ [\<not> b]) x" using below.hyps(2) prefix_bit_neg by blast
  have n: "on_path (ba_of p, n) ?T" "nodesFromRoot_loop F pool s key fuel acc (Some (ba_of p)) =
       nodesFromRoot_loop F pool s key f (acc @ [(ba_of p, n)]) (if b then nd_Right n else nd_Left n)"
    using n' below.hyps(2) nb unfolding f by (cases b; simp add: Let_def)+
  have "m y = tnode s1 y" if "prefix (pkey s1) y" for y
  proof -
    have y: "prefix (p @ [b]) y" using prefix_bit_trans [OF wf(2) that] .
    then have "p \<noteq> y" "prefix p y" by (auto dest: append_prefixD)
    with y show ?thesis using below.prems(1) [of y] by (simp add: tnode_pbr)
  qed
  moreover have "h - length (pkey s1) < f" using below.prems(2) f prefix_length_le [OF wf(2)] below.hyps(1) by auto
  moreover have "pkey s1 \<noteq> []" using wf(2) by auto
  ultimately obtain ns where "nodesFromRoot_loop F pool s key f (acc @ [(ba_of p, n)]) (Some (ba_of (pkey s1))) =
      Inr ((acc @ [(ba_of p, n)]) @ ns)" "list_all2 on_path ns (ppath x s1)"
    using below.IH by blast
  with n on_path_child [OF n(1)] below.hyps(2) show ?case
    by (intro exI [of _ "(ba_of p, n) # ns"]) (simp add: pbr_below)
qed

end

section \<open>Tries and trees\<close>

definition trie_rep :: "'f felt_ops \<Rightarrow> 'f trie \<Rightarrow> 'f ptree option \<Rightarrow> bool" where
  "trie_rep F t T \<longleftrightarrow> holds F (tr_storage t) (tnode_opt T) \<and> tr_rootKey t = map_option (\<lambda>S. ba_of (pkey S)) T \<and>
     (\<forall>d \<in> set (tr_dirtyNodes t). ba_ok d) \<and>
     (\<forall>S. T = Some S \<longrightarrow> pwf (unat (tr_height t)) S \<and>
        pclean (edge F (tr_hash t)) (tr_hash t) (ba_bits ` set (tr_dirtyNodes t)) S) \<and>
     (tr_rootKeyIsDirty t \<or> ReadStorage_RootKey (tr_storage t) =
        (case T of None \<Rightarrow> Inl ErrKeyNotFound | Some S \<Rightarrow> Inr (ba_of (pkey S))))"

text \<open>What every operation keeps.\<close>

definition same_shape :: "'f trie \<Rightarrow> 'f trie \<Rightarrow> bool" where
  "same_shape t t' \<longleftrightarrow> tr_height t' = tr_height t \<and> tr_hash t' = tr_hash t \<and> tr_maxKey t' = tr_maxKey t \<and>
     st_prefix (tr_storage t') = st_prefix (tr_storage t)"

lemma branch_view:
  assumes "pwf h P" and "h \<le> 255" and "snd (pview P) \<noteq> None" and "on_path (k, n) P"
  obtains c l r where "pview P = (c, Some (l, r))" "nd_Value n = Some c" "nd_Left n = Some (ba_of l)"
    "nd_Right n = Some (ba_of r)" "length l \<le> 255" "length r \<le> 255" "l \<noteq> r"
proof -
  obtain p c l r where P: "P = PBranch p c l r" using assms(3) by (cases P) auto
  have "pkey l \<noteq> pkey r" using assms(1) P prefix_bit_excl by auto
  moreover have "length (pkey l) \<le> 255" "length (pkey r) \<le> 255"
    using assms(1,2) P pwf_len [of h l] pwf_len [of h r] by auto
  ultimately show thesis using assms(4) P by (intro that [of c "pkey l" "pkey r"]) (auto simp: on_path_def node_view_def to_view_def)
qed

lemma Equal_ba_of: "length xs \<le> 255 \<Longrightarrow> length ys \<le> 255 \<Longrightarrow> Equal (Some (ba_of xs)) (Some (ba_of ys)) \<longleftrightarrow> xs = ys"
  using Equal_bits ba_of_bits by metis

lemma relink_node:
  assumes "pwf h P" and "h \<le> 255" and "snd (pview P) \<noteq> None" and "on_path (k, n) P"
    and "length old \<le> 255" and "length new \<le> 255"
  obtains n' where "setLink n (Equal (nd_Left n) (Some (ba_of old))) (ba_of new) = Inr n'" "node_ok n'"
    "node_view n' = to_view (relink old new (pview P))"
proof -
  obtain c l r where v: "pview P = (c, Some (l, r))" "nd_Value n = Some c" "nd_Left n = Some (ba_of l)"
    "nd_Right n = Some (ba_of r)" "length l \<le> 255"
    using branch_view [OF assms(1-4)] by metis
  have eq: "Equal (nd_Left n) (Some (ba_of old)) \<longleftrightarrow> l = old" using v Equal_ba_of assms(5) by simp
  have ok: "node_ok n" using assms(4) by (simp add: on_path_def)
  let ?n = "if l = old then n\<lparr>nd_Left := Some (ba_of new)\<rparr> else n\<lparr>nd_Right := Some (ba_of new)\<rparr>"
  show thesis
  proof (rule that)
    show "setLink n (Equal (nd_Left n) (Some (ba_of old))) (ba_of new) = Inr ?n"
      using v eq by (simp add: setLink_def)
    show "node_ok ?n" using ok v ba_of_bits [OF assms(6)] by (auto simp: node_ok_def)
    show "node_view ?n = to_view (relink old new (pview P))" using v by (simp add: node_view_def to_view_def)
  qed
qed

lemma sibling_node:
  assumes "pwf h P" and "h \<le> 255" and "snd (pview P) \<noteq> None" and "on_path (k, n) P" and "length x \<le> 255"
  shows "(if Equal (nd_Left n) (Some (ba_of x)) then nd_Right n else nd_Left n) = Some (ba_of (sibling_key x (pview P)))"
    "length (sibling_key x (pview P)) \<le> 255"
proof -
  obtain c l r where v: "pview P = (c, Some (l, r))" "nd_Left n = Some (ba_of l)"
    "nd_Right n = Some (ba_of r)" "length l \<le> 255" "length r \<le> 255"
    using branch_view [OF assms(1-4)] by metis
  then show "(if Equal (nd_Left n) (Some (ba_of x)) then nd_Right n else nd_Left n) = Some (ba_of (sibling_key x (pview P)))"
    "length (sibling_key x (pview P)) \<le> 255"
    using Equal_ba_of assms(5) by auto
qed

definition leafNode :: "'f \<Rightarrow> 'f node" where
  "leafNode v = newNode\<lparr>nd_Value := Some v\<rparr>"

lemma leafNode_ok: "node_ok (leafNode v)" "node_view (leafNode v) = to_view (v, None)" "nd_Value (leafNode v) = Some v"
  by (simp_all add: leafNode_def newNode_def node_ok_def node_view_def to_view_def)

text \<open>All nodes on a path but the last are branches.\<close>

lemma ppath_inner: "S \<in> set (butlast (ppath x T)) \<Longrightarrow> snd (pview S) \<noteq> None"
  by (induction T) (auto split: if_splits)

lemma rev_ppath_inner: "rev (ppath x T) = S # zs \<Longrightarrow> R \<in> set zs \<Longrightarrow> snd (pview R) \<noteq> None"
  using ppath_inner [of R x T] by (metis butlast_rev list.sel(3) rev_rev_ident set_rev)

context felt_lib
begin

lemma putNode_holds:
  assumes "holds F (tr_storage t) m" and "length k \<le> 255" and "node_ok n" and "node_view n = to_view w"
  obtains s where "putNode F t (ba_of k) n = Inr (t\<lparr>tr_storage := s\<rparr>)" "holds F s (m(k \<mapsto> w))"
    "ReadStorage_RootKey s = ReadStorage_RootKey (tr_storage t)" "st_prefix s = st_prefix (tr_storage t)"
proof -
  obtain s where "Storage_Put F (tr_storage t) (ba_of k) n = Inr s" "holds F s (m(ba_bits (ba_of k) \<mapsto> w))"
    "ReadStorage_RootKey s = ReadStorage_RootKey (tr_storage t)" "st_prefix s = st_prefix (tr_storage t)"
    by (rule holds_put [OF assms(1) _ assms(3,4)]) (use ba_of_bits [OF assms(2)] in blast)
  then show thesis using that ba_of_bits [OF assms(2)] by (simp add: putNode_def)
qed

lemma holds_del_of:
  assumes "holds F s m" and "length k \<le> 255"
  shows "holds F (Storage_Delete s (ba_of k)) (m(k := None))"
  using holds_del [OF assms(1), of "ba_of k"] ba_of_bits [OF assms(2)] by simp

lemma Storage_Delete_prefix [simp]: "st_prefix (Storage_Delete s k) = st_prefix s"
  by (simp add: Storage_Delete_def)

lemma deleteLast_refines:
  assumes rep: "trie_rep F t (Some T)" and h: "unat (tr_height t) = h" and x: "length x = h" "tnode T x \<noteq> None"
    and nodes: "list_all2 on_path nodes (ppath x T)"
  obtains t' where "deleteLast F t nodes = Inr t'" "trie_rep F t' (pdel x T)" "same_shape t t'"
proof -
  let ?E = "edge F (tr_hash t)" and ?H = "tr_hash t" and ?D = "ba_bits ` set (tr_dirtyNodes t)"
  have wf: "pwf h T" "pclean ?E ?H ?D T" and holds: "holds F (tr_storage t) (tnode T)"
    and D: "\<And>d. d \<in> set (tr_dirtyNodes t) \<Longrightarrow> ba_ok d"
    using rep h by (auto simp: trie_rep_def)
  have h255: "h \<le> 255" using uint8_lt [of "tr_height t"] h by simp
  have len: "length (pkey R) \<le> 255" if "R \<in> set (ppath x T)" for R
    using ppath_in [OF wf(1) x(1) that] pwf_len [of h R] h255 by auto
  have content: "tnode_opt (pdel x T) = pdel_content x (rev (ppath x T)) (tnode T)"
    by (rule tnode_pdel [OF wf(1) x])
  obtain S zs where S: "rev (ppath x T) = S # zs" by (cases "rev (ppath x T)") auto
  then have "last (ppath x T) = S" by (metis last_rev list.sel(1) rev_is_Nil_conv rev_rev_ident list.distinct(1))
  then have Sx: "pkey S = x" using last_ppath [OF wf(1) x(1)] x(2) by auto
  have "list_all2 on_path (rev nodes) (S # zs)" using nodes S by (metis list_all2_rev)
  then obtain n ns where ns: "rev nodes = (ba_of x, n) # ns" "list_all2 on_path ns zs"
    using Sx by (auto simp: list_all2_Cons2 on_path_def)
  let ?t1 = "t\<lparr>tr_storage := Storage_Delete (tr_storage t) (ba_of x)\<rparr>"
  have x255: "length x \<le> 255" using x(1) h255 by simp
  have holds1: "holds F (tr_storage ?t1) ((tnode T)(x := None))" using holds_del_of [OF holds x255] by simp
  show thesis
  proof (cases zs)
    case Nil
    then have "ppath x T = [T]" using S ppath_cases [of x T] by auto
    then obtain v where "T = PLeaf x v" using pdel_root [OF wf(1) x] by blast
    then have "trie_rep F (setRootKey ?t1 None) (pdel x T)"
      using holds1 content S Nil D by (auto simp: trie_rep_def setRootKey_def)
    then show thesis using that [of "setRootKey ?t1 None"] ns Nil
      by (simp add: deleteLast_def setRootKey_def same_shape_def)
  next
    case (Cons P zs')
    let ?sib = "sibling_key x (pview P)" and ?t2 = "?t1\<lparr>tr_storage := Storage_Delete (tr_storage ?t1) (ba_of (pkey P))\<rparr>"
    obtain pn ms where ms: "ns = (ba_of (pkey P), pn) # ms" "on_path (ba_of (pkey P), pn) P" "list_all2 on_path ms zs'"
      using ns(2) Cons by (auto simp: list_all2_Cons2 on_path_def)
    have inP: "P \<in> set (ppath x T)" using S Cons by (metis list.set_intros set_rev)
    have wfP: "pwf h P" using ppath_in [OF wf(1) x(1) inP] by blast
    have branchP: "snd (pview P) \<noteq> None" by (rule rev_ppath_inner [OF S]) (simp add: Cons)
    note sib = sibling_node [OF wfP h255 branchP ms(2) x255]
    obtain T' where T': "pdel x T = Some T'" "pclean ?E ?H (if zs' = [] then ?D else insert ?sib ?D) T'"
      using pclean_pdel [OF wf(1) x wf(2)] S Cons by blast
    have key: "if zs' = [] then pkey T' = ?sib else pkey T' = pkey T"
      using pdel_below [OF wf(1) x] S Cons T'(1) by fastforce
    have wf': "pwf h T'" using pwf_pdel [OF wf(1) x T'(1)] by blast
    have holds2: "holds F (tr_storage ?t2) ((tnode T)(x := None, pkey P := None))"
      using holds_del_of [OF holds1 len [OF inP]] by simp
    show thesis
    proof (cases zs')
      case Nil
      have "trie_rep F (setRootKey ?t2 (Some (ba_of ?sib))) (pdel x T)"
        using holds2 content S Cons Nil D T' key wf' h by (auto simp: trie_rep_def setRootKey_def)
      then show thesis using that [of "setRootKey ?t2 (Some (ba_of ?sib))"] ns ms Cons Nil sib(1)
        by (simp add: deleteLast_def setRootKey_def same_shape_def)
    next
      case (Cons G zs'')
      note zs = \<open>zs = P # zs'\<close> Cons
      obtain g ls where ls: "ms = (ba_of (pkey G), g) # ls" "on_path (ba_of (pkey G), g) G"
        using ms(3) Cons by (auto simp: list_all2_Cons2 on_path_def)
      have inG: "G \<in> set (ppath x T)" using S zs by (metis list.set_intros set_rev)
      have wfG: "pwf h G" using ppath_in [OF wf(1) x(1) inG] by blast
      have branchG: "snd (pview G) \<noteq> None" by (rule rev_ppath_inner [OF S]) (simp add: zs)
      obtain g' where g': "setLink g (Equal (nd_Left g) (Some (ba_of (pkey P)))) (ba_of ?sib) = Inr g'" "node_ok g'"
          "node_view g' = to_view (relink (pkey P) ?sib (pview G))"
        by (rule relink_node [OF wfG h255 branchG ls(2) len [OF inP] sib(2)])
      obtain s where s: "putNode F ?t2 (ba_of (pkey G)) g' = Inr (?t2\<lparr>tr_storage := s\<rparr>)"
          "holds F s ((tnode T)(x := None, pkey P := None, pkey G \<mapsto> relink (pkey P) ?sib (pview G)))"
          "ReadStorage_RootKey s = ReadStorage_RootKey (tr_storage ?t2)" "st_prefix s = st_prefix (tr_storage ?t2)"
        by (rule putNode_holds [OF holds2 len [OF inG] g'(2,3)])
      let ?t3 = "addDirty (?t2\<lparr>tr_storage := s\<rparr>) (ba_of ?sib)"
      have "trie_rep F ?t3 (pdel x T)"
        using s content S zs D T' key wf' h rep ba_of_bits [OF sib(2)]
        by (auto simp: trie_rep_def addDirty_def RootKey_del)
      then show thesis using that [of ?t3] ns(1) ms(1) ls(1) sib(1) g'(1) s(1,4)
        by (simp add: deleteLast_def addDirty_def same_shape_def)
    qed
  qed
qed

lemma edge_hash:
  assumes "nd_Value n = Some v" and "length k \<le> 255" and "length q < length k"
  shows "Node_Hash F H n (path (ba_of k) (Some (ba_of q))) = Inr (edge F H v (drop (Suc (length q)) k))"
proof -
  have k: "ba_ok (ba_of k)" "ba_bits (ba_of k) = k" and q: "ba_ok (ba_of q)" "ba_bits (ba_of q) = q"
    using ba_of_bits [of k] ba_of_bits [of q] assms by simp_all
  have "unat (ba_len (ba_of q)) < 255" using length_ba_bits [of "ba_of q"] q(2) assms by simp
  from path_bits [OF k(1) q(1) this] k(2) q(2) show ?thesis
    using Node_Hash_edge [OF assms(1)] by simp
qed

lemma common_key:
  assumes "length x \<le> 255" and "length (pkey S) \<le> 255" and "apart x S"
  shows "CommonMSBs (ba_of x) (ba_of (pkey S)) = ba_of (lcpk x S)"
    "IsBitSet (ba_of x) (Len (ba_of (lcpk x S))) = x ! length (lcpk x S)"
    "length (lcpk x S) < length x" "length (lcpk x S) < length (pkey S)"
proof -
  let ?q = "lcpk x S"
  show l: "length ?q < length x" "length ?q < length (pkey S)"
    using prefix_length_le [OF apartD(1) [OF assms(3)]] prefix_length_le [OF apartD(2) [OF assms(3)]] by simp_all
  have ok: "ba_ok (ba_of x)" "ba_bits (ba_of x) = x" "ba_ok (ba_of (pkey S))" "ba_bits (ba_of (pkey S)) = pkey S"
    using ba_of_bits assms by simp_all
  show "CommonMSBs (ba_of x) (ba_of (pkey S)) = ba_of ?q"
    using CommonMSBs_bits [OF ok(1,3)] ok(2,4) l assms by (simp add: ba_of_eq)
  show "IsBitSet (ba_of x) (Len (ba_of ?q)) = x ! length ?q"
    using IsBitSet_nth [OF ok(1), of "Len (ba_of ?q)"] ok(2) l unat_Len_ba_of [of ?q] assms by simp
qed

text \<open>The new parent of a leaf and its sibling, as the code builds it.\<close>

lemma joined_parent:
  assumes "length x \<le> 255" and "length (pkey S) \<le> 255" and "apart x S" and "on_path (k, sn) S"
  defines "q \<equiv> lcpk x S" and "right \<equiv> x ! length (lcpk x S)"
  defines "lk \<equiv> if right then pkey S else x" and "rk \<equiv> if right then x else pkey S"
  obtains lh rh where
    "Node_Hash F H (if right then sn else leafNode v) (path (ba_of lk) (Some (ba_of q))) = Inr lh"
    "Node_Hash F H (if right then leafNode v else sn) (path (ba_of rk) (Some (ba_of q))) = Inr rh"
    "pview (pjoin (edge F H) H x v S) = (H lh rh, Some (lk, rk))"
proof -
  have val: "nd_Value sn = Some (cval S)"
    using assms(4) by (cases S) (auto simp: on_path_def node_view_def to_view_def)
  note ck = common_key [OF assms(1-3)]
  show thesis
  proof (rule that)
    show "Node_Hash F H (if right then sn else leafNode v) (path (ba_of lk) (Some (ba_of q))) =
        Inr (edge F H (if right then cval S else v) (drop (Suc (length q)) lk))"
      using val ck(3,4) assms(1,2) by (simp add: edge_hash lk_def q_def leafNode_ok)
    show "Node_Hash F H (if right then leafNode v else sn) (path (ba_of rk) (Some (ba_of q))) =
        Inr (edge F H (if right then v else cval S) (drop (Suc (length q)) rk))"
      using val ck(3,4) assms(1,2) by (simp add: edge_hash rk_def q_def leafNode_ok)
  qed (simp add: pjoin_def Let_def lk_def rk_def q_def right_def)
qed

lemma newParent_ok:
  fixes c :: 'a
  assumes "length lk \<le> 255" and "length rk \<le> 255"
  defines "n \<equiv> newNode\<lparr>nd_Left := Some (ba_of lk), nd_Right := Some (ba_of rk), nd_Value := Some c\<rparr>"
  shows "node_ok n" "node_view n = to_view (c, Some (lk, rk))"
  using ba_of_bits [OF assms(1)] ba_of_bits [OF assms(2)]
  by (simp_all add: n_def newNode_def node_ok_def node_view_def to_view_def)

lemma last_rev_Cons: "rev xs = y # ys \<Longrightarrow> last xs = y"
  by (metis last_rev list.sel(1) rev_is_Nil_conv rev_rev_ident list.distinct(1))

lemma insert_refines:
  assumes rep: "trie_rep F t (Some T)" and h: "unat (tr_height t) = h" and x: "length x = h" "tnode T x = None"
    and nodes: "list_all2 on_path nodes (ppath x T)"
  obtains t' where "insertOrUpdateValue F pool t (ba_of x) (leafNode v) nodes (last nodes) False = Inr t'"
    "trie_rep F t' (Some (pins (edge F (tr_hash t)) (tr_hash t) x v T))" "same_shape t t'"
proof -
  let ?H = "tr_hash t" and ?D = "ba_bits ` set (tr_dirtyNodes t)"
  let ?E = "edge F ?H" and ?T' = "pins (edge F ?H) ?H x v T" and ?S = "last (ppath x T)"
  let ?q = "lcpk x ?S"
  have wf: "pwf h T" "pclean ?E ?H ?D T" and holds: "holds F (tr_storage t) (tnode T)"
    and D: "\<And>d. d \<in> set (tr_dirtyNodes t) \<Longrightarrow> ba_ok d"
    using rep h by (auto simp: trie_rep_def)
  have x255: "length x \<le> 255" "h \<le> 255" using uint8_lt [of "tr_height t"] h x(1) by simp_all
  have len: "length (pkey R) \<le> 255" if "R \<in> set (ppath x T)" for R
    using ppath_in [OF wf(1) x(1) that] pwf_len [of h R] x255 by auto
  have ap: "apart x ?S" using last_ppath [OF wf(1) x(1)] x(2) by simp
  have inS: "?S \<in> set (ppath x T)" by simp
  have content: "tnode ?T' = pins_content ?E ?H x v (rev (ppath x T)) (tnode T)"
    by (rule tnode_pins [OF wf(1) x])
  have wf': "pwf h ?T'" by (rule pwf_pins [OF wf(1) x])
  have clean': "pclean ?E ?H (insert ?q ?D) ?T'" by (rule pclean_pins [OF wf(1) x wf(2)])
  obtain zs where S: "rev (ppath x T) = ?S # zs" by (cases "rev (ppath x T)") (auto dest: last_rev_Cons)
  have "list_all2 on_path (rev nodes) (?S # zs)" using nodes S by (metis list_all2_rev)
  then obtain sn ns where ns: "rev nodes = (ba_of (pkey ?S), sn) # ns" "on_path (ba_of (pkey ?S), sn) ?S" "list_all2 on_path ns zs"
    by (auto simp: list_all2_Cons2 on_path_def)
  have last: "last nodes = (ba_of (pkey ?S), sn)" using last_rev_Cons [OF ns(1)] .
  note ck = common_key [OF x255(1) len [OF inS] ap]
  let ?right = "x ! length ?q"
  let ?lk = "if ?right then pkey ?S else x" and ?rk = "if ?right then x else pkey ?S"
  obtain lh rh where j:
    "Node_Hash F ?H (if ?right then sn else leafNode v) (path (ba_of ?lk) (Some (ba_of ?q))) = Inr lh"
    "Node_Hash F ?H (if ?right then leafNode v else sn) (path (ba_of ?rk) (Some (ba_of ?q))) = Inr rh"
    "pview (pjoin ?E ?H x v ?S) = (?H lh rh, Some (?lk, ?rk))"
    by (rule joined_parent [OF x255(1) len [OF inS] ap ns(2)])
  let ?n = "newNode\<lparr>nd_Left := Some (ba_of ?lk), nd_Right := Some (ba_of ?rk), nd_Value := Some (?H lh rh)\<rparr>"
  have n: "node_ok ?n" "node_view ?n = to_view (pview (pjoin ?E ?H x v ?S))"
    unfolding j(3) by (rule newParent_ok; use x255 len [OF inS] in simp)+
  have q255: "length ?q \<le> 255" using ck(3) x255 by simp
  obtain s1 where s1: "putNode F t (ba_of ?q) ?n = Inr (t\<lparr>tr_storage := s1\<rparr>)"
      "holds F s1 ((tnode T)(?q \<mapsto> pview (pjoin ?E ?H x v ?S)))"
      "ReadStorage_RootKey s1 = ReadStorage_RootKey (tr_storage t)" "st_prefix s1 = st_prefix (tr_storage t)"
    by (rule putNode_holds [OF holds q255 n])
  let ?t1 = "t\<lparr>tr_storage := s1\<rparr>"
  have unfold: "insertOrUpdateValue F pool t (ba_of x) (leafNode v) nodes (last nodes) False =
      bindE (case ns of (parentKey, siblingParent) # _ \<Rightarrow>
               bindE (replaceLinkWithNewParent (ba_of (pkey ?S)) (ba_of ?q) siblingParent) (\<lambda>p.
               bindE (putNode F ?t1 parentKey p) (\<lambda>t2. Inr (addDirty t2 (ba_of ?q))))
             | _ \<Rightarrow> Inr (setRootKey ?t1 (Some (ba_of ?q)))) (\<lambda>t3. putNode F t3 (ba_of x) (leafNode v))"
    using j(1,2) s1(1) ns(1)
    by (cases ?right; cases ns) (auto simp: insertOrUpdateValue_def Let_def last ck(1,2))
  show thesis
  proof (cases zs)
    case Nil
    let ?t2 = "setRootKey ?t1 (Some (ba_of ?q))"
    have hs: "holds F (tr_storage ?t2) ((tnode T)(?q \<mapsto> pview (pjoin ?E ?H x v ?S)))" using s1(2) by (simp add: setRootKey_def)
    obtain s2 where s2: "putNode F ?t2 (ba_of x) (leafNode v) = Inr (?t2\<lparr>tr_storage := s2\<rparr>)"
        "holds F s2 ((tnode T)(?q \<mapsto> pview (pjoin ?E ?H x v ?S), x \<mapsto> (v, None)))"
        "ReadStorage_RootKey s2 = ReadStorage_RootKey (tr_storage ?t2)" "st_prefix s2 = st_prefix (tr_storage ?t2)"
      by (rule putNode_holds [OF hs x255(1) leafNode_ok(1,2)])
    have "length (rev (ppath x T)) = 1" by (subst S) (simp add: Nil)
    then have root: "ppath x T = [T]" by (cases rule: ppath_cases [of x T]) simp_all
    then have "?T' = pjoin ?E ?H x v T" "?S = T" by (simp_all add: pins_root)
    then have "trie_rep F (?t2\<lparr>tr_storage := s2\<rparr>) (Some ?T')"
      using s2 content root D wf' h pclean_pjoin [OF wf(2), of x v] ap by (simp add: trie_rep_def setRootKey_def)
    then show thesis using that [of "?t2\<lparr>tr_storage := s2\<rparr>"] unfold ns Nil s2 s1(4)
      by (simp add: same_shape_def setRootKey_def)
  next
    case (Cons P zs')
    obtain pn ms where ms: "ns = (ba_of (pkey P), pn) # ms" "on_path (ba_of (pkey P), pn) P"
      using ns(3) Cons by (auto simp: list_all2_Cons2 on_path_def)
    have inP: "P \<in> set (ppath x T)" using S Cons by (metis list.set_intros set_rev)
    have wfP: "pwf h P" using ppath_in [OF wf(1) x(1) inP] by blast
    have branchP: "snd (pview P) \<noteq> None" by (rule rev_ppath_inner [OF S]) (simp add: Cons)
    obtain p where p: "setLink pn (Equal (nd_Left pn) (Some (ba_of (pkey ?S)))) (ba_of ?q) = Inr p" "node_ok p"
        "node_view p = to_view (relink (pkey ?S) ?q (pview P))"
      by (rule relink_node [OF wfP x255(2) branchP ms(2) len [OF inS] q255])
    have hs1: "holds F (tr_storage ?t1) ((tnode T)(?q \<mapsto> pview (pjoin ?E ?H x v ?S)))" using s1(2) by simp
    obtain s2 where s2: "putNode F ?t1 (ba_of (pkey P)) p = Inr (?t1\<lparr>tr_storage := s2\<rparr>)"
        "holds F s2 ((tnode T)(?q \<mapsto> pview (pjoin ?E ?H x v ?S), pkey P \<mapsto> relink (pkey ?S) ?q (pview P)))"
        "ReadStorage_RootKey s2 = ReadStorage_RootKey (tr_storage ?t1)" "st_prefix s2 = st_prefix (tr_storage ?t1)"
      by (rule putNode_holds [OF hs1 len [OF inP] p(2,3)])
    let ?t2 = "addDirty (?t1\<lparr>tr_storage := s2\<rparr>) (ba_of ?q)"
    have hs2: "holds F (tr_storage ?t2) ((tnode T)(?q \<mapsto> pview (pjoin ?E ?H x v ?S), pkey P \<mapsto> relink (pkey ?S) ?q (pview P)))"
      using s2(2) by (simp add: addDirty_def)
    obtain s3 where s3: "putNode F ?t2 (ba_of x) (leafNode v) = Inr (?t2\<lparr>tr_storage := s3\<rparr>)"
        "holds F s3 ((tnode T)(?q \<mapsto> pview (pjoin ?E ?H x v ?S), pkey P \<mapsto> relink (pkey ?S) ?q (pview P), x \<mapsto> (v, None)))"
        "ReadStorage_RootKey s3 = ReadStorage_RootKey (tr_storage ?t2)" "st_prefix s3 = st_prefix (tr_storage ?t2)"
      by (rule putNode_holds [OF hs2 x255(1) leafNode_ok(1,2)])
    have "pkey ?T' = pkey T" using pkey_pins S Cons by metis
    moreover have "holds F s3 (tnode ?T')" using s3(2) content unfolding S Cons by simp
    ultimately have "trie_rep F (?t2\<lparr>tr_storage := s3\<rparr>) (Some ?T')"
      using s1(3) s2(3) s3(3) D wf' h clean' rep ba_of_bits [OF q255]
      by (simp add: trie_rep_def addDirty_def)
    then show thesis using that [of "?t2\<lparr>tr_storage := s3\<rparr>"] unfold ms(1) p(1) s1(4) s2 s3
      by (simp add: same_shape_def addDirty_def replaceLinkWithNewParent_def)
  qed
qed

end

end
