(* ===== verification/Trie_Recompute.thy ===== *)
theory Trie_Recompute
  imports Trie_Correct
begin

text \<open>
  Recomputing the commitment: \<open>updateValueIfDirty\<close> implements \<open>pupd\<close> on the tree, in whichever
  order the two goroutines of a node run, and enough fuel always gives a result.
\<close>

definition regrown :: "(bool list \<Rightarrow> 'a option) \<Rightarrow> bool list \<Rightarrow> (bool list \<Rightarrow> 'a option) \<Rightarrow> bool list \<Rightarrow> 'a option" where
  "regrown m k m' y = (if prefix k y then m' y else m y)"

text \<open>What the update of a subtree does, for tries that differ from \<open>t\<close> in their storage only.\<close>

definition updates ::
  "'f felt_ops \<Rightarrow> 'f trie \<Rightarrow> ('f trie \<Rightarrow> bit_array \<Rightarrow> trie_error + 'f trie \<times> 'f node) \<Rightarrow> 'f ptree \<Rightarrow> 'f ptree \<Rightarrow> bool" where
  "updates F t update T T' \<longleftrightarrow> (\<forall>s m. holds F s m \<longrightarrow> (\<forall>y. prefix (pkey T) y \<longrightarrow> m y = tnode T y) \<longrightarrow>
     (\<exists>s' n. update (t\<lparr>tr_storage := s\<rparr>) (ba_of (pkey T)) = Inr (t\<lparr>tr_storage := s'\<rparr>, n) \<and>
        on_path (ba_of (pkey T'), n) T' \<and> holds F s' (regrown m (pkey T) (tnode T')) \<and>
        ReadStorage_RootKey s' = ReadStorage_RootKey s \<and> st_prefix s' = st_prefix s))"

lemma updatesD:
  assumes "updates F t update T T'" and "holds F s m" and "\<And>y. prefix (pkey T) y \<Longrightarrow> m y = tnode T y"
  obtains s' n where "update (t\<lparr>tr_storage := s\<rparr>) (ba_of (pkey T)) = Inr (t\<lparr>tr_storage := s'\<rparr>, n)"
    "on_path (ba_of (pkey T'), n) T'" "holds F s' (regrown m (pkey T) (tnode T'))"
    "ReadStorage_RootKey s' = ReadStorage_RootKey s" "st_prefix s' = st_prefix s"
  using assms unfolding updates_def by blast

lemma regrown_commute:
  "\<not> prefix k j \<Longrightarrow> \<not> prefix j k \<Longrightarrow> regrown (regrown m k a) j b = regrown (regrown m j b) k a"
  by (auto simp: regrown_def fun_eq_iff dest: prefix_same_cases)

text \<open>Both children, one after the other in either order.\<close>

lemma updates_children:
  assumes l: "updates F t update l l'" and r: "updates F t update r r'"
    and m: "holds F s m" "\<And>y. prefix (pkey l) y \<Longrightarrow> m y = tnode l y" "\<And>y. prefix (pkey r) y \<Longrightarrow> m y = tnode r y"
    and apart: "\<not> prefix (pkey l) (pkey r)" "\<not> prefix (pkey r) (pkey l)"
    and n: "nd_Left n = Some (ba_of (pkey l))" "nd_Right n = Some (ba_of (pkey r))"
    and res: "res \<in> {updateChildTriesSerially update (t\<lparr>tr_storage := s\<rparr>) n False False,
      updateChildTriesConcurrently update leftFirst (t\<lparr>tr_storage := s\<rparr>) n False False}"
  obtains s' ln rn where "res = Inr (t\<lparr>tr_storage := s'\<rparr>, Some ln, Some rn)"
    "on_path (ba_of (pkey l'), ln) l'" "on_path (ba_of (pkey r'), rn) r'"
    "holds F s' (regrown (regrown m (pkey l) (tnode l')) (pkey r) (tnode r'))"
    "ReadStorage_RootKey s' = ReadStorage_RootKey s" "st_prefix s' = st_prefix s"
proof -
  have disj: "\<not> (prefix (pkey l) y \<and> prefix (pkey r) y)" for y using apart prefix_same_cases by blast
  obtain s1 ln where s1: "update (t\<lparr>tr_storage := s\<rparr>) (ba_of (pkey l)) = Inr (t\<lparr>tr_storage := s1\<rparr>, ln)"
    "on_path (ba_of (pkey l'), ln) l'" "holds F s1 (regrown m (pkey l) (tnode l'))"
    "ReadStorage_RootKey s1 = ReadStorage_RootKey s" "st_prefix s1 = st_prefix s"
    by (rule updatesD [OF l m(1,2)])
  have r1: "regrown m (pkey l) (tnode l') y = tnode r y" if "prefix (pkey r) y" for y
    using that disj m(3) by (auto simp: regrown_def)
  obtain s2 rn where s2: "update (t\<lparr>tr_storage := s1\<rparr>) (ba_of (pkey r)) = Inr (t\<lparr>tr_storage := s2\<rparr>, rn)"
    "on_path (ba_of (pkey r'), rn) r'" "holds F s2 (regrown (regrown m (pkey l) (tnode l')) (pkey r) (tnode r'))"
    "ReadStorage_RootKey s2 = ReadStorage_RootKey s1" "st_prefix s2 = st_prefix s1"
    by (rule updatesD [OF r s1(3) r1])
  have serial: "updateChildTriesSerially update (t\<lparr>tr_storage := s\<rparr>) n False False = Inr (t\<lparr>tr_storage := s2\<rparr>, Some ln, Some rn)"
    using s1(1) s2(1) n by (simp add: updateChildTriesSerially_def updateChild_def)
  show thesis
  proof (cases "res = updateChildTriesSerially update (t\<lparr>tr_storage := s\<rparr>) n False False \<or> leftFirst")
    case True
    then show thesis using that [of s2 ln rn] serial res s1 s2 by (auto simp: updateChildTriesConcurrently_def)
  next
    case False
    obtain s3 rn' where s3: "update (t\<lparr>tr_storage := s\<rparr>) (ba_of (pkey r)) = Inr (t\<lparr>tr_storage := s3\<rparr>, rn')"
      "on_path (ba_of (pkey r'), rn') r'" "holds F s3 (regrown m (pkey r) (tnode r'))"
      "ReadStorage_RootKey s3 = ReadStorage_RootKey s" "st_prefix s3 = st_prefix s"
      by (rule updatesD [OF r m(1,3)])
    have l1: "regrown m (pkey r) (tnode r') y = tnode l y" if "prefix (pkey l) y" for y
      using that disj m(2) by (auto simp: regrown_def)
    obtain s4 ln' where s4: "update (t\<lparr>tr_storage := s3\<rparr>) (ba_of (pkey l)) = Inr (t\<lparr>tr_storage := s4\<rparr>, ln')"
      "on_path (ba_of (pkey l'), ln') l'" "holds F s4 (regrown (regrown m (pkey r) (tnode r')) (pkey l) (tnode l'))"
      "ReadStorage_RootKey s4 = ReadStorage_RootKey s3" "st_prefix s4 = st_prefix s3"
      by (rule updatesD [OF l s3(3) l1])
    have "holds F s4 (regrown (regrown m (pkey l) (tnode l')) (pkey r) (tnode r'))"
      using s4(3) by (subst regrown_commute [OF apart])
    then show thesis
      using that [of s4 ln' rn'] False res s3 s4 n
      by (simp add: updateChildTriesConcurrently_def updateChild_def)
  qed
qed

context felt_lib
begin

lemma updateValueIfDirty_get:
  assumes "holds F s m" and "m (pkey T) = Some (pview T)" and "length (pkey T) \<le> 255"
  obtains n where "ReadStorage_Get F pool s (ba_of (pkey T)) = Inr n" "on_path (ba_of (pkey T), n) T"
  using holds_get(2) [OF assms(1), of "ba_of (pkey T)" "pview T" pool] ba_of_bits [OF assms(3)] assms(2)
  by (auto simp: on_path_def)

lemma dirty_iff:
  assumes "\<forall>d \<in> set ds. ba_ok d" and "length p \<le> 255"
  shows "(\<exists>d \<in> set ds. Len (ba_of p) < Len d \<and> EqualMSBs (ba_of p) d) \<longleftrightarrow> (\<exists>d \<in> ba_bits ` set ds. strict_prefix p d)"
proof -
  have "Len (ba_of p) < Len d \<and> EqualMSBs (ba_of p) d \<longleftrightarrow> strict_prefix p (ba_bits d)" if "ba_ok d" for d
  proof -
    have p: "ba_ok (ba_of p)" "ba_bits (ba_of p) = p" using ba_of_bits [OF assms(2)] by simp_all
    have "Len (ba_of p) < Len d \<longleftrightarrow> length p < length (ba_bits d)"
      using unat_Len_ba_of [OF assms(2)] by (simp add: word_less_nat_alt Len_def)
    moreover have "EqualMSBs (ba_of p) d \<longleftrightarrow> prefix p (ba_bits d) \<or> prefix (ba_bits d) p"
      using EqualMSBs_bits [OF p(1) that] p(2) by simp
    ultimately show ?thesis
      using prefix_length_le [of "ba_bits d" p] prefix_length_less [of p "ba_bits d"] by (auto simp: strict_prefix_def)
  qed
  with assms(1) show ?thesis by auto
qed

lemma on_path_value: "on_path (k, n) S \<Longrightarrow> nd_Value n = Some (cval S)"
  by (cases S) (auto simp: on_path_def node_view_def to_view_def)

text \<open>The new content of a branch is that of its children, and the branch itself.\<close>

lemma regrown_branch:
  assumes "pwf h (PBranch p c' l' r')" and "pwf h l" and "pwf h r" and "pkey l' = pkey l" and "pkey r' = pkey r"
    and "\<And>y. prefix p y \<Longrightarrow> m y = tnode (PBranch p c l r) y"
  shows "regrown m p (tnode (PBranch p c' l' r')) =
    (regrown (regrown m (pkey l) (tnode l')) (pkey r) (tnode r'))(p \<mapsto> (c', Some (pkey l, pkey r)))"
proof
  fix y
  have l: "prefix (p @ [False]) (pkey l)" and r: "prefix (p @ [True]) (pkey r)" using assms(1,4,5) by simp_all
  have ly: "prefix (pkey l) y \<Longrightarrow> prefix (p @ [False]) y" and ry: "prefix (pkey r) y \<Longrightarrow> prefix (p @ [True]) y"
    by (rule prefix_bit_trans [OF l], assumption) (rule prefix_bit_trans [OF r])
  have out: "tnode l' y = tnode l y" if "\<not> prefix (pkey l) y"
    using that tnode_outside [of h l' y] tnode_outside [of h l y] assms by simp
  have out': "tnode r' y = tnode r y" if "\<not> prefix (pkey r) y"
    using that tnode_outside [of h r' y] tnode_outside [of h r y] assms by simp
  show "regrown m p (tnode (PBranch p c' l' r')) y =
    ((regrown (regrown m (pkey l) (tnode l')) (pkey r) (tnode r'))(p \<mapsto> (c', Some (pkey l, pkey r)))) y"
  proof (cases "prefix p y")
    case True
    then show ?thesis
      using assms(4-6) ly ry out out' by (auto simp: regrown_def dest: prefix_bit_excl)
  next
    case False
    then have "\<not> prefix (pkey l) y" "\<not> prefix (pkey r) y" "y \<noteq> p"
      using ly ry append_prefixD by blast+
    with False show ?thesis by (simp add: regrown_def)
  qed
qed

lemma updates_branch:
  assumes dirty: "\<forall>d \<in> set (tr_dirtyNodes t). ba_ok d" and wf: "pwf (unat (tr_height t)) (PBranch p c l r)"
  defines "E \<equiv> edge F (tr_hash t)" and "D \<equiv> ba_bits ` set (tr_dirtyNodes t)"
  assumes l: "updates F t (updateValueIfDirty F pool leftFirst f) l (pupd E (tr_hash t) D l)"
    and r: "updates F t (updateValueIfDirty F pool leftFirst f) r (pupd E (tr_hash t) D r)"
  shows "updates F t (updateValueIfDirty F pool leftFirst (Suc f)) (PBranch p c l r)
    (pupd E (tr_hash t) D (PBranch p c l r))"
  unfolding updates_def
proof (intro allI impI)
  let ?T = "PBranch p c l r" and ?H = "tr_hash t"
  let ?T' = "pupd E ?H D ?T" and ?l = "pupd E ?H D l" and ?r = "pupd E ?H D r"
  fix s m assume s: "holds F s m" and m: "\<forall>y. prefix (pkey ?T) y \<longrightarrow> m y = tnode ?T y"
  let ?goal = "\<exists>s' n. updateValueIfDirty F pool leftFirst (Suc f) (t\<lparr>tr_storage := s\<rparr>) (ba_of (pkey ?T)) =
          Inr (t\<lparr>tr_storage := s'\<rparr>, n) \<and> on_path (ba_of (pkey ?T'), n) ?T' \<and>
        holds F s' (regrown m (pkey ?T) (tnode ?T')) \<and>
        ReadStorage_RootKey s' = ReadStorage_RootKey s \<and> st_prefix s' = st_prefix s"
  have h255: "unat (tr_height t) \<le> 255" using uint8_lt [of "tr_height t"] by simp
  have len: "length p < unat (tr_height t)" "length (pkey l) \<le> 255" "length (pkey r) \<le> 255" "length p \<le> 255"
    using wf h255 pwf_len [of "unat (tr_height t)" l] pwf_len [of "unat (tr_height t)" r] by auto
  have pl: "prefix (p @ [False]) (pkey l)" and pr: "prefix (p @ [True]) (pkey r)" using wf by auto
  have root: "m (pkey ?T) = Some (pview ?T)" using m by simp
  obtain n where n: "ReadStorage_Get F pool s (ba_of p) = Inr n" "on_path (ba_of p, n) ?T"
    using updateValueIfDirty_get [OF s root, of pool] len(4) by auto
  have ch: "nd_Left n = Some (ba_of (pkey l))" "nd_Right n = Some (ba_of (pkey r))"
    using n(2) by (auto simp: on_path_def node_view_def to_view_def)
  have "emptyBitArray = ba_of []" by (simp add: ba_of_def)
  then have noproof: "\<not> Equal (nd_Left n) (Some emptyBitArray)" "\<not> Equal (nd_Right n) (Some emptyBitArray)"
    using ch Equal_ba_of [OF len(2), of "[]"] Equal_ba_of [OF len(3), of "[]"] pl pr by auto
  have inner: "Len (ba_of p) \<noteq> tr_height t" using len unat_Len_ba_of [of p] by auto
  have isdirty: "(\<exists>d\<in>set (tr_dirtyNodes t). Len (ba_of p) < Len d \<and> EqualMSBs (ba_of p) d) \<longleftrightarrow> (\<exists>d\<in>D. strict_prefix p d)"
    unfolding D_def by (rule dirty_iff [OF dirty len(4)])
  show ?goal
  proof (cases "\<exists>d\<in>D. strict_prefix p d")
    case False
    have "regrown m p (tnode ?T) = m" using m by (auto simp: regrown_def fun_eq_iff)
    with False show ?thesis using n noproof inner isdirty s
      by (intro exI [of _ s] exI [of _ n]) (simp del: tnode.simps)
  next
    case True
    let ?upd = "updateValueIfDirty F pool leftFirst f" and ?t = "t\<lparr>tr_storage := s\<rparr>"
    define res where "res = (if ba_len (ba_of p) \<le> 8
      then updateChildTriesConcurrently ?upd (leftFirst (ba_of p)) ?t n False False
      else updateChildTriesSerially ?upd ?t n False False)"
    have mb: "m y = tnode (if b then r else l) y" if y: "prefix (p @ [b]) y" for b y
    proof -
      have "y \<noteq> p" "\<not> prefix (p @ [\<not> b]) y" using y prefix_bit_neg by auto
      then show ?thesis using y m append_prefixD [OF y] by (cases b) simp_all
    qed
    have ml: "m y = tnode l y" if "prefix (pkey l) y" for y using mb [OF prefix_bit_trans [OF pl that]] by simp
    have mr: "m y = tnode r y" if "prefix (pkey r) y" for y using mb [OF prefix_bit_trans [OF pr that]] by simp
    have ap: "\<not> prefix (pkey l) (pkey r)" "\<not> prefix (pkey r) (pkey l)"
      using prefix_bit_excl [OF prefix_bit_trans [OF pl] pr] prefix_bit_excl [OF pl prefix_bit_trans [OF pr]] by blast+
    have resin: "res \<in> {updateChildTriesSerially ?upd ?t n False False,
        updateChildTriesConcurrently ?upd (leftFirst (ba_of p)) ?t n False False}" by (simp add: res_def)
    obtain s' ln rn where s': "res = Inr (t\<lparr>tr_storage := s'\<rparr>, Some ln, Some rn)"
      "on_path (ba_of (pkey ?l), ln) ?l" "on_path (ba_of (pkey ?r), rn) ?r"
      "holds F s' (regrown (regrown m (pkey l) (tnode ?l)) (pkey r) (tnode ?r))"
      "ReadStorage_RootKey s' = ReadStorage_RootKey s" "st_prefix s' = st_prefix s"
      by (rule updates_children [OF l r s ml mr ap ch resin])
    let ?lh = "E (cval ?l) (drop (Suc (length p)) (pkey l))" and ?rh = "E (cval ?r) (drop (Suc (length p)) (pkey r))"
    have hl: "childHash F ?H (ba_of p) (nd_Left n) (Some ln) (nd_LeftHash n) False = Inr ?lh"
      using ch(1) edge_hash [OF on_path_value [OF s'(2)] len(2)] prefix_length_le [OF pl] by (simp add: childHash_def E_def)
    have hr: "childHash F ?H (ba_of p) (nd_Right n) (Some rn) (nd_RightHash n) False = Inr ?rh"
      using ch(2) edge_hash [OF on_path_value [OF s'(3)] len(3)] prefix_length_le [OF pr] by (simp add: childHash_def E_def)
    let ?n = "n\<lparr>nd_Value := Some (?H ?lh ?rh)\<rparr>" and ?t' = "t\<lparr>tr_storage := s'\<rparr>"
    have T': "?T' = PBranch p (?H ?lh ?rh) ?l ?r" using True by (simp add: Let_def)
    have nok: "node_ok ?n" "node_view ?n = to_view (pview ?T')"
      using n(2) unfolding T' by (auto simp: on_path_def node_ok_def node_view_def to_view_def)
    have hs': "holds F (tr_storage ?t') (regrown (regrown m (pkey l) (tnode ?l)) (pkey r) (tnode ?r))" using s'(4) by simp
    obtain s2 where s2: "putNode F ?t' (ba_of p) ?n = Inr (?t'\<lparr>tr_storage := s2\<rparr>)"
      "holds F s2 ((regrown (regrown m (pkey l) (tnode ?l)) (pkey r) (tnode ?r))(p \<mapsto> pview ?T'))"
      "ReadStorage_RootKey s2 = ReadStorage_RootKey (tr_storage ?t')" "st_prefix s2 = st_prefix (tr_storage ?t')"
      by (rule putNode_holds [OF hs' len(4) nok])
    have "regrown m p (tnode ?T') = (regrown (regrown m (pkey l) (tnode ?l)) (pkey r) (tnode ?r))(p \<mapsto> pview ?T')"
      unfolding T' using regrown_branch [of "unat (tr_height t)" p "?H ?lh ?rh" ?l ?r l r m c] wf m by simp
    moreover have "updateValueIfDirty F pool leftFirst (Suc f) ?t (ba_of p) = Inr (t\<lparr>tr_storage := s2\<rparr>, ?n)"
      using n(1) inner noproof isdirty True s'(1) hl hr s2(1) by (simp add: res_def)
    ultimately show ?thesis using s2 s'(5,6) nok by (intro exI [of _ s2] exI [of _ ?n]) (simp add: on_path_def del: pupd.simps(2))
  qed
qed

lemma updateValueIfDirty_updates:
  assumes "\<forall>d \<in> set (tr_dirtyNodes t). ba_ok d"
  defines "E \<equiv> edge F (tr_hash t)" and "D \<equiv> ba_bits ` set (tr_dirtyNodes t)"
  shows "pwf (unat (tr_height t)) T \<Longrightarrow> unat (tr_height t) - length (pkey T) < fuel \<Longrightarrow>
    updates F t (updateValueIfDirty F pool leftFirst fuel) T (pupd E (tr_hash t) D T)"
proof (induction T arbitrary: fuel)
  case (PLeaf k v)
  obtain f where f: "fuel = Suc f" using PLeaf by (cases fuel) auto
  have k: "length k \<le> 255" "Len (ba_of k) = tr_height t"
    using PLeaf uint8_lt [of "tr_height t"] unat_Len_ba_of [of k] by (auto simp: word_unat_eq_iff)
  show ?case unfolding updates_def
  proof (intro allI impI)
    fix s m assume s: "holds F s m" and m: "\<forall>y. prefix (pkey (PLeaf k v)) y \<longrightarrow> m y = tnode (PLeaf k v) y"
    have root: "m (pkey (PLeaf k v)) = Some (pview (PLeaf k v))" using m by simp
    obtain n where n: "ReadStorage_Get F pool s (ba_of k) = Inr n" "on_path (ba_of k, n) (PLeaf k v)"
      using updateValueIfDirty_get [OF s root, of pool] k(1) by auto
    have "regrown m k (tnode (PLeaf k v)) = m" using m by (auto simp: regrown_def fun_eq_iff)
    then show "\<exists>s' n. updateValueIfDirty F pool leftFirst fuel (t\<lparr>tr_storage := s\<rparr>) (ba_of (pkey (PLeaf k v))) =
          Inr (t\<lparr>tr_storage := s'\<rparr>, n) \<and>
        on_path (ba_of (pkey (pupd E (tr_hash t) D (PLeaf k v))), n) (pupd E (tr_hash t) D (PLeaf k v)) \<and>
        holds F s' (regrown m (pkey (PLeaf k v)) (tnode (pupd E (tr_hash t) D (PLeaf k v)))) \<and>
        ReadStorage_RootKey s' = ReadStorage_RootKey s \<and> st_prefix s' = st_prefix s"
      using n k(2) s f by (intro exI [of _ s] exI [of _ n]) (simp del: tnode.simps)
  qed
next
  case (PBranch p c l r)
  obtain f where f: "fuel = Suc f" using PBranch by (cases fuel) auto
  have "unat (tr_height t) - length (pkey s) < f" if "prefix (p @ [b]) (pkey s)" for b s
    using prefix_length_le [OF that] PBranch.prems f by auto
  then have "unat (tr_height t) - length (pkey l) < f" "unat (tr_height t) - length (pkey r) < f"
    using PBranch.prems(1) by auto
  then show ?case
    using updates_branch [OF assms(1) PBranch.prems(1), of pool leftFirst f] PBranch.IH PBranch.prems(1) f
    by (simp add: E_def D_def)
qed

end

end
