(* ===== verification/Trie_Properties.thy ===== *)
theory Trie_Properties
  imports Trie_Recompute
begin

text \<open>
  What the trie promises: it is a map from keys to non-zero values, its operations never
  fail on keys of its height, its commitment is that of the sparse Merkle tree over the map,
  and a committed trie can be opened again from its storage.
\<close>

section \<open>The map and the invariant\<close>

definition trie_map :: "'f felt_ops \<Rightarrow> 'f trie \<Rightarrow> bool list \<Rightarrow> 'f option" where
  "trie_map F t x =
     (if length x = unat (tr_height t)
      then (case node_at F (tr_storage t) (ba_of x) of None \<Rightarrow> None | Some (v, _, _) \<Rightarrow> v) else None)"

definition leaves_opt :: "nat \<Rightarrow> 'f ptree option \<Rightarrow> bool list \<Rightarrow> 'f option" where
  "leaves_opt h T = (case T of None \<Rightarrow> Map.empty | Some S \<Rightarrow> leaves h S)"

definition trie_inv :: "'f felt_ops \<Rightarrow> 'f trie \<Rightarrow> bool" where
  "trie_inv F t \<longleftrightarrow> (\<exists>T. trie_rep F t T) \<and> (\<forall>x. trie_map F t x \<noteq> Some (feltZero F)) \<and>
     tr_maxKey t = maxKeyByHeight F (tr_height t) \<and> 2 ^ unat (tr_height t) \<le> feltModulus F \<and>
     unat (tr_height t) \<le> felt_Bits"

definition commitment :: "'f felt_ops \<Rightarrow> ('f \<Rightarrow> 'f \<Rightarrow> 'f) \<Rightarrow> nat \<Rightarrow> (bool list \<Rightarrow> 'f option) \<Rightarrow> 'f" where
  "commitment F H h m =
     (case smt (edge F H) H h m of None \<Rightarrow> feltZero F | Some (b, p) \<Rightarrow> edge F H b p)"

text \<open>The bits of a key, and a map after a write; writing zero removes the key.\<close>

definition key_bits :: "'f felt_ops \<Rightarrow> ('f, 'z) trie_reader_scheme \<Rightarrow> 'f \<Rightarrow> bool list" where
  "key_bits F t k = ba_bits (FeltToKey F t k)"

definition map_write :: "'f felt_ops \<Rightarrow> (bool list \<Rightarrow> 'f option) \<Rightarrow> bool list \<Rightarrow> 'f \<Rightarrow> bool list \<Rightarrow> 'f option" where
  "map_write F m x v = (if v = feltZero F then m(x := None) else m(x \<mapsto> v))"

lemma trie_map_rep: "trie_rep F t T \<Longrightarrow> trie_map F t = leaves_opt (unat (tr_height t)) T"
proof
  fix x
  assume rep: "trie_rep F t T"
  show "trie_map F t x = leaves_opt (unat (tr_height t)) T x"
  proof (cases "length x = unat (tr_height t)")
    case True
    then have x: "ba_ok (ba_of x)" "ba_bits (ba_of x) = x"
      using ba_of_bits [of x] uint8_lt [of "tr_height t"] by simp_all
    have "node_at F (tr_storage t) (ba_of x) = map_option to_view (tnode_opt T x)"
      using rep x by (auto simp: trie_rep_def holds_def)
    then show ?thesis using True
      by (cases T) (auto simp: trie_map_def leaves_opt_def leaves_def to_view_def split: option.splits)
  next
    case False
    then show ?thesis by (auto simp: trie_map_def leaves_opt_def leaves_def split: option.splits)
  qed
qed

lemma inner_len:
  assumes "pwf h T" and "length x = h" and "rev (ppath x T) = S # zs" and "R \<in> set zs"
  shows "length (pkey R) < h"
proof -
  have R: "R \<in> set (ppath x T)" using assms(3,4) by (metis list.set_intros(2) set_rev)
  have "snd (pview R) \<noteq> None" by (rule rev_ppath_inner [OF assms(3,4)])
  then have "length (pkey R) \<noteq> h" using tnode_leaf [OF assms(1), of "pkey R" "pview R"] ppath_in [OF assms(1,2) R] by simp
  then show ?thesis using ppath_in [OF assms(1,2) R] pwf_len [of h R] by auto
qed

lemma leaves_pset: "pwf h T \<Longrightarrow> length x = h \<Longrightarrow> tnode T x \<noteq> None \<Longrightarrow> leaves h (pset x v T) = (leaves h T)(x \<mapsto> v)"
  using pset_content [of h T x v] by (auto simp: leaves_def fun_eq_iff)

lemma leaves_pins:
  assumes "pwf h T" and "length x = h" and "tnode T x = None"
  shows "leaves h (pins E H x v T) = (leaves h T)(x \<mapsto> v)"
proof -
  obtain S zs where S: "rev (ppath x T) = S # zs" by (cases "rev (ppath x T)") auto
  then have "S = last (ppath x T)" by (metis last_rev list.sel(1) rev_is_Nil_conv rev_rev_ident list.distinct(1))
  then have "apart x S" using last_ppath [OF assms(1,2)] assms(3) by simp
  then have q: "length (lcpk x S) < h" using prefix_length_le [OF apartD(1)] assms(2) by fastforce
  have "tnode (pins E H x v T) y = (if y = x then Some (v, None) else tnode T y)" if "length y = h" for y
  proof (cases zs)
    case Nil
    with q that show ?thesis using tnode_pins [OF assms, of E H v] S by auto
  next
    case (Cons P zs')
    then have "length (pkey P) < h" using inner_len [OF assms(1,2) S] by simp
    with q that Cons show ?thesis using tnode_pins [OF assms, of E H v] S by auto
  qed
  then show ?thesis using assms(2) by (auto simp: leaves_def fun_eq_iff)
qed

lemma leaves_pdel:
  assumes "pwf h T" and "length x = h" and "tnode T x \<noteq> None"
  shows "leaves_opt h (pdel x T) = (leaves h T)(x := None)"
proof -
  obtain S zs where S: "rev (ppath x T) = S # zs" by (cases "rev (ppath x T)") auto
  have in_len: "length (pkey R) < h" if "R \<in> set zs" for R by (rule inner_len [OF assms(1,2) S that])
  have eq: "(if y = x then None else tnode T y) = tnode_opt (pdel x T) y" if "length y = h" for y
    unfolding tnode_pdel [OF assms] S using in_len that
    by (cases "(x, S # zs, tnode T)" rule: pdel_content.cases) auto
  show ?thesis
  proof
    fix y
    show "leaves_opt h (pdel x T) y = ((leaves h T)(x := None)) y"
      using eq [of y] assms(2) by (cases "pdel x T") (auto simp: leaves_opt_def leaves_def)
  qed
qed

context felt_lib
begin

lemma setFelt_value: "ba_value (setFelt (feltBytes F) b k) = felt_val F k" "ba_len (setFelt (feltBytes F) b k) = ba_len b"
  using be_value_slices [OF bytes_length [of k]]
  by (simp_all add: setFelt_def Let_def ba_value_def felt_val_def)

lemma SetFelt_value:
  "ba_len (SetFelt (feltBytes F) b l k) = l" "ba_ok (SetFelt (feltBytes F) b l k)"
  "ba_value (SetFelt (feltBytes F) b l k) = felt_val F k mod 2 ^ unat l"
  by (simp_all add: SetFelt_def ba_value_truncate setFelt_value)

lemma key_bits:
  "ba_ok (FeltToKey F t k)" "length (key_bits F t k) = unat (tr_height t)" "FeltToKey F t k = ba_of (key_bits F t k)"
  "bin_value (key_bits F t k) = felt_val F k mod 2 ^ unat (tr_height t)"
proof -
  show ok: "ba_ok (FeltToKey F t k)" by (simp add: FeltToKey_def SetFelt_value)
  show "length (key_bits F t k) = unat (tr_height t)" by (simp add: key_bits_def FeltToKey_def SetFelt_value)
  show "FeltToKey F t k = ba_of (key_bits F t k)" by (simp add: key_bits_def ba_of_ba_bits ok)
  show "bin_value (key_bits F t k) = felt_val F k mod 2 ^ unat (tr_height t)"
    using ba_value_bits [OF ok] SetFelt_value(3) [of emptyBitArray "tr_height t" k] by (simp add: key_bits_def FeltToKey_def)
qed

lemma key_bits_inj:
  assumes "felt_val F k < 2 ^ unat (tr_height t)" and "felt_val F k' < 2 ^ unat (tr_height t)"
    and "key_bits F t k = key_bits F t k'"
  shows "k = k'"
  by (rule val_inj) (use key_bits(4) [of t k] key_bits(4) [of t k'] assms val_nonneg [of k] val_nonneg [of k'] in simp)

lemma key_in_range:
  assumes "tr_maxKey t = maxKeyByHeight F (tr_height t)" and "2 ^ unat (tr_height t) \<le> feltModulus F"
  shows "feltCmp F k (tr_maxKey t) > 0 \<longleftrightarrow> \<not> felt_val F k < 2 ^ unat (tr_height t)"
  using max_key [OF assms(2)] by (simp add: assms(1) maxKeyByHeight_def Let_def val_Cmp) linarith

lemma Get_map:
  assumes "trie_rep F t T"
  shows "TrieReader_Get F pool t k =
    Inr (case trie_map F t (key_bits F t k) of None \<Rightarrow> feltZero F | Some v \<Rightarrow> v)"
proof -
  let ?x = "key_bits F t k"
  have holds: "holds F (tr_storage t) (tnode_opt T)" using assms by (simp add: trie_rep_def)
  note get = holds_get [OF holds key_bits(1) [of t k], where pool = pool, folded key_bits_def]
  have m: "trie_map F t ?x = map_option fst (tnode_opt T ?x)"
    using key_bits(2) [of t k] by (cases T) (auto simp: trie_map_rep [OF assms] leaves_opt_def leaves_def)
  show ?thesis
  proof (cases "tnode_opt T ?x")
    case None
    with get(1) m show ?thesis by (simp add: TrieReader_Get_def)
  next
    case (Some w)
    with get(2) obtain n where "ReadStorage_Get F pool (tr_storage t) (FeltToKey F t k) = Inr n" "node_view n = to_view w" by blast
    with m Some show ?thesis by (simp add: TrieReader_Get_def node_view_def to_view_def)
  qed
qed

lemma nodesFromRoot_path:
  assumes rep: "trie_rep F t (Some T)" and x: "length x = unat (tr_height t)"
  obtains ns where "nodesFromRoot F pool t (ba_of x) = Inr ns" "list_all2 on_path ns (ppath x T)"
proof -
  have h: "unat (tr_height t) \<le> 255" using uint8_lt [of "tr_height t"] by simp
  have key: "ba_ok (ba_of x)" "ba_bits (ba_of x) = x" using ba_of_bits [of x] x h by simp_all
  have wf: "pwf (unat (tr_height t)) T" and holds: "holds F (tr_storage t) (tnode T)"
    and root: "tr_rootKey t = Some (ba_of (pkey T))" using rep by (auto simp: trie_rep_def)
  have fuel: "unat (tr_height t) - length (pkey T) < 257" using h by simp
  from nodesFromRoot_walk [OF wf x h holds key, of 257 "[]" pool] fuel obtain ns where
    "nodesFromRoot_loop F pool (tr_storage t) (ba_of x) 257 [] (Some (ba_of (pkey T))) = Inr ns"
    "list_all2 on_path ns (ppath x T)" by auto
  with root that show thesis by (simp add: nodesFromRoot_def)
qed

lemma updateLeaf_refines:
  assumes rep: "trie_rep F t (Some T)" and x: "length x = unat (tr_height t)" and w: "tnode T x = Some w"
    and v: "v \<noteq> feltZero F"
  obtains t' where "updateLeaf F pool t (ba_of x) (leafNode v) v = Inr (t', Some (fst w))"
    "trie_rep F t' (Some (pset x v T))" "same_shape t t'"
proof -
  let ?h = "unat (tr_height t)"
  have x255: "length x \<le> 255" using uint8_lt [of "tr_height t"] x by simp
  have wf: "pwf ?h T" and holds: "holds F (tr_storage t) (tnode T)" using rep by (auto simp: trie_rep_def)
  have key: "ba_ok (ba_of x)" "ba_bits (ba_of x) = x" using ba_of_bits [OF x255] by simp_all
  obtain n where n: "ReadStorage_Get F pool (tr_storage t) (ba_of x) = Inr n" "node_view n = to_view w"
    using holds_get(2) [OF holds key(1), of w pool] w key(2) by auto
  then have val: "nd_Value n = Some (fst w)" by (simp add: node_view_def to_view_def)
  obtain s where s: "putNode F t (ba_of x) (leafNode v) = Inr (t\<lparr>tr_storage := s\<rparr>)" "holds F s ((tnode T)(x \<mapsto> (v, None)))"
    "ReadStorage_RootKey s = ReadStorage_RootKey (tr_storage t)" "st_prefix s = st_prefix (tr_storage t)"
    by (rule putNode_holds [OF holds x255 leafNode_ok(1,2)])
  let ?t = "addDirty (t\<lparr>tr_storage := s\<rparr>) (ba_of x)"
  have "trie_rep F ?t (Some (pset x v T))"
    using rep s pset_content [OF wf x, of v] w key
      pclean_pset [OF wf x, of "edge F (tr_hash t)" "tr_hash t" "ba_bits ` set (tr_dirtyNodes t)" v]
    by (simp add: trie_rep_def addDirty_def)
  then show thesis using that [of ?t] n(1) val s(1,4) v
    by (simp add: updateLeaf_def same_shape_def addDirty_def)
qed

lemma updateLeaf_none:
  assumes rep: "trie_rep F t T" and x: "length x = unat (tr_height t)" and "v = feltZero F \<or> tnode_opt T x = None"
  shows "updateLeaf F pool t (ba_of x) n v = Inr (t, None)"
proof -
  have key: "ba_ok (ba_of x)" "ba_bits (ba_of x) = x" using ba_of_bits [of x] x uint8_lt [of "tr_height t"] by simp_all
  have "holds F (tr_storage t) (tnode_opt T)" using rep by (simp add: trie_rep_def)
  then show ?thesis using holds_get(1) [OF _ key(1), of _ "tnode_opt T" pool] assms(3) key(2) by (auto simp: updateLeaf_def)
qed

lemma handleEmptyTrie_refines:
  assumes rep: "trie_rep F t None" and x: "length x = unat (tr_height t)" and v: "v \<noteq> feltZero F"
  obtains t' where "handleEmptyTrie F t old (ba_of x) (leafNode v) v = Inr (t', Some old)"
    "trie_rep F t' (Some (PLeaf x v))" "same_shape t t'"
proof -
  have x255: "length x \<le> 255" using uint8_lt [of "tr_height t"] x by simp
  have holds: "holds F (tr_storage t) Map.empty" using rep by (simp add: trie_rep_def)
  obtain s where s: "putNode F t (ba_of x) (leafNode v) = Inr (t\<lparr>tr_storage := s\<rparr>)" "holds F s (Map.empty(x \<mapsto> (v, None)))"
    "ReadStorage_RootKey s = ReadStorage_RootKey (tr_storage t)" "st_prefix s = st_prefix (tr_storage t)"
    by (rule putNode_holds [OF holds x255 leafNode_ok(1,2)])
  have "tnode (PLeaf x v) = Map.empty(x \<mapsto> (v, None))" by auto
  with s(2) have "holds F s (tnode (PLeaf x v))" by simp
  then have "trie_rep F (setRootKey (t\<lparr>tr_storage := s\<rparr>) (Some (ba_of x))) (Some (PLeaf x v))"
    using rep x by (auto simp: trie_rep_def setRootKey_def)
  then show thesis using that s v by (simp add: handleEmptyTrie_def same_shape_def setRootKey_def)
qed

lemma last_on_path:
  assumes "list_all2 on_path ns (ppath x T)"
  shows "ns \<noteq> []" "on_path (last ns) (last (ppath x T))"
proof -
  show ne: "ns \<noteq> []" using assms by auto
  have "list_all2 on_path (butlast ns @ [last ns]) (butlast (ppath x T) @ [last (ppath x T)])" using assms ne by simp
  moreover have "length (butlast ns) = length (butlast (ppath x T))" using list_all2_lengthD [OF assms] by simp
  ultimately show "on_path (last ns) (last (ppath x T))" by (simp only: list_all2_append list_all2_Cons)
qed

lemma deleteExistingKey_refines:
  assumes rep: "trie_rep F t (Some T)" and x: "length x = unat (tr_height t)" and w: "tnode T x = Some w"
    and ns: "list_all2 on_path ns (ppath x T)"
  obtains t' where "deleteExistingKey F t (last ns) (ba_of x) ns = Inr (t', Some (fst w))"
    "trie_rep F t' (pdel x T)" "same_shape t t'"
proof -
  have wf: "pwf (unat (tr_height t)) T" using rep by (simp add: trie_rep_def)
  have x255: "length x \<le> 255" using x uint8_lt [of "tr_height t"] by simp
  obtain v where v: "last (ppath x T) = PLeaf x v" using last_ppath [OF wf x] w by auto
  have "last (ppath x T) \<in> set (ppath x T)" by simp
  then have "w = (v, None)" using ppath_in [OF wf x] v w by fastforce
  moreover have "fst (last ns) = ba_of x" "nd_Value (snd (last ns)) = Some v"
    using last_on_path(2) [OF ns] v by (auto simp: on_path_def node_view_def to_view_def)
  moreover obtain t' where "deleteLast F t ns = Inr t'" "trie_rep F t' (pdel x T)" "same_shape t t'"
    by (rule deleteLast_refines [OF rep refl x _ ns]) (use w in auto)
  ultimately show thesis using that Equal_ba_of [OF x255 x255] by (simp add: deleteExistingKey_def)
qed

lemma deleteExistingKey_none:
  assumes rep: "trie_rep F t (Some T)" and x: "length x = unat (tr_height t)" and w: "tnode T x = None"
    and ns: "list_all2 on_path ns (ppath x T)"
  shows "deleteExistingKey F t (last ns) (ba_of x) ns = Inr (t, None)"
proof -
  have wf: "pwf (unat (tr_height t)) T" using rep by (simp add: trie_rep_def)
  have x255: "length x \<le> 255" "unat (tr_height t) \<le> 255" using x uint8_lt [of "tr_height t"] by simp_all
  have "last (ppath x T) \<in> set (ppath x T)" by simp
  then have "length (pkey (last (ppath x T))) \<le> 255" using ppath_in [OF wf x] pwf_len x255 by fastforce
  moreover have "pkey (last (ppath x T)) \<noteq> x" using last_ppath [OF wf x] w by (auto simp: apart_def)
  ultimately have "\<not> Equal (Some (ba_of x)) (Some (ba_of (pkey (last (ppath x T)))))"
    using Equal_ba_of [OF x255(1)] by auto
  then show ?thesis using last_on_path(2) [OF ns] by (simp add: deleteExistingKey_def on_path_def)
qed

lemma Put_nonempty:
  assumes rep: "trie_rep F t (Some T)" and x: "length x = unat (tr_height t)" and ks: "FeltToKey F t k = ba_of x"
    and key: "\<not> feltCmp F k (tr_maxKey t) > 0"
  obtains t' T' where
    "Put F pool t k v = Inr (t', if v = feltZero F \<and> tnode T x = None then None
       else Some (case tnode T x of None \<Rightarrow> feltZero F | Some w \<Rightarrow> fst w))"
    "trie_rep F t' T'" "same_shape t t'"
    "leaves_opt (unat (tr_height t)) T' = map_write F (leaves (unat (tr_height t)) T) x v"
proof -
  let ?h = "unat (tr_height t)"
  have wf: "pwf ?h T" using rep by (simp add: trie_rep_def)
  obtain ns where ns: "nodesFromRoot F pool t (ba_of x) = Inr ns" "list_all2 on_path ns (ppath x T)"
    by (rule nodesFromRoot_path [OF rep x])
  have ne: "ns \<noteq> []" by (rule last_on_path(1) [OF ns(2)])
  note [simp] = Put_def key ks Let_def leafNode_def [symmetric]
  show thesis
  proof (cases "tnode T x")
    case (Some w)
    show thesis
    proof (cases "v = feltZero F")
      case True
      obtain t' where "deleteExistingKey F t (last ns) (ba_of x) ns = Inr (t', Some (fst w))"
          "trie_rep F t' (pdel x T)" "same_shape t t'"
        by (rule deleteExistingKey_refines [OF rep x Some ns(2)])
      then show thesis using that [of t' "pdel x T"] True Some ns(1) ne leaves_pdel [OF wf x]
          updateLeaf_none [OF rep x, of v pool "leafNode v"] by (simp add: map_write_def)
    next
      case False
      obtain t' where "updateLeaf F pool t (ba_of x) (leafNode v) v = Inr (t', Some (fst w))"
          "trie_rep F t' (Some (pset x v T))" "same_shape t t'"
        by (rule updateLeaf_refines [OF rep x Some False])
      then show thesis using that [of t' "Some (pset x v T)"] False Some leaves_pset [OF wf x]
        by (simp add: map_write_def leaves_opt_def)
    qed
  next
    case None
    have del: "deleteExistingKey F t (last ns) (ba_of x) ns = Inr (t, None)"
      by (rule deleteExistingKey_none [OF rep x None ns(2)])
    have upd: "updateLeaf F pool t (ba_of x) (leafNode v) v = Inr (t, None)"
      by (rule updateLeaf_none [OF rep x]) (simp add: None)
    show thesis
    proof (cases "v = feltZero F")
      case True
      have "(leaves ?h T)(x := None) = leaves ?h T" using None by (auto simp: leaves_def fun_eq_iff)
      then show thesis using that [of t "Some T"] rep True None ns(1) ne del upd
        by (simp add: map_write_def leaves_opt_def same_shape_def)
    next
      case False
      let ?T = "pins (edge F (tr_hash t)) (tr_hash t) x v T"
      obtain t' where "insertOrUpdateValue F pool t (ba_of x) (leafNode v) ns (last ns) False = Inr t'"
          "trie_rep F t' (Some ?T)" "same_shape t t'"
        by (rule insert_refines [OF rep refl x None ns(2)])
      then show thesis using that [of t' "Some ?T"] False None ns(1) ne del upd leaves_pins [OF wf x None]
        by (simp add: map_write_def leaves_opt_def)
    qed
  qed
qed

lemma Put_empty:
  assumes rep: "trie_rep F t None" and x: "length x = unat (tr_height t)" and ks: "FeltToKey F t k = ba_of x"
    and key: "\<not> feltCmp F k (tr_maxKey t) > 0"
  obtains t' T' where "Put F pool t k v = Inr (t', if v = feltZero F then None else Some (feltZero F))"
    "trie_rep F t' T'" "same_shape t t'" "leaves_opt (unat (tr_height t)) T' = map_write F Map.empty x v"
proof -
  have ns: "nodesFromRoot F pool t (ba_of x) = Inr []" using rep by (simp add: nodesFromRoot_def trie_rep_def)
  have upd: "updateLeaf F pool t (ba_of x) (leafNode v) v = Inr (t, None)" by (rule updateLeaf_none [OF rep x]) simp
  note [simp] = Put_def key ks Let_def leafNode_def [symmetric]
  show thesis
  proof (cases "v = feltZero F")
    case True
    then show thesis using that [of t None] rep ns upd by (simp add: handleEmptyTrie_def map_write_def leaves_opt_def same_shape_def)
  next
    case False
    obtain t' where "handleEmptyTrie F t (feltZero F) (ba_of x) (leafNode v) v = Inr (t', Some (feltZero F))"
        "trie_rep F t' (Some (PLeaf x v))" "same_shape t t'"
      by (rule handleEmptyTrie_refines [OF rep x False])
    moreover have "leaves (unat (tr_height t)) (PLeaf x v) = Map.empty(x \<mapsto> v)" using x by (auto simp: leaves_def)
    ultimately show thesis using that [of t' "Some (PLeaf x v)"] False ns upd by (simp add: map_write_def leaves_opt_def)
  qed
qed

end

end
