(* ===== verification/Trie_Contract.thy ===== *)
theory Trie_Contract
  imports Trie_Properties
begin

text \<open>
  The contract of the trie, over its map: reading, writing, the commitment, reopening a
  committed trie, and the commitment of a sequence of writes.
\<close>

text \<open>A sequence of writes, and the map it gives.\<close>

fun put_all :: "'f felt_ops \<Rightarrow> (bit_array \<Rightarrow> 'f node) \<Rightarrow> 'f trie \<Rightarrow> ('f \<times> 'f) list \<Rightarrow> trie_error + 'f trie" where
  "put_all F pool t [] = Inr t"
| "put_all F pool t ((k, v) # kvs) = bindE (Put F pool t k v) (\<lambda>(t1, _). put_all F pool t1 kvs)"

definition written :: "'f felt_ops \<Rightarrow> 'f trie \<Rightarrow> ('f \<times> 'f) list \<Rightarrow> bool list \<Rightarrow> 'f option" where
  "written F t kvs = foldl (\<lambda>m (k, v). map_write F m (key_bits F t k) v) (trie_map F t) kvs"

context felt_lib
begin

lemma Put_contract:
  assumes inv: "trie_inv F t" and k: "felt_val F k < 2 ^ unat (tr_height t)"
  obtains t' where
    "Put F pool t k v = Inr (t', if v = feltZero F \<and> trie_map F t (key_bits F t k) = None then None
       else Some (case trie_map F t (key_bits F t k) of None \<Rightarrow> feltZero F | Some w \<Rightarrow> w))"
    "trie_inv F t'" "same_shape t t'" "trie_map F t' = map_write F (trie_map F t) (key_bits F t k) v"
proof -
  let ?h = "unat (tr_height t)" and ?x = "key_bits F t k"
  obtain T where rep: "trie_rep F t T" using inv by (auto simp: trie_inv_def)
  have key: "\<not> feltCmp F k (tr_maxKey t) > 0" using key_in_range [of t k] k inv by (auto simp: trie_inv_def)
  note x = key_bits(2,3) [of t k]
  obtain t' T' where t': "Put F pool t k v = Inr (t', if v = feltZero F \<and> trie_map F t ?x = None then None
       else Some (case trie_map F t ?x of None \<Rightarrow> feltZero F | Some w \<Rightarrow> w))"
      "trie_rep F t' T'" "same_shape t t'" "leaves_opt ?h T' = map_write F (trie_map F t) ?x v"
  proof (cases T)
    case None
    have m: "trie_map F t = Map.empty" using trie_map_rep [OF rep] None by (simp add: leaves_opt_def)
    show thesis
      by (rule Put_empty [OF rep [unfolded None] x key, of pool v]) (rule that, simp_all add: m)
  next
    case (Some S)
    have m: "trie_map F t = leaves ?h S" using trie_map_rep [OF rep] Some by (simp add: leaves_opt_def)
    have mx: "leaves ?h S ?x = map_option fst (tnode S ?x)" using x(1) by (simp add: leaves_def)
    show thesis
      by (rule Put_nonempty [OF rep [unfolded Some] x key, of pool v])
        (rule that, simp_all add: m mx split: option.splits)
  qed
  have "trie_map F t' = map_write F (trie_map F t) ?x v"
    using trie_map_rep [OF t'(2)] t'(3,4) by (simp add: same_shape_def)
  moreover from this have "trie_inv F t'"
    using inv t'(2,3) by (auto simp: trie_inv_def same_shape_def map_write_def split: if_splits)
  ultimately show thesis using that t'(1,3) by blast
qed

lemma newTrie_empty:
  assumes "unat h \<le> felt_Bits" and "2 ^ unat h \<le> feltModulus F"
  obtains t where "newTrie F Map.empty pre h H = Inr t" "trie_inv F t" "trie_map F t = Map.empty"
    "tr_height t = h" "tr_hash t = H" "st_prefix (tr_storage t) = pre"
proof -
  let ?t = "\<lparr>tr_height = h, tr_rootKey = None, tr_maxKey = maxKeyByHeight F h, tr_storage = NewStorage Map.empty pre,
    tr_hash = H, tr_dirtyNodes = [], tr_rootKeyIsDirty = False\<rparr>"
  have new: "newTrie F Map.empty pre h H = Inr ?t"
    using assms(1) by (simp add: newTrie_def newTrieReader_def Let_def ReadStorage_RootKey_def NewStorage_def)
  have rep: "trie_rep F ?t None"
    by (simp add: trie_rep_def holds_def store_ok_def node_at_def ReadStorage_Get_def ReadStorage_RootKey_def NewStorage_def)
  have "trie_map F ?t = Map.empty" using trie_map_rep [OF rep] by (simp add: leaves_opt_def)
  moreover from this rep assms have "trie_inv F ?t" by (auto simp: trie_inv_def)
  ultimately show thesis using that [of ?t] new by (simp add: NewStorage_def)
qed

lemma put_all_contract:
  assumes "trie_inv F t" and "\<forall>kv \<in> set kvs. felt_val F (fst kv) < 2 ^ unat (tr_height t)"
  shows "\<exists>t'. put_all F pool t kvs = Inr t' \<and> trie_inv F t' \<and> same_shape t t' \<and> trie_map F t' = written F t kvs"
  using assms
proof (induction kvs arbitrary: t)
  case Nil
  then show ?case by (simp add: written_def same_shape_def)
next
  case (Cons kv kvs)
  obtain k v where kv: "kv = (k, v)" by (cases kv)
  from Cons.prems kv have "felt_val F k < 2 ^ unat (tr_height t)" by simp
  from Put_contract [OF Cons.prems(1) this, of pool v] obtain t1 o1 where t1: "Put F pool t k v = Inr (t1, o1)"
    "trie_inv F t1" "same_shape t t1" "trie_map F t1 = map_write F (trie_map F t) (key_bits F t k) v" by metis
  have bits: "key_bits F t1 = key_bits F t" using t1(3) by (simp add: fun_eq_iff key_bits_def FeltToKey_def same_shape_def)
  obtain t' where t': "put_all F pool t1 kvs = Inr t'" "trie_inv F t'" "same_shape t1 t'" "trie_map F t' = written F t1 kvs"
    using Cons.IH [OF t1(2)] Cons.prems(2) t1(3) by (auto simp: same_shape_def)
  have "written F t1 kvs = written F t (kv # kvs)" by (simp add: written_def t1(4) bits kv)
  moreover have "same_shape t t'" using t1(3) t'(3) by (simp add: same_shape_def)
  ultimately show ?case using t1(1) t' kv by simp
qed

lemma Trie_Hash_root:
  assumes rep: "trie_rep F t T"
  defines "t1 \<equiv> (if tr_rootKeyIsDirty t then
                  (case tr_rootKey t of
                     None \<Rightarrow> t\<lparr>tr_storage := DeleteRootKey (tr_storage t), tr_rootKeyIsDirty := False\<rparr>
                   | Some rootKey \<Rightarrow> t\<lparr>tr_storage := PutRootKey (tr_storage t) rootKey, tr_rootKeyIsDirty := False\<rparr>)
                else t)"
  shows "trie_rep F t1 T" "\<not> tr_rootKeyIsDirty t1" "same_shape t t1" "tr_dirtyNodes t1 = tr_dirtyNodes t"
proof -
  have root: "tr_rootKey t = map_option (\<lambda>S. ba_of (pkey S)) T" using rep by (simp add: trie_rep_def)
  have ok: "ba_ok (ba_of (pkey S))" if "T = Some S" for S
    using rep that pwf_len [of "unat (tr_height t)" S] uint8_lt [of "tr_height t"] ba_of_bits [of "pkey S"]
    by (auto simp: trie_rep_def)
  show "trie_rep F t1 T"
    using rep root RootKey_roundtrip(1) [OF ok] RootKey_roundtrip(2)
    by (cases T) (auto simp: t1_def trie_rep_def holds_root)
  show "\<not> tr_rootKeyIsDirty t1" "tr_dirtyNodes t1 = tr_dirtyNodes t" by (auto simp: t1_def split: option.splits)
  show "same_shape t t1" by (auto simp: t1_def same_shape_def PutRootKey_def DeleteRootKey_def split: option.splits)
qed

lemma Trie_Hash_contract:
  assumes inv: "trie_inv F t"
  obtains t' where
    "Trie_Hash F pool leftFirst t = Inr (t', commitment F (tr_hash t) (unat (tr_height t)) (trie_map F t))"
    "trie_inv F t'" "trie_map F t' = trie_map F t" "same_shape t t'" "tr_dirtyNodes t' = []" "\<not> tr_rootKeyIsDirty t'"
proof -
  let ?h = "unat (tr_height t)" and ?H = "tr_hash t"
  obtain T where rep: "trie_rep F t T" using inv by (auto simp: trie_inv_def)
  define t1 where "t1 = (if tr_rootKeyIsDirty t then
                  (case tr_rootKey t of
                     None \<Rightarrow> t\<lparr>tr_storage := DeleteRootKey (tr_storage t), tr_rootKeyIsDirty := False\<rparr>
                   | Some rootKey \<Rightarrow> t\<lparr>tr_storage := PutRootKey (tr_storage t) rootKey, tr_rootKeyIsDirty := False\<rparr>)
                else t)"
  note t1 = Trie_Hash_root [OF rep, folded t1_def]
  have m: "trie_map F t = leaves_opt ?h T" by (rule trie_map_rep [OF rep])
  have shape: "tr_height t1 = tr_height t" "tr_hash t1 = ?H" using t1(3) by (simp_all add: same_shape_def)
  have "\<exists>t' T'. Trie_Hash F pool leftFirst t = Inr (t', commitment F ?H ?h (trie_map F t)) \<and> trie_rep F t' T' \<and>
      leaves_opt ?h T' = leaves_opt ?h T \<and> same_shape t t' \<and> tr_dirtyNodes t' = [] \<and> \<not> tr_rootKeyIsDirty t'"
  proof (cases T)
    case None
    have "commitment F ?H ?h (trie_map F t) = feltZero F" using m None by (simp add: commitment_def leaves_opt_def smt_empty)
    moreover have "tr_rootKey t1 = None" using t1(1) None by (simp add: trie_rep_def)
    ultimately show ?thesis using t1 None
      by (intro exI [of _ "t1\<lparr>tr_dirtyNodes := []\<rparr>"] exI [of _ None])
        (auto simp: Trie_Hash_def Let_def t1_def [symmetric] trie_rep_def same_shape_def)
  next
    case (Some S)
    let ?E = "edge F ?H" and ?D = "ba_bits ` set (tr_dirtyNodes t1)"
    let ?S = "pupd ?E ?H ?D S"
    have wf: "pwf ?h S" and clean: "pclean ?E ?H ?D S" and holds: "holds F (tr_storage t1) (tnode S)"
      and rk: "tr_rootKey t1 = Some (ba_of (pkey S))" and D: "\<forall>d\<in>set (tr_dirtyNodes t1). ba_ok d"
      using t1(1) Some shape by (auto simp: trie_rep_def)
    have len: "length (pkey S) \<le> 255" "?h - length (pkey S) < 257"
      using pwf_len [OF wf] uint8_lt [of "tr_height t"] by simp_all
    have upd: "updates F t1 (updateValueIfDirty F pool leftFirst 257) S ?S"
      using updateValueIfDirty_updates [OF D, of S 257 pool leftFirst] wf len(2) shape by simp
    obtain s' n where s': "updateValueIfDirty F pool leftFirst 257 (t1\<lparr>tr_storage := tr_storage t1\<rparr>) (ba_of (pkey S)) =
        Inr (t1\<lparr>tr_storage := s'\<rparr>, n)" "on_path (ba_of (pkey ?S), n) ?S" "holds F s' (regrown (tnode S) (pkey S) (tnode ?S))"
        "ReadStorage_RootKey s' = ReadStorage_RootKey (tr_storage t1)" "st_prefix s' = st_prefix (tr_storage t1)"
      by (rule updatesD [OF upd holds]) simp_all
    have c: "pclean ?E ?H {} ?S" "cval ?S = pval ?E ?H S" using pupd_clean [OF wf clean] by simp_all
    have key: "ba_ok (ba_of (pkey S))" "ba_bits (ba_of (pkey S)) = pkey S" using ba_of_bits [OF len(1)] by simp_all
    have hash: "Node_Hash F ?H n (path (ba_of (pkey S)) None) = Inr (?E (pval ?E ?H S) (pkey S))"
      using Node_Hash_edge [OF on_path_value [OF s'(2)] key(1), of ?H] key(2) c(2)
      by (simp add: path_def Copy_def)
    have com: "commitment F ?H ?h (trie_map F t) = ?E (pval ?E ?H S) (pkey S)"
      using smt_tree [OF wf, of ?E ?H] m Some by (simp add: commitment_def leaves_opt_def)
    have "regrown (tnode S) (pkey S) (tnode ?S) = tnode ?S"
      using tnode_outside [OF wf] tnode_outside [of ?h ?S] wf by (auto simp: regrown_def fun_eq_iff)
    with s'(3) have holds': "holds F s' (tnode ?S)" by simp
    have lv: "leaves ?h ?S = leaves ?h S" using tnode_pupd_leaf [OF wf] by (auto simp: leaves_def fun_eq_iff)
    let ?t = "t1\<lparr>tr_storage := s', tr_dirtyNodes := []\<rparr>"
    have "trie_rep F ?t (Some ?S)" using t1(1,2) Some holds' wf c(1) s'(4) shape by (simp add: trie_rep_def)
    moreover have "Trie_Hash F pool leftFirst t = Inr (?t, commitment F ?H ?h (trie_map F t))"
      using s'(1) hash com rk shape by (simp add: Trie_Hash_def Let_def t1_def [symmetric])
    moreover have "same_shape t ?t" using t1(3) s'(5) by (simp add: same_shape_def)
    ultimately show ?thesis using t1(2) Some lv
      by (intro exI [of _ ?t] exI [of _ "Some ?S"]) (simp add: leaves_opt_def)
  qed
  then obtain t' T' where t': "Trie_Hash F pool leftFirst t = Inr (t', commitment F ?H ?h (trie_map F t))"
      "trie_rep F t' T'" "leaves_opt ?h T' = leaves_opt ?h T" "same_shape t t'" "tr_dirtyNodes t' = []" "\<not> tr_rootKeyIsDirty t'"
    by blast
  have "trie_map F t' = trie_map F t" using trie_map_rep [OF t'(2)] m t'(3,4) by (simp add: same_shape_def)
  moreover from this have "trie_inv F t'" using inv t'(2,4) by (auto simp: trie_inv_def same_shape_def)
  ultimately show thesis using that t' by blast
qed

end

section \<open>Properties\<close>

text \<open>
  Examples below use a trie of height 3 over the ring of bytes with a simple hash; \<open>t0\<close> is the
  trie over an empty database.
\<close>

definition mix :: "uint8 \<Rightarrow> uint8 \<Rightarrow> uint8" where
  "mix x y = 3 * x + 5 * y + 1"

lemma byte_simps: "feltZero byte_ops = 0" "feltModulus byte_ops = 256"
  by (simp_all add: byte_ops_def)

definition t0 :: "uint8 trie" where
  "t0 = projr (newTrie byte_ops Map.empty [] 3 mix)"

lemma t0: "newTrie byte_ops Map.empty [] 3 mix = Inr t0" "trie_inv byte_ops t0" "tr_height t0 = 3"
  "trie_map byte_ops t0 = Map.empty"
proof -
  have "unat (3 :: uint8) \<le> felt_Bits" "2 ^ unat (3 :: uint8) \<le> feltModulus byte_ops"
    by (simp_all add: felt_Bits_def byte_ops_def)
  then obtain t where "newTrie byte_ops Map.empty [] 3 mix = Inr t" "trie_inv byte_ops t" "tr_height t = 3"
    "trie_map byte_ops t = Map.empty"
    using bytes.newTrie_empty by metis
  then show "newTrie byte_ops Map.empty [] 3 mix = Inr t0" "trie_inv byte_ops t0" "tr_height t0 = 3"
    "trie_map byte_ops t0 = Map.empty" by (simp_all add: t0_def)
qed

text \<open>C4: Insert and lookup. On a trie that satisfies its invariant, a write of a key of the
  trie's height succeeds and keeps the invariant; afterwards the key reads as the value written
  (zero after a deletion) and every other key reads as before.\<close>

theorem put_get:
  assumes "felt_lib F" and "trie_inv F t"
    and "felt_val F k < 2 ^ unat (tr_height t)" and "felt_val F k' < 2 ^ unat (tr_height t)"
  shows "\<exists>t' old. Put F pool t k v = Inr (t', old) \<and> trie_inv F t' \<and>
    TrieReader_Get F pool' t' k' = (if k' = k then Inr v else TrieReader_Get F pool' t k')"
proof -
  obtain t' where t': "Put F pool t k v = Inr (t', if v = feltZero F \<and> trie_map F t (key_bits F t k) = None then None
       else Some (case trie_map F t (key_bits F t k) of None \<Rightarrow> feltZero F | Some w \<Rightarrow> w))"
      "trie_inv F t'" "same_shape t t'" "trie_map F t' = map_write F (trie_map F t) (key_bits F t k) v"
    by (rule felt_lib.Put_contract [OF assms(1-3)])
  obtain T T' where rep: "trie_rep F t T" "trie_rep F t' T'" using assms(2) t'(2) by (auto simp: trie_inv_def)
  have bits: "key_bits F t' k' = key_bits F t k'" using t'(3) by (simp add: key_bits_def FeltToKey_def same_shape_def)
  have "key_bits F t k' = key_bits F t k \<longleftrightarrow> k' = k"
    using felt_lib.key_bits_inj [OF assms(1,4,3)] by auto
  then have "TrieReader_Get F pool' t' k' = (if k' = k then Inr v else TrieReader_Get F pool' t k')"
    unfolding felt_lib.Get_map [OF assms(1) rep(1)] felt_lib.Get_map [OF assms(1) rep(2)] bits t'(4)
    by (auto simp: map_write_def)
  with t'(1,2) show ?thesis by blast
qed

theorem put_get_witness:
  "(\<exists>t' old. Put byte_ops (\<lambda>_. newNode) t0 5 7 = Inr (t', old) \<and> trie_inv byte_ops t' \<and>
     TrieReader_Get byte_ops (\<lambda>_. newNode) t' 5 = Inr 7)"
  using put_get [OF bytes.felt_lib_axioms t0(2), of 5 5 "\<lambda>_. newNode" 7 "\<lambda>_. newNode"] t0(3)
  by (simp add: byte_val)

text \<open>C2: The commitment. \<open>Trie.Hash\<close> returns the root of the sparse Merkle tree of the specification
  over the map the trie holds, whatever the recycled nodes are and in whichever order the goroutines
  run, and leaves the map and the invariant as they were.\<close>

theorem hash_is_commitment:
  assumes "felt_lib F" and "trie_inv F t"
  shows "\<exists>t'. Trie_Hash F pool leftFirst t = Inr (t', commitment F (tr_hash t) (unat (tr_height t)) (trie_map F t)) \<and>
    trie_inv F t' \<and> trie_map F t' = trie_map F t \<and> tr_dirtyNodes t' = []"
  by (rule felt_lib.Trie_Hash_contract [OF assms, of pool leftFirst]) blast

theorem hash_is_commitment_witness:
  "\<exists>t'. Trie_Hash byte_ops (\<lambda>_. newNode) (\<lambda>_. True) t0 = Inr (t', commitment byte_ops (tr_hash t0) 3 Map.empty) \<and>
    trie_inv byte_ops t' \<and> trie_map byte_ops t' = Map.empty \<and> tr_dirtyNodes t' = []"
  using hash_is_commitment [OF bytes.felt_lib_axioms t0(2), of "\<lambda>_. newNode" "\<lambda>_. True"] t0(3,4) by simp

text \<open>C3: History independence. Two sequences of writes and deletions on a new trie that lead to the
  same map never fail and give the same commitment.\<close>

theorem history_independence:
  assumes F: "felt_lib F" and h: "unat h \<le> felt_Bits" "2 ^ unat h \<le> feltModulus F"
    and new: "newTrie F Map.empty pre h H = Inr t"
    and keys: "\<forall>kv \<in> set kvs \<union> set kvs'. felt_val F (fst kv) < 2 ^ unat h"
    and same: "written F t kvs = written F t kvs'"
  shows "\<exists>t1 t2 t1' t2' root. put_all F pool t kvs = Inr t1 \<and> put_all F pool' t kvs' = Inr t2 \<and>
    Trie_Hash F pool leftFirst t1 = Inr (t1', root) \<and> Trie_Hash F pool' leftFirst' t2 = Inr (t2', root)"
proof -
  obtain u where "newTrie F Map.empty pre h H = Inr u" "trie_inv F u" "tr_height u = h"
    using felt_lib.newTrie_empty [OF F h, of pre H] by metis
  with new have t: "trie_inv F t" "tr_height t = h" by simp_all
  have "\<forall>kv \<in> set kvs. felt_val F (fst kv) < 2 ^ unat (tr_height t)"
    "\<forall>kv \<in> set kvs'. felt_val F (fst kv) < 2 ^ unat (tr_height t)" using keys t(2) by auto
  with felt_lib.put_all_contract [OF F t(1)] obtain t1 t2 where
    t1: "put_all F pool t kvs = Inr t1" "trie_inv F t1" "same_shape t t1" "trie_map F t1 = written F t kvs" and
    t2: "put_all F pool' t kvs' = Inr t2" "trie_inv F t2" "same_shape t t2" "trie_map F t2 = written F t kvs'"
    by metis
  obtain t1' where "Trie_Hash F pool leftFirst t1 = Inr (t1', commitment F (tr_hash t1) (unat (tr_height t1)) (trie_map F t1))"
    by (rule felt_lib.Trie_Hash_contract [OF F t1(2)])
  moreover obtain t2' where "Trie_Hash F pool' leftFirst' t2 = Inr (t2', commitment F (tr_hash t2) (unat (tr_height t2)) (trie_map F t2))"
    by (rule felt_lib.Trie_Hash_contract [OF F t2(2)])
  ultimately show ?thesis using t1 t2 same by (auto simp: same_shape_def)
qed

theorem history_independence_witness:
  "\<exists>t1 t2 t1' t2' root. put_all byte_ops (\<lambda>_. newNode) t0 [(1, 4), (6, 9), (1, 0)] = Inr t1 \<and>
    put_all byte_ops (\<lambda>_. newNode) t0 [(6, 9)] = Inr t2 \<and>
    Trie_Hash byte_ops (\<lambda>_. newNode) (\<lambda>_. True) t1 = Inr (t1', root) \<and>
    Trie_Hash byte_ops (\<lambda>_. newNode) (\<lambda>_. False) t2 = Inr (t2', root)"
proof -
  have "key_bits byte_ops t0 1 \<noteq> key_bits byte_ops t0 6"
    using bytes.key_bits_inj [of 1 t0 6] by (auto simp: byte_val t0(3))
  then have "written byte_ops t0 [(1, 4), (6, 9), (1, 0)] = written byte_ops t0 [(6, 9)]"
    by (simp add: written_def map_write_def t0(4) byte_simps fun_eq_iff)
  then show ?thesis
    using history_independence [OF bytes.felt_lib_axioms _ _ t0(1), of "[(1, 4), (6, 9), (1, 0)]" "[(6, 9)]"
        "\<lambda>_. newNode" "\<lambda>_. newNode" "\<lambda>_. True" "\<lambda>_. False"]
    by (simp add: byte_val felt_Bits_def byte_simps)
qed

text \<open>C21: Persistence. After \<open>Trie.Hash\<close>, opening the same prefix of the database again gives the very
  trie, and a reader of a non-empty trie returns the commitment without recomputing it.\<close>

theorem reopen_after_hash:
  assumes "felt_lib F" and "trie_inv F t" and "Trie_Hash F pool leftFirst t = Inr (t', root)"
  shows "newTrie F (st_txn (tr_storage t')) (st_prefix (tr_storage t')) (tr_height t) (tr_hash t) = Inr t' \<and>
    (tr_rootKey t' = None \<or> TrieReader_Hash F pool' t' = Inr root)"
proof -
  obtain t1 where t1: "Trie_Hash F pool leftFirst t = Inr (t1, commitment F (tr_hash t) (unat (tr_height t)) (trie_map F t))"
    "trie_inv F t1" "trie_map F t1 = trie_map F t" "same_shape t t1" "tr_dirtyNodes t1 = []" "\<not> tr_rootKeyIsDirty t1"
    by (rule felt_lib.Trie_Hash_contract [OF assms(1,2)])
  with assms(3) have t': "t' = t1" "root = commitment F (tr_hash t1) (unat (tr_height t1)) (trie_map F t1)"
    by (simp_all add: same_shape_def)
  obtain T where rep: "trie_rep F t1 T" using t1(2) by (auto simp: trie_inv_def)
  have "ReadStorage_RootKey (tr_storage t1) = (case T of None \<Rightarrow> Inl ErrKeyNotFound | Some S \<Rightarrow> Inr (ba_of (pkey S)))"
    using rep t1(6) by (simp add: trie_rep_def)
  moreover have "NewStorage (st_txn (tr_storage t1)) (st_prefix (tr_storage t1)) = tr_storage t1" by (simp add: NewStorage_def)
  ultimately have "newTrie F (st_txn (tr_storage t1)) (st_prefix (tr_storage t1)) (tr_height t) (tr_hash t) = Inr t1"
    using t1 rep by (cases T) (auto simp: newTrie_def newTrieReader_def Let_def trie_inv_def trie_rep_def same_shape_def)
  moreover have "tr_rootKey t1 = None \<or> TrieReader_Hash F pool' t1 = Inr root"
  proof (cases T)
    case None
    then show ?thesis using rep by (simp add: trie_rep_def)
  next
    case (Some S)
    let ?E = "edge F (tr_hash t1)" and ?h = "unat (tr_height t1)"
    have wf: "pwf ?h S" and clean: "pclean ?E (tr_hash t1) {} S" and holds: "holds F (tr_storage t1) (tnode S)"
      and rk: "tr_rootKey t1 = Some (ba_of (pkey S))" using rep Some t1(5) by (auto simp: trie_rep_def)
    have len: "length (pkey S) \<le> 255" using pwf_len [OF wf] uint8_lt [of "tr_height t1"] by simp
    obtain n where n: "ReadStorage_Get F pool' (tr_storage t1) (ba_of (pkey S)) = Inr n" "on_path (ba_of (pkey S), n) S"
      using felt_lib.updateValueIfDirty_get [OF assms(1) holds tnode_root len] by blast
    have "cval S = pval ?E (tr_hash t1) S" using pclean_stale [OF clean] by auto
    moreover have "root = ?E (pval ?E (tr_hash t1) S) (pkey S)"
      using smt_tree [OF wf, of ?E "tr_hash t1"] t'(2) trie_map_rep [OF rep] Some by (simp add: commitment_def leaves_opt_def)
    ultimately show ?thesis
      using n(1) rk felt_lib.Node_Hash_edge [OF assms(1) felt_lib.on_path_value [OF assms(1) n(2)], of "ba_of (pkey S)"] ba_of_bits [OF len]
      by (simp add: TrieReader_Hash_def path_def Copy_def)
  qed
  ultimately show ?thesis using t'(1) by simp
qed

lemma t1_exists:
  obtains t1 old where "Put byte_ops pool t0 5 7 = Inr (t1, old)" "trie_inv byte_ops t1" "same_shape t0 t1"
    "trie_map byte_ops t1 = map_write byte_ops Map.empty (key_bits byte_ops t0 5) 7"
  by (rule bytes.Put_contract [OF t0(2), of 5 pool 7]) (auto simp: byte_val t0(3,4))

theorem reopen_after_hash_witness:
  "\<exists>t1 old t' root. Put byte_ops (\<lambda>_. newNode) t0 5 7 = Inr (t1, old) \<and>
     Trie_Hash byte_ops (\<lambda>_. newNode) (\<lambda>_. True) t1 = Inr (t', root) \<and>
     newTrie byte_ops (st_txn (tr_storage t')) (st_prefix (tr_storage t')) (tr_height t1) (tr_hash t1) = Inr t' \<and>
     (tr_rootKey t' = None \<or> TrieReader_Hash byte_ops (\<lambda>_. newNode) t' = Inr root)"
proof -
  obtain t1 old where t1: "Put byte_ops (\<lambda>_. newNode) t0 5 7 = Inr (t1, old)" "trie_inv byte_ops t1" by (rule t1_exists)
  obtain t' where "Trie_Hash byte_ops (\<lambda>_. newNode) (\<lambda>_. True) t1 =
      Inr (t', commitment byte_ops (tr_hash t1) (unat (tr_height t1)) (trie_map byte_ops t1))"
    by (rule bytes.Trie_Hash_contract [OF t1(2)])
  with reopen_after_hash [OF bytes.felt_lib_axioms t1(2) this, of "\<lambda>_. newNode"] t1(1) show ?thesis by blast
qed

text \<open>C22: Deletion undoes insertion. Writing a value to a key that is absent and then zero to it never
  fails, reports zero and the value as the old ones, and gives the commitment of the trie before.\<close>

theorem delete_restores:
  assumes F: "felt_lib F" and inv: "trie_inv F t" and k: "felt_val F k < 2 ^ unat (tr_height t)"
    and absent: "trie_map F t (key_bits F t k) = None" and v: "v \<noteq> feltZero F"
  shows "\<exists>t1 t2 u u' root. Put F pool t k v = Inr (t1, Some (feltZero F)) \<and>
    Put F pool t1 k (feltZero F) = Inr (t2, Some v) \<and>
    Trie_Hash F pool leftFirst t2 = Inr (u, root) \<and> Trie_Hash F pool leftFirst t = Inr (u', root)"
proof -
  obtain t1 where t1: "Put F pool t k v = Inr (t1, Some (feltZero F))" "trie_inv F t1" "same_shape t t1"
      "trie_map F t1 = map_write F (trie_map F t) (key_bits F t k) v"
    using felt_lib.Put_contract [OF F inv k, of pool v] absent v by auto
  have bits: "key_bits F t1 k = key_bits F t k" using t1(3) by (simp add: key_bits_def FeltToKey_def same_shape_def)
  have k1: "felt_val F k < 2 ^ unat (tr_height t1)" using k t1(3) by (simp add: same_shape_def)
  have m1: "trie_map F t1 (key_bits F t1 k) = Some v" using v by (simp add: t1(4) bits map_write_def)
  obtain t2 where t2: "Put F pool t1 k (feltZero F) = Inr (t2, Some v)" "trie_inv F t2" "same_shape t1 t2"
      "trie_map F t2 = map_write F (trie_map F t1) (key_bits F t1 k) (feltZero F)"
    using felt_lib.Put_contract [OF F t1(2) k1, of pool "feltZero F"] m1 by auto
  have m: "trie_map F t2 = trie_map F t" using absent v by (auto simp: t2(4) t1(4) bits map_write_def)
  obtain u where "Trie_Hash F pool leftFirst t2 = Inr (u, commitment F (tr_hash t2) (unat (tr_height t2)) (trie_map F t2))"
    by (rule felt_lib.Trie_Hash_contract [OF F t2(2)])
  moreover obtain u' where "Trie_Hash F pool leftFirst t = Inr (u', commitment F (tr_hash t) (unat (tr_height t)) (trie_map F t))"
    by (rule felt_lib.Trie_Hash_contract [OF F inv])
  ultimately show ?thesis using t1(1,3) t2(1,3) m by (auto simp: same_shape_def)
qed

theorem delete_restores_witness:
  "\<exists>t1 t2 u u' root. Put byte_ops (\<lambda>_. newNode) t0 5 7 = Inr (t1, Some 0) \<and>
    Put byte_ops (\<lambda>_. newNode) t1 5 0 = Inr (t2, Some 7) \<and>
    Trie_Hash byte_ops (\<lambda>_. newNode) (\<lambda>_. True) t2 = Inr (u, root) \<and>
    Trie_Hash byte_ops (\<lambda>_. newNode) (\<lambda>_. True) t0 = Inr (u', root)"
  using delete_restores [OF bytes.felt_lib_axioms t0(2), of 5 7 "\<lambda>_. newNode" "\<lambda>_. True"]
  by (simp add: byte_val byte_simps t0(3,4))

text \<open>C32: Keys beyond the height. \<open>Put\<close> refuses a key that does not fit the height, but \<open>Get\<close> drops its
  high bits and answers for the key that is left.\<close>

theorem key_beyond_height:
  assumes F: "felt_lib F" and inv: "trie_inv F t" and k: "2 ^ unat (tr_height t) \<le> felt_val F k"
    and k': "felt_val F k' = felt_val F k mod 2 ^ unat (tr_height t)"
  shows "Put F pool t k v = Inl ErrKeyTooLarge \<and> TrieReader_Get F pool t k = TrieReader_Get F pool t k'"
proof -
  have "feltCmp F k (tr_maxKey t) > 0" using felt_lib.key_in_range [OF F, of t k] inv k by (auto simp: trie_inv_def)
  moreover have "ba_value (FeltToKey F t k) = ba_value (FeltToKey F t k')"
    using k' by (simp add: FeltToKey_def felt_lib.SetFelt_value [OF F])
  then have "FeltToKey F t k = FeltToKey F t k'"
    by (intro bit_array_eqI) (simp_all add: bit_ba_value [symmetric], simp add: FeltToKey_def felt_lib.SetFelt_value [OF F])
  then have "key_bits F t k = key_bits F t k'" by (simp add: key_bits_def)
  moreover obtain T where "trie_rep F t T" using inv by (auto simp: trie_inv_def)
  ultimately show ?thesis by (simp add: Put_def felt_lib.Get_map [OF F])
qed

theorem key_beyond_height_witness:
  "Put byte_ops (\<lambda>_. newNode) t0 13 7 = Inl ErrKeyTooLarge \<and>
   TrieReader_Get byte_ops (\<lambda>_. newNode) t0 13 = TrieReader_Get byte_ops (\<lambda>_. newNode) t0 5"
  using key_beyond_height [OF bytes.felt_lib_axioms t0(2), of 13 5 "\<lambda>_. newNode" 7] by (simp add: byte_val t0(3))

text \<open>C28: The walk from the root ends. For every key of the trie's height the walk reads at most one node
  per level, plus one, and returns the nodes; it never runs out of its 257 steps and never
  meets a missing node.\<close>

theorem walk_terminates:
  assumes F: "felt_lib F" and inv: "trie_inv F t"
  shows "\<exists>ns. nodesFromRoot F pool t (FeltToKey F t k) = Inr ns \<and> length ns \<le> unat (tr_height t) + 1"
proof -
  obtain T where rep: "trie_rep F t T" using inv by (auto simp: trie_inv_def)
  note x = felt_lib.key_bits(2,3) [OF F, of t k]
  show ?thesis
  proof (cases T)
    case None
    then show ?thesis using rep by (simp add: nodesFromRoot_def trie_rep_def)
  next
    case (Some S)
    have wf: "pwf (unat (tr_height t)) S" using rep Some by (simp add: trie_rep_def)
    obtain ns where ns: "nodesFromRoot F pool t (FeltToKey F t k) = Inr ns" "list_all2 on_path ns (ppath (key_bits F t k) S)"
      using felt_lib.nodesFromRoot_path [OF F rep [unfolded Some] x(1), of pool] x(2) by metis
    have "length (ppath (key_bits F t k) S) + length (pkey S) \<le> unat (tr_height t) + 1"
      using wf x(1)
    proof (induction rule: walk_induct)
      case (below b p c s s')
      then show ?case using prefix_length_le [of "p @ [b]" "pkey s"] by (simp add: pbr_below)
    qed simp_all
    then show ?thesis using ns list_all2_lengthD [OF ns(2)] by auto
  qed
qed

theorem walk_terminates_witness:
  "\<exists>ns. nodesFromRoot byte_ops (\<lambda>_. newNode) t0 (FeltToKey byte_ops t0 5) = Inr ns \<and> length ns \<le> unat (tr_height t0) + 1"
  using walk_terminates [OF bytes.felt_lib_axioms t0(2), of "\<lambda>_. newNode" 5] by simp

lemma inv_dense:
  assumes F: "felt_lib F" and inv: "trie_inv F t" and k: "ba_ok k" and n: "node_at F (tr_storage t) k = Some (val, l, r)"
  shows "(Len k = tr_height t \<and> l = None \<and> r = None \<and> val \<noteq> None \<and> val \<noteq> Some (feltZero F)) \<or>
    (Len k < tr_height t \<and> val \<noteq> None \<and> (\<exists>lk rk. l = Some lk \<and> r = Some rk \<and>
       prefix (ba_bits k @ [False]) (ba_bits lk) \<and> prefix (ba_bits k @ [True]) (ba_bits rk) \<and>
       node_at F (tr_storage t) lk \<noteq> None \<and> node_at F (tr_storage t) rk \<noteq> None))"
proof -
  obtain T where rep: "trie_rep F t T" using inv by (auto simp: trie_inv_def)
  have nz: "trie_map F t x \<noteq> Some (feltZero F)" for x using inv by (simp add: trie_inv_def)
  have at: "node_at F (tr_storage t) j = map_option to_view (tnode_opt T (ba_bits j))" if "ba_ok j" for j
    using rep that by (simp add: trie_rep_def holds_def)
  have "map_option to_view (tnode_opt T (ba_bits k)) = Some (val, l, r)" using at [OF k] n by simp
  then obtain w where w: "tnode_opt T (ba_bits k) = Some w" "to_view w = (val, l, r)" by (auto simp: map_option_eq_Some)
  then obtain S where S: "T = Some S" "tnode S (ba_bits k) = Some w" by (cases T) auto
  have wf: "pwf (unat (tr_height t)) S" using rep S(1) by (simp add: trie_rep_def)
  have len: "unat (Len k) = length (ba_bits k)" by (simp add: Len_def)
  show ?thesis
  proof (cases "snd w")
    case None
    then have h: "length (ba_bits k) = unat (tr_height t)" using tnode_leaf [OF wf S(2)] by simp
    have "trie_map F t (ba_bits k) = Some (fst w)"
      using trie_map_rep [OF rep] S h by (simp add: leaves_opt_def leaves_def)
    then have "fst w \<noteq> feltZero F" using nz [of "ba_bits k"] by auto
    then show ?thesis using None w(2) h len by (auto simp: to_view_def word_unat_eq_iff)
  next
    case (Some ch)
    have "length (ba_bits k) \<noteq> unat (tr_height t)" using tnode_leaf [OF wf S(2)] Some by simp
    then have "Len k < tr_height t" using tnode_len [OF wf S(2)] len by (simp add: word_less_nat_alt)
    moreover have "prefix (ba_bits k @ [False]) (fst ch) \<and> prefix (ba_bits k @ [True]) (snd ch) \<and>
        length (fst ch) \<le> 255 \<and> length (snd ch) \<le> 255 \<and> tnode S (fst ch) \<noteq> None \<and> tnode S (snd ch) \<noteq> None"
      using tnode_children [OF wf S(2) Some] uint8_lt [of "tr_height t"] by auto
    ultimately show ?thesis
      using Some w(2) at [of "ba_of (fst ch)"] at [of "ba_of (snd ch)"] ba_of_bits [of "fst ch"] ba_of_bits [of "snd ch"] S(1)
      by (auto simp: to_view_def)
  qed
qed

text \<open>C27: The trie stays dense. After any sequence of writes and deletions on a new trie, every stored node is either a leaf, under a
  key of the trie's height, with exactly the value last written to that key, which is not zero; or an inner node with a
  value and two children, which extend its key by a 0 and a 1 bit and are stored themselves. So a deletion leaves no node with a
  single child behind.\<close>

theorem trie_dense:
  assumes F: "felt_lib F" and h: "unat h \<le> felt_Bits" "2 ^ unat h \<le> feltModulus F" and new: "newTrie F Map.empty pre h H = Inr t"
    and keys: "\<forall>kv \<in> set kvs. felt_val F (fst kv) < 2 ^ unat h" and put: "put_all F pool t kvs = Inr t1"
    and k: "ba_ok k" and n: "node_at F (tr_storage t1) k = Some (val, l, r)"
  shows "(Len k = h \<and> l = None \<and> r = None \<and> val \<noteq> None \<and> val \<noteq> Some (feltZero F) \<and> written F t kvs (ba_bits k) = val) \<or>
    (Len k < h \<and> val \<noteq> None \<and> (\<exists>lk rk. l = Some lk \<and> r = Some rk \<and>
       prefix (ba_bits k @ [False]) (ba_bits lk) \<and> prefix (ba_bits k @ [True]) (ba_bits rk) \<and>
       node_at F (tr_storage t1) lk \<noteq> None \<and> node_at F (tr_storage t1) rk \<noteq> None))"
proof -
  obtain u where "newTrie F Map.empty pre h H = Inr u" "trie_inv F u" "tr_height u = h"
    using felt_lib.newTrie_empty [OF F h, of pre H] by metis
  with new have t: "trie_inv F t" "tr_height t = h" by simp_all
  obtain t' where "put_all F pool t kvs = Inr t'" "trie_inv F t'" "same_shape t t'" "trie_map F t' = written F t kvs"
    using felt_lib.put_all_contract [OF F t(1), of kvs pool] keys t(2) by auto
  with put t(2) have t1: "trie_inv F t1" "tr_height t1 = h" "trie_map F t1 = written F t kvs" by (simp_all add: same_shape_def)
  have "written F t kvs (ba_bits k) = val" if "Len k = h"
    using that n t1 ba_of_ba_bits [OF k] by (simp add: trie_map_def Len_def flip: t1(3))
  then show ?thesis using inv_dense [OF F t1(1) k n] t1(2) by auto
qed

theorem trie_dense_witness:
  "\<exists>t1 val l r. put_all byte_ops (\<lambda>_. newNode) t0 [(1, 4), (6, 9), (1, 0)] = Inr t1 \<and>
     node_at byte_ops (tr_storage t1) (FeltToKey byte_ops t0 6) = Some (val, l, r) \<and> l = None \<and> r = None \<and> val = Some 9"
proof -
  let ?kvs = "[(1, 4), (6, 9), (1, 0)] :: (uint8 \<times> uint8) list" and ?k = "FeltToKey byte_ops t0 6"
  have ks: "\<forall>kv \<in> set ?kvs. felt_val byte_ops (fst kv) < 2 ^ unat (3 :: uint8)" by (simp add: byte_val)
  obtain t1 where t1: "put_all byte_ops (\<lambda>_. newNode) t0 ?kvs = Inr t1" "trie_map byte_ops t1 = written byte_ops t0 ?kvs" "same_shape t0 t1"
    using bytes.put_all_contract [OF t0(2), of ?kvs "\<lambda>_. newNode"] ks t0(3) by auto
  have "key_bits byte_ops t0 1 \<noteq> key_bits byte_ops t0 6"
    using bytes.key_bits_inj [of 1 t0 6] by (auto simp: byte_val t0(3))
  then have w: "written byte_ops t0 ?kvs (key_bits byte_ops t0 6) = Some 9"
    by (simp add: written_def map_write_def t0(4) byte_simps)
  then have "trie_map byte_ops t1 (key_bits byte_ops t0 6) = Some 9" by (simp add: t1(2))
  then obtain l r where n: "node_at byte_ops (tr_storage t1) ?k = Some (Some 9, l, r)"
    by (auto simp: trie_map_def bytes.key_bits(3) [symmetric] split: if_splits option.splits)
  have "Len ?k = 3" by (simp add: FeltToKey_def Len_def bytes.SetFelt_value t0(3))
  then show ?thesis using trie_dense [OF bytes.felt_lib_axioms _ _ t0(1) ks t1(1) bytes.key_bits(1) n] t1(1) n
    by (auto simp: felt_Bits_def byte_simps)
qed

text \<open>The empty trie. \<open>Trie.Hash\<close> of a trie without keys is zero, but \<open>TrieReader.Hash\<close> of it follows a
  nil root key.\<close>

theorem empty_trie_hash:
  assumes F: "felt_lib F" and inv: "trie_inv F t" and empty: "trie_map F t = Map.empty"
  shows "(\<exists>t'. Trie_Hash F pool leftFirst t = Inr (t', feltZero F)) \<and> TrieReader_Hash F pool t = Inl ErrPanic"
proof -
  obtain T where rep: "trie_rep F t T" using inv by (auto simp: trie_inv_def)
  have zero: "commitment F (tr_hash t) (unat (tr_height t)) Map.empty = feltZero F" by (simp add: commitment_def smt_empty)
  have "T = None"
  proof (cases T)
    case (Some S)
    have wf: "pwf (unat (tr_height t)) S" using rep Some by (simp add: trie_rep_def)
    have "leaves (unat (tr_height t)) S = Map.empty" using trie_map_rep [OF rep] empty Some by (simp add: leaves_opt_def)
    with smt_tree [OF wf, of "edge F (tr_hash t)" "tr_hash t"] show ?thesis by (simp add: smt_empty)
  qed
  then have "TrieReader_Hash F pool t = Inl ErrPanic" using rep by (simp add: TrieReader_Hash_def trie_rep_def)
  moreover obtain t' where "Trie_Hash F pool leftFirst t = Inr (t', feltZero F)"
    using felt_lib.Trie_Hash_contract [OF F inv, of pool leftFirst] zero empty by auto
  ultimately show ?thesis by blast
qed

theorem empty_trie_hash_witness:
  "(\<exists>t'. Trie_Hash byte_ops (\<lambda>_. newNode) (\<lambda>_. True) t0 = Inr (t', 0)) \<and>
   TrieReader_Hash byte_ops (\<lambda>_. newNode) t0 = Inl ErrPanic"
  using empty_trie_hash [OF bytes.felt_lib_axioms t0(2) t0(4), of "\<lambda>_. newNode" "\<lambda>_. True"] by (simp add: byte_simps)

end
