(* ===== verification/Sha256.thy ===== *)
theory Sha256
  imports Juno_Prelude
begin

unbundle bit_operations_syntax

text \<open>
  \<open>crypto/sha256.Sum256\<close> of the standard library, as FIPS 180-4 defines it: padding to blocks of 64 bytes, the
  message schedule and the 64 rounds of the compression function on 32-bit words.
\<close>

text \<open>The constants are the first 32 bits of the fractional parts of the square roots of the first eight primes and
  of the cube roots of the first 64: \<open>int_root\<close> finds an integer root bit by bit, and the conversion to a word drops the
  integral part.\<close>

fun int_root :: "nat \<Rightarrow> int \<Rightarrow> nat \<Rightarrow> int \<Rightarrow> int" where
  "int_root k n 0 r = r"
| "int_root k n (Suc b) r = int_root k n b (if (r + 2 ^ b) ^ k \<le> n then r + 2 ^ b else r)"

definition sha_primes :: "int list" where
  "sha_primes = [
    2, 3, 5, 7, 11, 13, 17, 19, 23, 29, 31, 37, 41, 43, 47, 53,
    59, 61, 67, 71, 73, 79, 83, 89, 97, 101, 103, 107, 109, 113, 127, 131,
    137, 139, 149, 151, 157, 163, 167, 173, 179, 181, 191, 193, 197, 199, 211, 223,
    227, 229, 233, 239, 241, 251, 257, 263, 269, 271, 277, 281, 283, 293, 307, 311]"

definition sha_K :: "uint32 list" where
  "sha_K = map (\<lambda>p. of_int (int_root 3 (p * 2 ^ 96) 36 0)) sha_primes"

definition sha_init :: "uint32 list" where
  "sha_init = map (\<lambda>p. of_int (int_root 2 (p * 2 ^ 64) 36 0)) (take 8 sha_primes)"

definition sha_pad :: "uint8 list \<Rightarrow> uint8 list" where
  "sha_pad m = m @ [0x80] @ replicate ((119 - length m mod 64) mod 64) 0 @
     map (\<lambda>i. ucast (drop_bit (56 - 8 * i) (of_nat (8 * length m) :: uint64))) [0..<8]"

fun be_words :: "uint8 list \<Rightarrow> uint32 list" where
  "be_words (a # b # c # d # r) =
     (push_bit 24 (ucast a) OR push_bit 16 (ucast b) OR push_bit 8 (ucast c) OR ucast d) # be_words r"
| "be_words _ = []"

fun sha_blocks :: "uint8 list \<Rightarrow> uint8 list list" where
  "sha_blocks [] = []"
| "sha_blocks (x # xs) = take 64 (x # xs) # sha_blocks (drop 63 xs)"

fun sha_schedule :: "nat \<Rightarrow> uint32 list \<Rightarrow> uint32 list" where
  "sha_schedule 0 w = w"
| "sha_schedule (Suc n) w =
     (let l = length w; x = w ! (l - 15); y = w ! (l - 2);
          s0 = word_rotr 7 x XOR word_rotr 18 x XOR drop_bit 3 x;
          s1 = word_rotr 17 y XOR word_rotr 19 y XOR drop_bit 10 y
      in sha_schedule n (w @ [w ! (l - 16) + s0 + w ! (l - 7) + s1]))"

fun sha_round :: "uint32 \<times> uint32 \<Rightarrow> uint32 list \<Rightarrow> uint32 list" where
  "sha_round (k, w) [a, b, c, d, e, f, g, h] =
     (let s1 = word_rotr 6 e XOR word_rotr 11 e XOR word_rotr 25 e;
          ch = (e AND f) XOR (NOT e AND g);
          t1 = h + s1 + ch + k + w;
          s0 = word_rotr 2 a XOR word_rotr 13 a XOR word_rotr 22 a;
          maj = (a AND b) XOR (a AND c) XOR (b AND c)
      in [t1 + (s0 + maj), a, b, c, d + t1, e, f, g])"
| "sha_round _ s = s"

definition sha_block :: "uint32 list \<Rightarrow> uint8 list \<Rightarrow> uint32 list" where
  "sha_block s blk = map2 (+) s (fold sha_round (zip sha_K (sha_schedule 48 (be_words blk))) s)"

definition Sum256 :: "uint8 list \<Rightarrow> uint8 list" where
  "Sum256 m = concat (map (\<lambda>w. map (\<lambda>i. ucast (drop_bit (24 - 8 * i) w)) [0..<4])
     (foldl sha_block sha_init (sha_blocks (sha_pad m))))"

section \<open>The size of a digest\<close>

lemma length_sha_round: "length (sha_round kw s) = length s"
  by (induction kw s rule: sha_round.induct) (simp_all add: Let_def)

lemma length_fold_round: "length (fold sha_round ks s) = length s"
  by (induction ks arbitrary: s) (simp_all add: length_sha_round)

lemma length_foldl_block: "length (foldl sha_block s bs) = length s"
  by (induction bs arbitrary: s) (simp_all add: sha_block_def length_fold_round)

lemma length_Sum256 [simp]: "length (Sum256 m) = 32"
proof -
  have "sum_list (map (\<lambda>w. 4 :: nat) ws) = 4 * length ws" for ws :: "uint32 list" by (induction ws) simp_all
  then show ?thesis by (simp add: Sum256_def length_concat comp_def length_foldl_block sha_init_def sha_primes_def)
qed

end
