(* ===== verification/Propeller_Codec.thy ===== *)
theory Propeller_Codec
  imports Juno_Prelude
begin

unbundle bit_operations_syntax

text \<open>
  The byte formats of the Propeller broadcast protocol: the length prefix and the padding of a
  message (\<open>consensus/propeller/padding.go\<close>) and the payload a publisher signs
  (\<open>consensus/propeller/signing.go\<close>). \<open>PutUvarint\<close> and \<open>Uvarint\<close> are those of \<open>encoding/binary\<close>.
  Slicing out of range and dividing by zero are \<open>PPanic\<close>.
\<close>

datatype pad_error = PPanic | InvalidVarint int | LengthExceedsData uint64 int

section \<open>Variable-length integers\<close>

lemma unat_shr7: "\<not> x < 0x80 \<Longrightarrow> unat (drop_bit 7 x) < unat (x :: uint64)"
  by (simp add: drop_bit_eq_div word_less_nat_alt unat_div)

function PutUvarint :: "uint64 \<Rightarrow> uint8 list" where
  "PutUvarint x = (if x < 0x80 then [ucast x] else (ucast x OR 0x80) # PutUvarint (drop_bit 7 x))"
  by auto
termination by (relation "measure unat") (auto simp: unat_shr7)

declare PutUvarint.simps [simp del]

fun Uvarint_loop :: "nat \<Rightarrow> nat \<Rightarrow> uint64 \<Rightarrow> uint8 list \<Rightarrow> uint64 \<times> int" where
  "Uvarint_loop i s x [] = (0, 0)"
| "Uvarint_loop i s x (b # bs) =
     (if i = 10 then (0, - (int i + 1))
      else if b < 0x80 then
        (if i = 9 \<and> b > 1 then (0, - (int i + 1)) else (x OR push_bit s (ucast b), int i + 1))
      else Uvarint_loop (Suc i) (s + 7) (x OR push_bit s (ucast (b AND 0x7F))) bs)"

definition Uvarint :: "uint8 list \<Rightarrow> uint64 \<times> int" where
  "Uvarint buf = Uvarint_loop 0 0 0 buf"

section \<open>Padding\<close>

definition PadMessage :: "uint8 list \<Rightarrow> nat \<Rightarrow> pad_error + uint8 list" where
  "PadMessage msg numDataShards =
     (let varintBuf = PutUvarint (of_nat (length msg));
          unpaddedMsgLen = (of_nat (length varintBuf + length msg) :: uint64);
          divisor = (of_nat (2 * numDataShards) :: uint64)
      in if divisor = 0 then Inl PPanic
         else let remainder = unpaddedMsgLen mod divisor;
                  paddedMsgLen = (if remainder \<noteq> 0 then unpaddedMsgLen + (divisor - remainder) else unpaddedMsgLen);
                  content = varintBuf @ msg
              in Inr (take (unat paddedMsgLen) content @ replicate (unat paddedMsgLen - length content) 0))"

definition UnpadMessage :: "uint8 list \<Rightarrow> pad_error + uint8 list" where
  "UnpadMessage padded =
     (let (msgLen, varintLen) = Uvarint padded
      in if varintLen \<le> 0 then Inl (InvalidVarint varintLen)
         else let end' = (of_int varintLen :: uint64) + msgLen
              in if end' > of_nat (length padded) then
                   Inl (LengthExceedsData msgLen (int (length padded) - varintLen))
                 else if nat varintLen > unat end' then Inl PPanic
                 else Inr (take (unat end' - nat varintLen) (drop (nat varintLen) padded)))"

section \<open>The signed payload\<close>

definition string_bytes :: "string \<Rightarrow> uint8 list" where
  "string_bytes s = map (\<lambda>c. of_nat (of_char c)) s"

definition be_bytes8 :: "uint64 \<Rightarrow> uint8 list" where
  "be_bytes8 w = map (\<lambda>i. ucast (drop_bit (56 - 8 * i) w)) [0..<8]"

text \<open>Roots and committee identifiers are arrays of 32 bytes, a nonce is a 64-bit integer.\<close>

definition buildSignPayload :: "uint8 list \<Rightarrow> uint8 list \<Rightarrow> uint64 \<Rightarrow> uint8 list" where
  "buildSignPayload root committeeID nonce =
     string_bytes ''<propeller>'' @ root @ committeeID @ be_bytes8 nonce @ string_bytes ''<propeller/>''"

section \<open>Round trips\<close>

text \<open>What remains of a number after the bytes read so far, and what they make up.\<close>

lemma low_byte: "x < 0x80 \<Longrightarrow> ucast (ucast x :: uint8) = (x :: uint64)"
proof -
  assume "x < 0x80"
  then have "unat x < 128" by (simp add: word_less_nat_alt)
  then show ?thesis by (simp add: word_unat_eq_iff unsigned_ucast_eq take_bit_eq_mod unat_mod)
qed

lemma bit_7F: "bit (0x7F :: nat) i \<longleftrightarrow> i < 7" "bit (0x7F :: int) i \<longleftrightarrow> i < 7"
proof -
  have "(0x7F :: nat) = mask 7" "(0x7F :: int) = mask 7" by (simp_all add: mask_eq_exp_minus_1)
  then show "bit (0x7F :: nat) i \<longleftrightarrow> i < 7" "bit (0x7F :: int) i \<longleftrightarrow> i < 7" by (simp_all only: bit_mask_iff) auto
qed

lemma bit_80: "bit (0x80 :: nat) i \<longleftrightarrow> i = 7" "bit (0x80 :: int) i \<longleftrightarrow> i = 7"
proof -
  have "(0x80 :: nat) = 2 ^ 7" "(0x80 :: int) = 2 ^ 7" by simp_all
  then show "bit (0x80 :: nat) i \<longleftrightarrow> i = 7" "bit (0x80 :: int) i \<longleftrightarrow> i = 7" by (simp_all only: bit_exp_iff) auto
qed

lemma split_byte:
  "push_bit s (ucast ((ucast x OR 0x80 :: uint8) AND 0x7F)) OR push_bit (s + 7) (drop_bit 7 x) = push_bit s (x :: uint64)"
proof (rule bit_word_eqI)
  fix n
  show "bit (push_bit s (ucast ((ucast x OR 0x80 :: uint8) AND 0x7F)) OR push_bit (s + 7) (drop_bit 7 x)) n =
      bit (push_bit s x) n"
  proof (cases "s + 7 \<le> n")
    case True
    then obtain k where "n = s + 7 + k" by (auto simp: le_iff_add)
    then show ?thesis by (simp add: bit_simps bit_7F bit_80)
  next
    case False
    then show ?thesis by (auto simp: bit_simps bit_7F bit_80)
  qed
qed

lemma more_byte: "\<not> (ucast (x :: uint64) OR 0x80 :: uint8) < 0x80"
proof
  let ?w = "ucast x OR 0x80 :: uint8"
  assume "?w < 0x80"
  then have "unat ?w < 2 ^ 7" by (simp add: word_less_nat_alt)
  then have "take_bit 7 ?w = ?w" by (simp only: word_unat_eq_iff unsigned_take_bit_eq take_bit_nat_eq_self)
  moreover have "bit ?w 7" by (simp add: bit_simps bit_80)
  ultimately show False by (metis bit_take_bit_iff less_irrefl)
qed

lemma Uvarint_PutUvarint:
  "unat x < 2 ^ (64 - s) \<Longrightarrow> s = 7 * i \<Longrightarrow> i \<le> 9 \<Longrightarrow>
   Uvarint_loop i s acc (PutUvarint x @ rest) = (acc OR push_bit s x, int (i + length (PutUvarint x)))"
proof (induction x arbitrary: i s acc rule: PutUvarint.induct)
  case (1 x)
  show ?case
  proof (cases "x < 0x80")
    case True
    have "ucast x < (0x80 :: uint8)"
      using True by (simp add: word_less_nat_alt unsigned_ucast_eq take_bit_eq_mod unat_mod)
    moreover have "\<not> (i = 9 \<and> ucast x > (1 :: uint8))"
      using "1.prems" True by (auto simp: word_less_nat_alt unsigned_ucast_eq take_bit_eq_mod unat_mod)
    ultimately show ?thesis using True "1.prems"(3) by (simp add: PutUvarint.simps [of x] low_byte)
  next
    case False
    have "2 ^ 7 \<le> unat x" using False by (simp add: word_less_nat_alt)
    with "1.prems"(1) have "(2 :: nat) ^ 7 < 2 ^ (64 - s)" by linarith
    then have i: "7 < 64 - s" by (rule power_less_imp_less_exp [rotated]) simp
    with "1.prems" have i9: "Suc i \<le> 9" by simp
    have "64 - s = 7 + (64 - (s + 7))" using i by simp
    then have "unat x < 2 ^ 7 * 2 ^ (64 - (s + 7))" using "1.prems"(1) by (metis power_add)
    then have "unat (drop_bit 7 x) < 2 ^ (64 - (s + 7))"
      by (simp add: drop_bit_eq_div unat_div less_mult_imp_div_less mult.commute)
    from "1.IH" [OF False this _ i9] "1.prems"(2)
    have "Uvarint_loop (Suc i) (s + 7) a (PutUvarint (drop_bit 7 x) @ rest) =
        (a OR push_bit (s + 7) (drop_bit 7 x), int (Suc i + length (PutUvarint (drop_bit 7 x))))" for a by simp
    then show ?thesis using False i9 more_byte [of x]
      by (simp add: PutUvarint.simps [of x] or.assoc split_byte)
  qed
qed

lemma length_PutUvarint: "unat x < 2 ^ (7 * n) \<Longrightarrow> 0 < n \<Longrightarrow> length (PutUvarint x) \<le> n"
proof (induction x arbitrary: n rule: PutUvarint.induct)
  case (1 x)
  show ?case
  proof (cases "x < 0x80")
    case True
    then show ?thesis using "1.prems" by (simp add: PutUvarint.simps [of x])
  next
    case False
    then have "2 ^ 7 \<le> unat x" by (simp add: word_less_nat_alt)
    with "1.prems"(1) have "(2 :: nat) ^ 7 < 2 ^ (7 * n)" by linarith
    then have "7 < 7 * n" by (rule power_less_imp_less_exp [rotated]) simp
    then obtain m where m: "n = Suc m" "0 < m" by (cases n) auto
    have "unat x < 2 ^ 7 * 2 ^ (7 * m)" using "1.prems"(1) m by (simp add: power_add)
    then have "unat (drop_bit 7 x) < 2 ^ (7 * m)"
      by (simp add: drop_bit_eq_div unat_div less_mult_imp_div_less mult.commute)
    from "1.IH" [OF False this m(2)] show ?thesis using False m(1) by (simp add: PutUvarint.simps [of x])
  qed
qed

lemma length_PutUvarint_10: "length (PutUvarint x) \<le> 10"
proof (rule length_PutUvarint)
  have "unat x < 2 ^ 64" using unsigned_less [of x] by simp
  also have "(2 :: nat) ^ 64 \<le> 2 ^ (7 * 10)" by (rule power_increasing) simp_all
  finally show "unat x < 2 ^ (7 * 10)" .
qed simp

lemma PutUvarint_pos: "0 < length (PutUvarint x)"
  by (subst PutUvarint.simps) simp

text \<open>The number of bytes after padding, without wrap-around.\<close>

definition padded_len :: "nat \<Rightarrow> nat \<Rightarrow> nat" where
  "padded_len u d = (if u mod d = 0 then u else u + (d - u mod d))"

lemma padded_len: "0 < d \<Longrightarrow> padded_len u d mod d = 0" "u \<le> padded_len u d" "0 < d \<Longrightarrow> padded_len u d < u + d"
proof -
  assume d: "0 < d"
  have "u + (d - u mod d) = d * (u div d) + d" using d mult_div_mod_eq [of d u] mod_less_divisor [OF d, of u] by linarith
  then show "padded_len u d mod d = 0" by (simp add: padded_len_def)
  show "padded_len u d < u + d" using d by (auto simp: padded_len_def)
qed (simp add: padded_len_def)

lemma PadMessage_layout:
  assumes "length msg < 2 ^ 62" and "0 < n" and "n < 2 ^ 61"
  defines "v \<equiv> PutUvarint (of_nat (length msg))"
  shows "PadMessage msg n = Inr (v @ msg @ replicate (padded_len (length v + length msg) (2 * n) - (length v + length msg)) 0)"
proof -
  let ?u = "length v + length msg"
  have v10: "length v \<le> 10" by (simp add: v_def length_PutUvarint_10)
  have u: "unat (of_nat ?u :: uint64) = ?u" by (rule unat_nat64) (use v10 assms(1) in simp)
  have d: "unat (of_nat (2 * n) :: uint64) = 2 * n" by (rule unat_nat64) (use assms(3) in simp)
  have d0: "(of_nat (2 * n) :: uint64) \<noteq> 0" using d assms(2) by (metis mult_is_0 neq0_conv unat_0 zero_neq_numeral)
  have rem: "unat (of_nat ?u mod of_nat (2 * n) :: uint64) = ?u mod (2 * n)" by (simp only: unat_mod u d)
  let ?p = "if (of_nat ?u mod of_nat (2 * n) :: uint64) \<noteq> 0 then of_nat ?u + (of_nat (2 * n) - of_nat ?u mod of_nat (2 * n))
    else (of_nat ?u :: uint64)"
  have "unat ?p = padded_len ?u (2 * n)"
  proof (cases "?u mod (2 * n) = 0")
    case True
    then have "(of_nat ?u mod of_nat (2 * n) :: uint64) = 0" using rem by (simp only: unat_eq_zero [symmetric])
    then show ?thesis using True u by (simp only: padded_len_def if_True if_False simp_thms)
  next
    case False
    then have nz: "(of_nat ?u mod of_nat (2 * n) :: uint64) \<noteq> 0" using rem by (metis unat_0)
    have lt: "?u mod (2 * n) < 2 * n" using assms(2) by simp
    have le: "(of_nat ?u mod of_nat (2 * n) :: uint64) \<le> of_nat (2 * n)"
      using lt by (simp only: word_le_nat_alt rem d)
    have "unat (of_nat (2 * n) - of_nat ?u mod of_nat (2 * n) :: uint64) = 2 * n - ?u mod (2 * n)"
      by (simp only: unat_sub [OF le] rem d)
    then have "unat (of_nat ?u + (of_nat (2 * n) - of_nat ?u mod of_nat (2 * n)) :: uint64) = ?u + (2 * n - ?u mod (2 * n))"
      using v10 assms(1,3) by (simp only: unat_word_ariths u) simp
    then show ?thesis using False nz by (simp only: padded_len_def if_True if_False simp_thms)
  qed
  then show ?thesis using d0 padded_len(2) [of ?u "2 * n"]
    by (simp add: PadMessage_def Let_def v_def [symmetric] del: of_nat_add of_nat_mult)
qed

lemma Uvarint_loop_consumed:
  "Uvarint_loop i s x bs = (l, k) \<Longrightarrow> 0 < k \<Longrightarrow> i \<le> 10 \<Longrightarrow> int i < k \<and> k \<le> int i + int (length bs) \<and> k \<le> 10"
proof (induction i s x bs rule: Uvarint_loop.induct)
  case (2 i s x b bs)
  show ?case
  proof (cases "i \<noteq> 10 \<and> \<not> b < 0x80")
    case True
    then show ?thesis using "2.IH" "2.prems" by force
  next
    case False
    then show ?thesis using "2.prems" by (auto split: if_splits)
  qed
qed simp

lemma unpad_cases:
  assumes "length padded < 2 ^ 63" and "Uvarint padded = (l, k)"
  shows "UnpadMessage padded =
    (if k \<le> 0 then Inl (InvalidVarint k)
     else if 2 ^ 64 \<le> nat k + unat l then Inl PPanic
     else if length padded < nat k + unat l then Inl (LengthExceedsData l (int (length padded) - k))
     else Inr (take (unat l) (drop (nat k) padded)))"
proof (cases "k \<le> 0")
  case False
  then obtain c where c: "k = int c" "0 < c" by (metis not_le pos_int_cases)
  have b: "c \<le> length padded" "c \<le> 10"
    using Uvarint_loop_consumed [of 0 0 0 padded l k] assms(2) c by (simp_all add: Uvarint_def)
  have p: "unat (of_nat (length padded) :: uint64) = length padded" by (rule unat_nat64) (use assms(1) in simp)
  have c64: "unat (of_nat c :: uint64) = c" by (rule unat_nat64) (use b in simp)
  have l: "unat l < 2 ^ 64" using unsigned_less [of l] by simp
  have e: "unat (of_nat c + l) = (c + unat l) mod 2 ^ 64" by (simp add: unat_word_ariths c64)
  show ?thesis
  proof (cases "2 ^ 64 \<le> c + unat l")
    case True
    then have "unat (of_nat c + l) = c + unat l - 2 ^ 64" using e l b(2) by (simp add: mod_if)
    moreover from this have "unat (of_nat c + l) < c" using l c(2) True by linarith
    ultimately show ?thesis using True c b assms(2) p by (simp add: UnpadMessage_def word_less_nat_alt)
  next
    case small: False
    then have "unat (of_nat c + l) = c + unat l" using e by simp
    then show ?thesis using small c b assms(2) p by (simp add: UnpadMessage_def word_less_nat_alt)
  qed
qed (simp add: UnpadMessage_def assms(2))

lemma unpad_PadMessage:
  assumes "length msg + length rest < 2 ^ 62" and "0 < n" and "n < 2 ^ 60"
  shows "\<exists>p. PadMessage msg n = Inr p \<and> length p mod (2 * n) = 0 \<and> length p < length msg + 10 + 2 * n \<and>
    UnpadMessage (p @ rest) = Inr msg"
proof -
  define v where "v = PutUvarint (of_nat (length msg))"
  let ?u = "length v + length msg"
  let ?p = "v @ msg @ replicate (padded_len ?u (2 * n) - ?u) 0"
  have p: "PadMessage msg n = Inr ?p" unfolding v_def by (rule PadMessage_layout) (use assms in simp_all)
  have len: "length ?p = padded_len ?u (2 * n)" using padded_len(2) [of ?u "2 * n"] by simp
  have v: "length v \<le> 10" "0 < length v" unfolding v_def by (rule length_PutUvarint_10, rule PutUvarint_pos)
  have l: "unat (of_nat (length msg) :: uint64) = length msg" by (rule unat_nat64) (use assms(1) in simp)
  have "unat (of_nat (length msg) :: uint64) < 2 ^ (64 - 0)" using assms(1) l by simp
  from Uvarint_PutUvarint [OF this, of 0 0 "msg @ replicate (padded_len ?u (2 * n) - ?u) 0 @ rest"]
  have uv: "Uvarint (?p @ rest) = (of_nat (length msg), int (length v))" by (simp add: Uvarint_def v_def)
  have len2: "length ?p mod (2 * n) = 0" "length ?p < length msg + 10 + 2 * n"
    using len padded_len(1,3) [of "2 * n" ?u] assms(2) v(1) by simp_all
  have "length (?p @ rest) < 2 ^ 63" using len2(2) assms(1,3) by simp
  from unpad_cases [OF this uv] have "UnpadMessage (?p @ rest) = Inr msg" using v assms(1) l by simp
  with p len2 show ?thesis by (intro exI [of _ ?p] conjI)
qed

section \<open>Properties\<close>

text \<open>C33: Padding round trip. A padded message has a length that the number of shards divides evenly twice over, and
  removing the padding gives the message back, whatever bytes follow the padding.\<close>

theorem pad_unpad:
  assumes "length msg + length rest < 2 ^ 62" and "0 < n" and "n < 2 ^ 60"
  shows "\<exists>p. PadMessage msg n = Inr p \<and> length p mod (2 * n) = 0 \<and> length p < length msg + 10 + 2 * n \<and>
    UnpadMessage (p @ rest) = Inr msg"
  by (rule unpad_PadMessage [OF assms])

theorem pad_unpad_witness:
  "\<exists>p. PadMessage [1, 2, 3] 4 = Inr p \<and> length p mod 8 = 0 \<and> length p < 21 \<and>
     UnpadMessage (p @ [9]) = Inr [1, 2, 3]"
  using pad_unpad [of "[1, 2, 3]" "[9]" 4] by simp

text \<open>C34: Behaviour of unpadding on every input. The length prefix is not checked against wrap-around of the 64-bit sum
  \<open>uint64(varintLen) + msgLen\<close>: a prefix of at least \<open>2 ^ 64 - varintLen\<close> passes the bounds check, and the slice
  expression then panics; every other bad input gets the error meant for it.\<close>

theorem unpad_errors:
  assumes "length padded < 2 ^ 63" and "Uvarint padded = (l, k)"
  shows "UnpadMessage padded =
    (if k \<le> 0 then Inl (InvalidVarint k)
     else if 2 ^ 64 \<le> nat k + unat l then Inl PPanic
     else if length padded < nat k + unat l then Inl (LengthExceedsData l (int (length padded) - k))
     else Inr (take (unat l) (drop (nat k) padded)))"
  by (rule unpad_cases [OF assms])

theorem unpad_errors_witness:
  "UnpadMessage [0xFF, 0xFF, 0xFF, 0xFF, 0xFF, 0xFF, 0xFF, 0xFF, 0xFF, 1] = Inl PPanic"
proof -
  let ?p = "[0xFF, 0xFF, 0xFF, 0xFF, 0xFF, 0xFF, 0xFF, 0xFF, 0xFF, 1] :: uint8 list"
  have "Uvarint ?p = (0xFFFFFFFFFFFFFFFF, 10)" by code_simp
  with unpad_errors [of ?p "0xFFFFFFFFFFFFFFFF" 10] show ?thesis by simp
qed

end
