(* ===== verification/Propeller_Merkle.thy ===== *)
theory Propeller_Merkle
  imports Sha256 Propeller_Codec
begin

unbundle bit_operations_syntax

text \<open>
  The Merkle trees of Propeller (\<open>consensus/propeller/merkle/merkle.go\<close>): the tagged hashes, the construction of
  the root with one inclusion proof per leaf, and the verification of a proof. An index out of the range of a
  slice is \<open>None\<close> (the code would panic). The lemmas show that the construction never panics, that every proof
  it gives verifies, and that an accepted proof of other data exhibits a collision of SHA-256.
\<close>

type_synonym hash32 = "uint8 list"

record merkle_proof =
  Siblings :: "hash32 list"

section \<open>Definitions\<close>

definition merkleLeafHash :: "uint8 list \<Rightarrow> hash32" where
  "merkleLeafHash data = Sum256 (string_bytes ''<leaf>'' @ data @ string_bytes ''</leaf>'')"

definition merkleNodeHash :: "hash32 \<Rightarrow> hash32 \<Rightarrow> hash32" where
  "merkleNodeHash left right =
     Sum256 (string_bytes ''<node><left>'' @ left @ string_bytes ''</left><right>'' @ right @
       string_bytes ''</right></node>'')"

definition emptyLeafHash :: hash32 where
  "emptyLeafHash = merkleLeafHash []"

text \<open>The loop of \<open>Verify\<close>.\<close>

fun verify_path :: "hash32 \<Rightarrow> uint32 \<Rightarrow> hash32 list \<Rightarrow> hash32" where
  "verify_path current idx [] = current"
| "verify_path current idx (s # ss) =
     verify_path (if idx mod 2 = 0 then merkleNodeHash current s else merkleNodeHash s current) (idx div 2) ss"

definition Proof_Verify :: "merkle_proof \<Rightarrow> hash32 \<Rightarrow> uint8 list \<Rightarrow> uint32 \<Rightarrow> bool" where
  "Proof_Verify p root leaf index \<longleftrightarrow> verify_path (merkleLeafHash leaf) index (Siblings p) = root"

text \<open>\<open>bits.Len\<close>, and \<open>nextPowerOfTwo\<close> on the length of a slice (a slice of byte slices has fewer than \<open>2 ^ 60\<close>
  elements, so the shift does not overflow).\<close>

fun bits_Len :: "nat \<Rightarrow> nat" where
  "bits_Len n = (if n = 0 then 0 else Suc (bits_Len (n div 2)))"

declare bits_Len.simps [simp del]

definition nextPowerOfTwo :: "nat \<Rightarrow> nat" where
  "nextPowerOfTwo n = (if n \<le> 2 then 2 else push_bit (bits_Len (n - 1)) 1)"

fun hash_pairs :: "hash32 list \<Rightarrow> hash32 list option" where
  "hash_pairs [] = Some []"
| "hash_pairs [_] = None"
| "hash_pairs (a # b # r) = map_option ((#) (merkleNodeHash a b)) (hash_pairs r)"

lemma length_hash_pairs: "hash_pairs xs = Some ys \<Longrightarrow> length ys = length xs div 2"
  by (induction xs arbitrary: ys rule: hash_pairs.induct) auto

fun those_siblings :: "hash32 list \<Rightarrow> (hash32 list \<times> nat) list \<Rightarrow> (hash32 list \<times> nat) list option" where
  "those_siblings layer [] = Some []"
| "those_siblings layer ((ps, a) # r) =
     (case slice_get layer (a XOR 1) of None \<Rightarrow> None
      | Some h \<Rightarrow> map_option ((#) (ps @ [h], a div 2)) (those_siblings layer r))"

text \<open>The loop of \<open>New\<close>, one level of the tree per step; a leaf's sibling list and the position of its ancestor
  are kept together.\<close>

function build_levels :: "hash32 list \<Rightarrow> (hash32 list \<times> nat) list \<Rightarrow> (hash32 \<times> hash32 list list) option" where
  "build_levels layer acc =
     (if length layer > 1 then
        (case hash_pairs layer of None \<Rightarrow> None
         | Some nextLayer \<Rightarrow>
             (case those_siblings layer acc of None \<Rightarrow> None
              | Some acc' \<Rightarrow> build_levels nextLayer acc'))
      else map_option (\<lambda>r. (r, map fst acc)) (slice_get layer 0))"
  by auto
termination by (relation "measure (length \<circ> fst)") (auto dest: length_hash_pairs)

declare build_levels.simps [simp del]

definition merkle_New :: "uint8 list list \<Rightarrow> (hash32 \<times> merkle_proof list) option" where
  "merkle_New leaves =
     (let n = length leaves
      in if n = 0 then Some (replicate 32 0, [])
         else let size = nextPowerOfTwo n;
                  layer = map merkleLeafHash leaves @ replicate (size - n) emptyLeafHash
              in map_option (\<lambda>(root, ps). (root, map (\<lambda>s. \<lparr> Siblings = s \<rparr>) ps))
                   (build_levels layer (map (\<lambda>j. ([], j)) [0..<n])))"

section \<open>The padded tree\<close>

text \<open>The number of levels, the leaves with the padding, and the hash at each position of each level.\<close>

definition depth :: "nat \<Rightarrow> nat" where
  "depth n = (if n \<le> 2 then 1 else bits_Len (n - 1))"

definition padded_leaf :: "uint8 list list \<Rightarrow> nat \<Rightarrow> uint8 list" where
  "padded_leaf leaves i = (if i < length leaves then leaves ! i else [])"

fun node_hash :: "uint8 list list \<Rightarrow> nat \<Rightarrow> nat \<Rightarrow> hash32" where
  "node_hash leaves 0 i = merkleLeafHash (padded_leaf leaves i)"
| "node_hash leaves (Suc k) i = merkleNodeHash (node_hash leaves k (2 * i)) (node_hash leaves k (Suc (2 * i)))"

definition sibling_path :: "uint8 list list \<Rightarrow> nat \<Rightarrow> nat \<Rightarrow> nat \<Rightarrow> hash32 list" where
  "sibling_path leaves i a b = map (\<lambda>k. node_hash leaves k (i div 2 ^ k XOR 1)) [a..<b]"

lemma length_merkle_hash [simp]: "length (merkleLeafHash d) = 32" "length (merkleNodeHash l r) = 32" "length (node_hash ls k i) = 32"
  by (simp_all add: merkleLeafHash_def merkleNodeHash_def) (cases k; simp add: merkleLeafHash_def merkleNodeHash_def)

lemma bits_Len_le: "n < 2 ^ bits_Len n"
proof (induction n rule: bits_Len.induct)
  case (1 n)
  show ?case
  proof (cases "n = 0")
    case False
    then have "n div 2 < 2 ^ bits_Len (n div 2)" using 1 by simp
    then have "n < 2 * 2 ^ bits_Len (n div 2)" by simp
    then show ?thesis using False by (simp add: bits_Len.simps [of n])
  qed (simp add: bits_Len.simps)
qed

lemma bits_Len_least: "0 < n \<Longrightarrow> 2 ^ (bits_Len n - 1) \<le> n"
proof (induction n rule: bits_Len.induct)
  case (1 n)
  show ?case
  proof (cases "n div 2 = 0")
    case True
    then show ?thesis using 1 by (simp add: bits_Len.simps [of n] bits_Len.simps [of 0])
  next
    case False
    then have "2 ^ (bits_Len (n div 2) - 1) \<le> n div 2" using 1 by simp
    moreover have "bits_Len (n div 2) \<noteq> 0" using False by (simp add: bits_Len.simps [of "n div 2"])
    ultimately have "2 ^ bits_Len (n div 2) \<le> n" by (cases "bits_Len (n div 2)") simp_all
    then show ?thesis using 1 by (simp add: bits_Len.simps [of n])
  qed
qed

lemma nextPowerOfTwo_depth: "nextPowerOfTwo n = 2 ^ depth n"
  by (simp add: nextPowerOfTwo_def depth_def push_bit_eq_mult)

lemma depth_ge: "n \<le> 2 ^ depth n"
  using bits_Len_le [of "n - 1"] by (auto simp: depth_def)

lemma depth_pos: "0 < depth n"
  by (auto simp: depth_def bits_Len.simps [of "n - Suc 0"])

lemma xor_1_nat: "(a :: nat) XOR 1 = (if even a then Suc a else a - 1)"
  unfolding xor_one_eq by simp

lemma xor_1_less: "a < 2 * b \<Longrightarrow> (a :: nat) XOR 1 < 2 * b"
  unfolding xor_1_nat by (auto elim: evenE)

lemma shift_Suc: "(i :: nat) div 2 ^ Suc k = i div 2 ^ k div 2"
  by (metis div_mult2_eq power_Suc2)

lemma half_mod: "(a :: nat) div 2 mod 2 ^ m = a mod 2 ^ Suc m div 2"
  by (simp add: mod_mult2_eq)

lemma hash_pairs_upt:
  "hash_pairs (map f [0..<2 * m]) = Some (map (\<lambda>i. merkleNodeHash (f (2 * i)) (f (Suc (2 * i)))) [0..<m])"
proof (induction m arbitrary: f)
  case (Suc m)
  have "map f [0..<2 * Suc m] = f 0 # f 1 # map (\<lambda>i. f (i + 2)) [0..<2 * m]"
    by (rule nth_equalityI) (auto simp: nth_Cons' numeral_2_eq_2 simp del: upt_Suc intro!: arg_cong [where f = f])
  then have "hash_pairs (map f [0..<2 * Suc m]) =
      Some (merkleNodeHash (f 0) (f 1) # map (\<lambda>i. merkleNodeHash (f (2 * i + 2)) (f (Suc (2 * i + 2)))) [0..<m])"
    using Suc [of "\<lambda>i. f (i + 2)"] by simp
  also have "merkleNodeHash (f 0) (f 1) # map (\<lambda>i. merkleNodeHash (f (2 * i + 2)) (f (Suc (2 * i + 2)))) [0..<m] =
      map (\<lambda>i. merkleNodeHash (f (2 * i)) (f (Suc (2 * i)))) [0..<Suc m]"
    by (rule nth_equalityI) (auto simp: nth_Cons' simp del: upt_Suc intro!: arg_cong2 [where f = merkleNodeHash] arg_cong [where f = f])
  finally show ?case .
qed simp

lemma those_siblings_map:
  "\<forall>(ps, a) \<in> set acc. a XOR 1 < length layer \<Longrightarrow>
   those_siblings layer acc = Some (map (\<lambda>(ps, a). (ps @ [layer ! (a XOR 1)], a div 2)) acc)"
  by (induction acc) (auto simp: slice_get_def)

lemma build_levels_tree:
  assumes "m + k = d" and "n \<le> 2 ^ d"
  shows "build_levels (map (node_hash ls k) [0..<2 ^ m]) (map (\<lambda>j. (sibling_path ls j 0 k, j div 2 ^ k)) [0..<n]) =
    Some (node_hash ls d 0, map (\<lambda>j. sibling_path ls j 0 d) [0..<n])"
  using assms(1)
proof (induction m arbitrary: k)
  case 0
  then show ?case by (simp add: build_levels.simps slice_get_def comp_def)
next
  case (Suc m)
  let ?layer = "map (node_hash ls k) [0..<2 ^ Suc m]"
  have pairs: "hash_pairs ?layer = Some (map (node_hash ls (Suc k)) [0..<2 ^ m])"
    by (simp add: hash_pairs_upt)
  have "j div 2 ^ k < 2 * 2 ^ m" if "j < n" for j
  proof -
    have "j < 2 ^ Suc m * 2 ^ k" using that assms(2) Suc.prems [symmetric] by (simp add: power_add)
    then show ?thesis by (simp add: less_mult_imp_div_less)
  qed
  then have xor: "j div 2 ^ k XOR 1 < 2 * 2 ^ m" if "j < n" for j
    using that by (intro xor_1_less)
  have "those_siblings ?layer (map (\<lambda>j. (sibling_path ls j 0 k, j div 2 ^ k)) [0..<n]) =
      Some (map (\<lambda>j. (sibling_path ls j 0 (Suc k), j div 2 ^ Suc k)) [0..<n])"
    using xor by (subst those_siblings_map) (auto simp: sibling_path_def div_mult2_eq [symmetric] mult.commute)
  moreover have "1 < length ?layer" using one_less_power [of "2 :: nat" "Suc m"] by simp
  ultimately show ?case using pairs Suc.IH [of "Suc k"] Suc.prems by (subst build_levels.simps) (simp del: node_hash.simps)
qed

lemma New_tree:
  assumes "leaves \<noteq> []"
  defines "d \<equiv> depth (length leaves)"
  shows "merkle_New leaves =
    Some (node_hash leaves d 0, map (\<lambda>j. \<lparr> Siblings = sibling_path leaves j 0 d \<rparr>) [0..<length leaves])"
proof -
  have n: "length leaves \<le> 2 ^ d" by (simp add: d_def depth_ge)
  have "map merkleLeafHash leaves @ replicate (2 ^ d - length leaves) emptyLeafHash = map (node_hash leaves 0) [0..<2 ^ d]"
    by (rule nth_equalityI) (use n in \<open>auto simp: nth_append padded_leaf_def emptyLeafHash_def\<close>)
  moreover have "build_levels (map (node_hash leaves 0) [0..<2 ^ d]) (map (\<lambda>j. ([], j)) [0..<length leaves]) =
      Some (node_hash leaves d 0, map (\<lambda>j. sibling_path leaves j 0 d) [0..<length leaves])"
    using build_levels_tree [of d 0 d "length leaves" leaves] n by (simp add: sibling_path_def)
  ultimately show ?thesis using assms(1) by (simp add: merkle_New_def nextPowerOfTwo_depth d_def [symmetric] comp_def)
qed

section \<open>Completeness\<close>

lemma sibling_path_Suc: "a < b \<Longrightarrow> sibling_path ls i a b = node_hash ls a (i div 2 ^ a XOR 1) # sibling_path ls i (Suc a) b"
  by (simp add: sibling_path_def upt_conv_Cons)

lemma verify_sibling_path:
  "unat idx mod 2 ^ m = i div 2 ^ k mod 2 ^ m \<Longrightarrow> i < 2 ^ (k + m) \<Longrightarrow>
   verify_path (node_hash ls k (i div 2 ^ k)) idx (sibling_path ls i k (k + m)) = node_hash ls (k + m) 0"
proof (induction m arbitrary: k idx)
  case (Suc m)
  let ?a = "i div 2 ^ k"
  have par: "idx mod 2 = 0 \<longleftrightarrow> even ?a"
  proof -
    have "unat idx mod 2 ^ Suc m mod 2 = ?a mod 2 ^ Suc m mod 2" using Suc.prems(1) by (rule arg_cong)
    then have "unat idx mod 2 = ?a mod 2" by (simp add: mod_mod_cancel)
    then show ?thesis by (simp add: word_unat_eq_iff unat_mod even_iff_mod_2_eq_zero)
  qed
  have nx: "(if idx mod 2 = 0 then merkleNodeHash (node_hash ls k ?a) (node_hash ls k (?a XOR 1))
      else merkleNodeHash (node_hash ls k (?a XOR 1)) (node_hash ls k ?a)) = node_hash ls (Suc k) (i div 2 ^ Suc k)"
    unfolding par shift_Suc xor_1_nat node_hash.simps by (auto elim!: evenE oddE)
  have "unat (idx div 2) mod 2 ^ m = i div 2 ^ Suc k mod 2 ^ m"
    using Suc.prems(1) half_mod [of "unat idx" m] half_mod [of ?a m] unfolding shift_Suc by (simp add: unat_div)
  from Suc.IH [OF this] Suc.prems(2)
  have ih: "verify_path (node_hash ls (Suc k) (i div 2 ^ Suc k)) (idx div 2) (sibling_path ls i (Suc k) (k + Suc m)) =
      node_hash ls (k + Suc m) 0" by (simp del: node_hash.simps)
  have "k < k + Suc m" by simp
  from sibling_path_Suc [OF this] show ?case unfolding verify_path.simps nx by (simp only: verify_path.simps nx ih)
qed (simp add: sibling_path_def)

section \<open>Soundness\<close>

lemma low_bits: "(2 * p + a div 2 ^ j mod 2) * 2 ^ j + a mod 2 ^ j = p * 2 ^ Suc j + (a :: nat) mod 2 ^ Suc j"
proof -
  have "a mod (2 ^ j * 2) = 2 ^ j * (a div 2 ^ j mod 2) + a mod 2 ^ j" by (rule mod_mult2_eq)
  then show ?thesis by (simp add: algebra_simps)
qed

text \<open>The byte strings the code hashes: the inputs of the tree of a list of leaves, and those of a verification.\<close>

definition leaf_input :: "uint8 list \<Rightarrow> uint8 list" where
  "leaf_input data = string_bytes ''<leaf>'' @ data @ string_bytes ''</leaf>''"

definition node_input :: "hash32 \<Rightarrow> hash32 \<Rightarrow> uint8 list" where
  "node_input left right =
     string_bytes ''<node><left>'' @ left @ string_bytes ''</left><right>'' @ right @ string_bytes ''</right></node>''"

definition tree_inputs :: "uint8 list list \<Rightarrow> uint8 list list" where
  "tree_inputs leaves =
     (let d = depth (length leaves)
      in map (\<lambda>i. leaf_input (padded_leaf leaves i)) [0..<2 ^ d] @
         concat (map (\<lambda>k. map (\<lambda>i. node_input (node_hash leaves k (2 * i)) (node_hash leaves k (Suc (2 * i))))
           [0..<2 ^ (d - Suc k)]) [0..<d]))"

fun path_inputs :: "hash32 \<Rightarrow> uint32 \<Rightarrow> hash32 list \<Rightarrow> uint8 list list" where
  "path_inputs current idx [] = []"
| "path_inputs current idx (s # ss) =
     (let inp = (if idx mod 2 = 0 then node_input current s else node_input s current)
      in inp # path_inputs (Sum256 inp) (idx div 2) ss)"

definition verify_inputs :: "merkle_proof \<Rightarrow> uint8 list \<Rightarrow> uint32 \<Rightarrow> uint8 list list" where
  "verify_inputs p leaf index = leaf_input leaf # path_inputs (merkleLeafHash leaf) index (Siblings p)"

definition collision :: "uint8 list list \<Rightarrow> uint8 list list \<Rightarrow> bool" where
  "collision xs ys \<longleftrightarrow> (\<exists>x \<in> set xs. \<exists>y \<in> set ys. x \<noteq> y \<and> Sum256 x = Sum256 y)"

lemma hash_inputs: "merkleLeafHash d = Sum256 (leaf_input d)" "merkleNodeHash l r = Sum256 (node_input l r)"
  by (simp_all add: merkleLeafHash_def merkleNodeHash_def leaf_input_def node_input_def)

lemma leaf_input_inj [simp]: "leaf_input a = leaf_input b \<longleftrightarrow> a = b"
  by (simp add: leaf_input_def)

lemma node_input_inj: "length l = 32 \<Longrightarrow> length l' = 32 \<Longrightarrow> node_input l r = node_input l' r' \<longleftrightarrow> l = l' \<and> r = r'"
  by (simp add: node_input_def)

lemma leaf_node_input [simp]: "leaf_input d \<noteq> node_input l r" "node_input l r \<noteq> leaf_input d"
  by (auto simp: leaf_input_def node_input_def string_bytes_def)

lemma same_input:
  "Sum256 x = Sum256 y \<Longrightarrow> x \<in> set xs \<Longrightarrow> y \<in> set ys \<Longrightarrow> \<not> collision xs ys \<Longrightarrow> x = y"
  by (auto simp: collision_def)

lemma tree_inputs_leaf: "i < 2 ^ depth (length ls) \<Longrightarrow> leaf_input (padded_leaf ls i) \<in> set (tree_inputs ls)"
  by (simp add: tree_inputs_def Let_def)

lemma tree_inputs_node:
  "k < depth (length ls) \<Longrightarrow> i < 2 ^ (depth (length ls) - Suc k) \<Longrightarrow>
   node_input (node_hash ls k (2 * i)) (node_hash ls k (Suc (2 * i))) \<in> set (tree_inputs ls)"
  by (fastforce simp: tree_inputs_def Let_def)

lemma even_index: "idx mod 2 = 0 \<longleftrightarrow> even (unat (idx :: uint32))"
  by (simp add: word_unat_eq_iff unat_mod even_iff_mod_2_eq_zero)

lemma path_inputs_snoc:
  "path_inputs c idx (ss @ [s]) = path_inputs c idx ss @
    [if even (unat idx div 2 ^ length ss) then node_input (verify_path c idx ss) s else node_input s (verify_path c idx ss)]"
  by (induction ss arbitrary: c idx) (simp_all add: even_index unat_div div_mult2_eq hash_inputs Let_def)

lemma verify_path_snoc: "verify_path c idx (ss @ [s]) = Sum256 (last (path_inputs c idx (ss @ [s])))"
  by (induction ss arbitrary: c idx)
    (simp_all add: path_inputs_snoc even_index unat_div div_mult2_eq hash_inputs Let_def)

lemma verify_down:
  assumes "verify_path (merkleLeafHash leaf) idx ss = node_hash ls k p" and "\<forall>s \<in> set ss. length s = 32"
    and "k \<le> depth (length ls)" and "p < 2 ^ (depth (length ls) - k)"
    and "\<not> collision (leaf_input leaf # path_inputs (merkleLeafHash leaf) idx ss) (tree_inputs ls)"
  shows "length ss = k \<and> leaf = padded_leaf ls (p * 2 ^ k + unat idx mod 2 ^ k)"
  using assms
proof (induction ss arbitrary: k p rule: rev_induct)
  case Nil
  show ?case
  proof (cases k)
    case 0
    have "leaf_input leaf = leaf_input (padded_leaf ls p)"
      by (rule same_input [OF _ _ tree_inputs_leaf Nil(5)]) (use Nil 0 in \<open>simp_all add: hash_inputs\<close>)
    then show ?thesis using 0 by simp
  next
    case (Suc j)
    have "leaf_input leaf = node_input (node_hash ls j (2 * p)) (node_hash ls j (Suc (2 * p)))"
      by (rule same_input [OF _ _ tree_inputs_node Nil(5)]) (use Nil Suc in \<open>simp_all add: hash_inputs\<close>)
    then show ?thesis by simp
  qed
next
  case (snoc s ss)
  let ?c = "verify_path (merkleLeafHash leaf) idx ss"
  let ?in = "last (path_inputs (merkleLeafHash leaf) idx (ss @ [s]))"
  have top: "Sum256 ?in = node_hash ls k p" "?in \<in> set (leaf_input leaf # path_inputs (merkleLeafHash leaf) idx (ss @ [s]))"
    using snoc.prems(1) by (simp add: verify_path_snoc [symmetric], simp add: path_inputs_snoc)
  show ?case
  proof (cases k)
    case 0
    have "?in = leaf_input (padded_leaf ls p)"
      by (rule same_input [OF _ top(2) tree_inputs_leaf snoc.prems(5)]) (use top(1) snoc.prems 0 in \<open>simp_all add: hash_inputs\<close>)
    then show ?thesis by (simp add: path_inputs_snoc split: if_splits)
  next
    case (Suc j)
    have eq: "?in = node_input (node_hash ls j (2 * p)) (node_hash ls j (Suc (2 * p)))"
      by (rule same_input [OF _ top(2) tree_inputs_node snoc.prems(5)]) (use top(1) snoc.prems Suc in \<open>simp_all add: hash_inputs\<close>)
    let ?b = "unat idx div 2 ^ length ss mod 2"
    have "length ?c = 32" by (cases ss rule: rev_cases) (simp_all add: verify_path_snoc)
    with eq snoc.prems(2) have c: "?c = node_hash ls j (2 * p + ?b)"
      by (auto simp: path_inputs_snoc node_input_inj mod_2_eq_odd split: if_splits)
    have "2 * p + ?b < 2 * 2 ^ (depth (length ls) - k)" using snoc.prems(4) by linarith
    also have "\<dots> = 2 ^ (depth (length ls) - j)" using Suc snoc.prems(3) by (simp add: Suc_diff_Suc flip: power_Suc)
    finally have p: "2 * p + ?b < 2 ^ (depth (length ls) - j)" .
    have nc: "\<not> collision (leaf_input leaf # path_inputs (merkleLeafHash leaf) idx ss) (tree_inputs ls)"
      using snoc.prems(5) by (auto simp: collision_def path_inputs_snoc)
    have ih: "length ss = j \<and> leaf = padded_leaf ls ((2 * p + ?b) * 2 ^ j + unat idx mod 2 ^ j)"
      by (rule snoc.IH [OF c _ _ p nc]) (use snoc.prems Suc in simp_all)
    have "(2 * p + unat idx div 2 ^ j mod 2) * 2 ^ j + unat idx mod 2 ^ j = p * 2 ^ Suc j + unat idx mod 2 ^ Suc j"
      by (rule low_bits)
    then show ?thesis using ih Suc by simp
  qed
qed

section \<open>Properties\<close>

text \<open>C19: Construction of a Merkle tree. For every non-empty list of leaves \<open>New\<close> returns (no index is out of
  range), with one proof per leaf, and each proof verifies for its leaf at its position. The code compares only as many
  bits of the index as the proof has siblings, so an index that differs in higher bits is accepted as well.\<close>

theorem merkle_complete:
  assumes "leaves \<noteq> []"
  shows "\<exists>root ps. merkle_New leaves = Some (root, ps) \<and> length ps = length leaves \<and>
    (\<forall>i < length leaves. 2 ^ length (Siblings (ps ! i)) = nextPowerOfTwo (length leaves) \<and>
      (\<forall>index. unat index mod nextPowerOfTwo (length leaves) = i \<longrightarrow> Proof_Verify (ps ! i) root (leaves ! i) index))"
proof -
  let ?d = "depth (length leaves)"
  let ?ps = "map (\<lambda>j. \<lparr> Siblings = sibling_path leaves j 0 ?d \<rparr>) [0..<length leaves]"
  have "Proof_Verify (?ps ! i) (node_hash leaves ?d 0) (leaves ! i) index"
    if i: "i < length leaves" and index: "unat index mod 2 ^ ?d = i" for i index
  proof -
    have "i < 2 ^ ?d" using i depth_ge [of "length leaves"] by linarith
    then show ?thesis using verify_sibling_path [of index ?d i 0 leaves] i index
      by (simp add: Proof_Verify_def padded_leaf_def)
  qed
  then show ?thesis using New_tree [OF assms]
    by (intro exI [of _ "node_hash leaves ?d 0"] exI [of _ ?ps]) (simp add: nextPowerOfTwo_depth sibling_path_def)
qed

theorem merkle_complete_witness:
  "\<exists>root ps. merkle_New [[1], [2], [3]] = Some (root, ps) \<and> Proof_Verify (ps ! 2) root [3] 2 \<and> Proof_Verify (ps ! 2) root [3] 6"
proof -
  have n: "nextPowerOfTwo (Suc (Suc (Suc 0))) = 4" by code_simp
  obtain root ps where "merkle_New [[1], [2], [3]] = Some (root, ps)"
    and v: "\<And>i index. i < 3 \<Longrightarrow> unat index mod 4 = i \<Longrightarrow> Proof_Verify (ps ! i) root ([[1], [2], [3]] ! i) index"
    using merkle_complete [of "[[1], [2], [3]]"] n by (auto simp: numeral_3_eq_3)
  then show ?thesis using v [of 2 2] v [of 2 6] by simp
qed

text \<open>C14: Soundness of Merkle proofs. When a proof is accepted against the root of a tree, then it has the length of
  the tree's paths and the data is the leaf at the position the low bits of the index name (the empty padding leaf beyond
  the last one), or two different byte strings, one hashed by this verification and one hashed in the construction of the
  tree, have the same SHA-256 digest.\<close>

theorem merkle_sound:
  assumes "leaves \<noteq> []" and "merkle_New leaves = Some (root, ps)" and "Proof_Verify p root leaf index"
    and "\<forall>s \<in> set (Siblings p). length s = 32"
  shows "(2 ^ length (Siblings p) = nextPowerOfTwo (length leaves) \<and>
      leaf = padded_leaf leaves (unat index mod nextPowerOfTwo (length leaves))) \<or>
    collision (verify_inputs p leaf index) (tree_inputs leaves)"
proof -
  have "verify_path (merkleLeafHash leaf) index (Siblings p) = node_hash leaves (depth (length leaves)) 0"
    using assms(2,3) New_tree [OF assms(1)] by (simp add: Proof_Verify_def)
  from verify_down [OF this assms(4)] show ?thesis
    by (auto simp: verify_inputs_def nextPowerOfTwo_depth)
qed

theorem merkle_sound_witness:
  "(let leaves = [[1], [2], [3]]; p = \<lparr> Siblings = sibling_path leaves 2 0 2 \<rparr>
    in 3 = length leaves \<and>
      (([3] = padded_leaf leaves 2) \<or> collision (verify_inputs p [3] 6) (tree_inputs leaves)))"
proof -
  let ?l = "[[1], [2], [3]] :: uint8 list list"
  let ?p = "\<lparr> Siblings = sibling_path ?l 2 0 2 \<rparr>"
  have d: "depth (Suc (Suc (Suc 0))) = 2" "nextPowerOfTwo (Suc (Suc (Suc 0))) = 4" by code_simp+
  have new: "merkle_New ?l = Some (node_hash ?l 2 0, map (\<lambda>j. \<lparr> Siblings = sibling_path ?l j 0 2 \<rparr>) [0..<3])"
    using New_tree [of ?l] d by (simp add: numeral_3_eq_3 del: upt_Suc)
  have "Proof_Verify ?p (node_hash ?l 2 0) [3] 6"
    using verify_sibling_path [of 6 2 2 0 ?l] by (simp add: Proof_Verify_def padded_leaf_def del: add_2_eq_Suc add_2_eq_Suc')
  from merkle_sound [OF _ new this] d show ?thesis by (auto simp: sibling_path_def)
qed

end
