(* ===== verification/Propeller_Sharding.thy ===== *)
theory Propeller_Sharding
  imports Propeller_Merkle
begin

text \<open>
  Units of Propeller (\<open>consensus/propeller/unit.go\<close>), signing (\<open>signing.go\<close>), the Reed-Solomon wrapper
  (\<open>reedsolomon/reedsolomon.go\<close>) and the way from a message to its units and back (\<open>sharding.go\<close>). The erasure code of
  \<open>klauspost/reedsolomon\<close> and the keys of \<open>libp2p\<close> are parameters: \<open>rs_lib\<close> and the functions \<open>idOf\<close>, \<open>sign\<close> and
  \<open>verify\<close>. \<open>rs_laws\<close> states what the documentation of the erasure code promises. A nil slice or pointer is \<open>None\<close>, and
  a nil dereference or an index out of range is \<open>ShardingPanic\<close>.
\<close>

section \<open>Units\<close>

record 'p prop_unit =
  u_CommitteeID :: "uint8 list"
  u_Publisher :: 'p
  u_MessageRoot :: hash32
  u_MerkleProof :: merkle_proof
  u_Signature :: "uint8 list"
  u_ShardIndex :: uint32
  u_ShardData :: "uint8 list list"
  u_Nonce :: uint64

section \<open>The erasure code\<close>

text \<open>The methods of the encoder that the wrapper calls, with the numbers of data and parity shards it was made for.\<close>

record rs_lib =
  rs_New :: "nat \<Rightarrow> nat \<Rightarrow> string option"
  rs_Split :: "nat \<Rightarrow> nat \<Rightarrow> uint8 list \<Rightarrow> string + uint8 list list"
  rs_Encode :: "nat \<Rightarrow> nat \<Rightarrow> uint8 list list \<Rightarrow> string + uint8 list list"
  rs_Reconstruct :: "nat \<Rightarrow> nat \<Rightarrow> uint8 list option list \<Rightarrow> string + uint8 list option list"
  rs_Verify :: "nat \<Rightarrow> nat \<Rightarrow> uint8 list option list \<Rightarrow> string + bool"

datatype rs_error = EmptyData | NewFailed string | SplitFailed string | EncodeFailed string
  | NoShards | ReconstructFailed string | VerifyFailed string | NotCorrect

definition EncodeData :: "rs_lib \<Rightarrow> uint8 list \<Rightarrow> nat \<Rightarrow> nat \<Rightarrow> rs_error + uint8 list list" where
  "EncodeData rs data numDataShards parity =
     (if data = [] then Inl EmptyData
      else case rs_New rs numDataShards parity of
             Some err \<Rightarrow> Inl (NewFailed err)
           | None \<Rightarrow>
               bindE (mapErr SplitFailed (rs_Split rs numDataShards parity data)) (\<lambda>split.
               mapErr EncodeFailed (rs_Encode rs numDataShards parity split)))"

definition RecoverData :: "rs_lib \<Rightarrow> uint8 list option list \<Rightarrow> nat \<Rightarrow> nat \<Rightarrow> rs_error + uint8 list option list" where
  "RecoverData rs shards numDataShards parity =
     (if shards = [] then Inl NoShards
      else case rs_New rs numDataShards parity of
             Some err \<Rightarrow> Inl (NewFailed err)
           | None \<Rightarrow>
               bindE (mapErr ReconstructFailed (rs_Reconstruct rs numDataShards parity shards)) (\<lambda>shards.
               bindE (mapErr VerifyFailed (rs_Verify rs numDataShards parity shards)) (\<lambda>correct.
               if \<not> correct then Inl NotCorrect else Inr shards)))"

section \<open>Signatures\<close>

definition SignMessage ::
  "('sk \<Rightarrow> uint8 list \<Rightarrow> string + uint8 list) \<Rightarrow> 'sk \<Rightarrow> hash32 \<Rightarrow> uint8 list \<Rightarrow> uint64 \<Rightarrow> string + uint8 list" where
  "SignMessage sign privKey root committeeID nonce = sign privKey (buildSignPayload root committeeID nonce)"

datatype sig_error = EmptySignature | VerificationFailed string | InvalidSignature

definition VerifyMessageSignature ::
  "('pk \<Rightarrow> uint8 list \<Rightarrow> uint8 list \<Rightarrow> string + bool) \<Rightarrow> 'pk \<Rightarrow> hash32 \<Rightarrow> uint8 list \<Rightarrow> uint64 \<Rightarrow> uint8 list \<Rightarrow>
   sig_error + unit" where
  "VerifyMessageSignature verify pubKey root committeeID nonce signature =
     (if signature = [] then Inl EmptySignature
      else bindE (mapErr VerificationFailed (verify pubKey (buildSignPayload root committeeID nonce) signature)) (\<lambda>valid.
           if \<not> valid then Inl InvalidSignature else Inr ()))"

section \<open>From a message to its units\<close>

datatype shard_error =
    NoPublisherId string
  | EncodingMessage rs_error
  | SigningRoot string
  | NoUnits
  | RecoveringShards rs_error
  | ShardSizeMismatch nat nat nat
  | WrongRoot hash32 hash32
  | Unpadding pad_error
  | ShardingPanic

definition CreatePropellerUnits ::
  "rs_lib \<Rightarrow> ('sk \<Rightarrow> string + 'p) \<Rightarrow> ('sk \<Rightarrow> uint8 list \<Rightarrow> string + uint8 list) \<Rightarrow>
   'sk \<Rightarrow> uint8 list \<Rightarrow> uint64 \<Rightarrow> uint8 list \<Rightarrow> nat \<Rightarrow> nat \<Rightarrow> shard_error + 'p prop_unit list" where
  "CreatePropellerUnits rs idOf sign privKey committeeID nonce message numDataShards parity =
     bindE (mapErr NoPublisherId (idOf privKey)) (\<lambda>publisherID.
     bindE (mapErr (\<lambda>_. ShardingPanic) (PadMessage message numDataShards)) (\<lambda>paddedMessage.
     bindE (mapErr EncodingMessage (EncodeData rs paddedMessage numDataShards parity)) (\<lambda>encodedMessage.
     case merkle_New encodedMessage of
       None \<Rightarrow> Inl ShardingPanic
     | Some (messageRoot, merkleTree) \<Rightarrow>
         bindE (mapErr SigningRoot (SignMessage sign privKey messageRoot committeeID nonce)) (\<lambda>signature.
         if length merkleTree < length encodedMessage then Inl ShardingPanic
         else Inr (map (\<lambda>i.
                \<lparr> u_CommitteeID = committeeID, u_Publisher = publisherID, u_MessageRoot = messageRoot,
                  u_MerkleProof = merkleTree ! i, u_Signature = signature, u_ShardIndex = of_nat i,
                  u_ShardData = [encodedMessage ! i], u_Nonce = 0 \<rparr>) [0..<length encodedMessage])))))"

section \<open>From units to the message\<close>

text \<open>\<open>units[i].ShardData[0]\<close> of the units present.\<close>

fun unit_shards :: "'p prop_unit option list \<Rightarrow> shard_error + uint8 list option list" where
  "unit_shards [] = Inr []"
| "unit_shards (None # us) = bindE (unit_shards us) (\<lambda>r. Inr (None # r))"
| "unit_shards (Some u # us) =
     (case u_ShardData u of [] \<Rightarrow> Inl ShardingPanic
      | d # _ \<Rightarrow> bindE (unit_shards us) (\<lambda>r. Inr (Some d # r)))"

abbreviation shard_bytes :: "uint8 list option \<Rightarrow> uint8 list" where
  "shard_bytes s \<equiv> (case s of None \<Rightarrow> [] | Some d \<Rightarrow> d)"

text \<open>The loop over the data shards; \<open>i\<close> counts up to \<open>n\<close>.\<close>

function check_sizes :: "uint8 list option list \<Rightarrow> nat \<Rightarrow> nat \<Rightarrow> nat \<Rightarrow> shard_error + unit" where
  "check_sizes shards shardSize n i =
     (if n \<le> i then Inr ()
      else if length shards \<le> i then Inl ShardingPanic
      else if shards ! i \<noteq> None \<and> length (shard_bytes (shards ! i)) \<noteq> shardSize
           then Inl (ShardSizeMismatch shardSize (length (shard_bytes (shards ! i))) i)
      else check_sizes shards shardSize n (Suc i))"
  by auto
termination by (relation "measure (\<lambda>(shards, shardSize, n, i). n - i)") auto

declare check_sizes.simps [simp del]

fun join_shards :: "nat \<Rightarrow> nat \<Rightarrow> uint8 list \<Rightarrow> uint8 list option list \<Rightarrow> uint8 list" where
  "join_shards shardSize i padded [] = padded"
| "join_shards shardSize i padded (s # ss) =
     join_shards shardSize (Suc i) (copy_at (i * shardSize) padded (shard_bytes s)) ss"

definition ConstructMessageFromUnits ::
  "rs_lib \<Rightarrow> 'p prop_unit option list \<Rightarrow> uint32 \<Rightarrow> nat \<Rightarrow> nat \<Rightarrow>
   shard_error + uint8 list \<times> uint8 list option list \<times> merkle_proof" where
  "ConstructMessageFromUnits rs units localShardIndex numDataShards parity =
     (if units = [] then Inl NoUnits
      else
        bindE (unit_shards units) (\<lambda>shards.
        bindE (mapErr RecoveringShards (RecoverData rs shards numDataShards parity)) (\<lambda>shards.
        case slice_get shards 0 of None \<Rightarrow> Inl ShardingPanic
        | Some shard0 \<Rightarrow>
            (let shardSize = length (shard_bytes shard0) in
             bindE (check_sizes shards shardSize numDataShards 0) (\<lambda>_.
             case merkle_New (map shard_bytes shards) of None \<Rightarrow> Inl ShardingPanic
             | Some (expectedRoot, merkleTree) \<Rightarrow>
                 (case hd units of None \<Rightarrow> Inl ShardingPanic
                  | Some unit0 \<Rightarrow>
                      if u_MessageRoot unit0 \<noteq> expectedRoot then Inl (WrongRoot expectedRoot (u_MessageRoot unit0))
                      else
                        let paddedMessage = join_shards shardSize 0 (replicate (shardSize * length shards) 0) shards in
                        bindE (mapErr Unpadding (UnpadMessage paddedMessage)) (\<lambda>message.
                        case (slice_get shards (unat localShardIndex), slice_get merkleTree (unat localShardIndex)) of
                          (Some localShard, Some localProof) \<Rightarrow> Inr (message, [localShard], localProof)
                        | _ \<Rightarrow> Inl ShardingPanic)))))))"

section \<open>What the erasure code promises\<close>

text \<open>\<open>encodes es n\<close>: the shards \<open>es\<close>, all of \<open>n\<close> bytes, come out of the encoder.\<close>

definition encodes :: "rs_lib \<Rightarrow> nat \<Rightarrow> nat \<Rightarrow> uint8 list list \<Rightarrow> nat \<Rightarrow> bool" where
  "encodes rs d p es n \<longleftrightarrow> length es = d + p \<and> (\<forall>s \<in> set es. length s = n) \<and>
     (\<exists>ss. length ss = d + p \<and> rs_Encode rs d p ss = Inr es)"

text \<open>The documented behaviour: splitting cuts data whose length \<open>d\<close> divides into equal shards, encoding keeps the data
  shards, and any \<open>d\<close> shards of an encoding suffice to reconstruct all of them.\<close>

definition split_law :: "rs_lib \<Rightarrow> nat \<Rightarrow> nat \<Rightarrow> bool" where
  "split_law rs d p \<longleftrightarrow> (\<forall>data. data \<noteq> [] \<longrightarrow> length data mod d = 0 \<longrightarrow>
     (\<exists>ss. rs_Split rs d p data = Inr ss \<and> length ss = d + p \<and> concat (take d ss) = data \<and>
        (\<forall>s \<in> set ss. length s = length data div d)))"

definition encode_law :: "rs_lib \<Rightarrow> nat \<Rightarrow> nat \<Rightarrow> bool" where
  "encode_law rs d p \<longleftrightarrow> (\<forall>ss n. length ss = d + p \<longrightarrow> 0 < n \<longrightarrow> (\<forall>s \<in> set ss. length s = n) \<longrightarrow>
     (\<exists>es. rs_Encode rs d p ss = Inr es \<and> take d es = take d ss \<and> encodes rs d p es n))"

definition reconstruct_law :: "rs_lib \<Rightarrow> nat \<Rightarrow> nat \<Rightarrow> bool" where
  "reconstruct_law rs d p \<longleftrightarrow> (\<forall>es n got. encodes rs d p es n \<longrightarrow> 0 < n \<longrightarrow> length got = d + p \<longrightarrow>
     (\<forall>i < d + p. got ! i = None \<or> got ! i = Some (es ! i)) \<longrightarrow> d \<le> length (filter (\<lambda>s. s \<noteq> None) got) \<longrightarrow>
     rs_Reconstruct rs d p got = Inr (map Some es))"

definition verify_law :: "rs_lib \<Rightarrow> nat \<Rightarrow> nat \<Rightarrow> bool" where
  "verify_law rs d p \<longleftrightarrow> (\<forall>es n. encodes rs d p es n \<longrightarrow> 0 < n \<longrightarrow> rs_Verify rs d p (map Some es) = Inr True)"

definition rs_laws :: "rs_lib \<Rightarrow> nat \<Rightarrow> nat \<Rightarrow> bool" where
  "rs_laws rs d p \<longleftrightarrow>
     rs_New rs d p = None \<and> split_law rs d p \<and> encode_law rs d p \<and> reconstruct_law rs d p \<and> verify_law rs d p"

lemma rs_lawsD:
  assumes "rs_laws rs d p"
  shows "rs_New rs d p = None" and "split_law rs d p" and "encode_law rs d p" and "reconstruct_law rs d p" and "verify_law rs d p"
  using assms by (simp_all add: rs_laws_def)

lemma EncodeData_laws:
  assumes "rs_laws rs d p" and "data \<noteq> []" and "length data mod d = 0"
  shows "\<exists>es. EncodeData rs data d p = Inr es \<and> encodes rs d p es (length data div d) \<and> concat (take d es) = data \<and>
    0 < length data div d"
proof -
  let ?n = "length data div d"
  have "d * ?n = length data" using assms(3) mult_div_mod_eq [of d "length data"] by simp
  then have n: "0 < ?n" using assms(2) by (metis gr0I length_0_conv mult_0_right)
  obtain ss where ss: "rs_Split rs d p data = Inr ss" "length ss = d + p" "concat (take d ss) = data" "\<forall>s \<in> set ss. length s = ?n"
    using rs_lawsD(2) [OF assms(1), unfolded split_law_def, rule_format, OF assms(2,3)] by blast
  moreover obtain es where "rs_Encode rs d p ss = Inr es" "take d es = take d ss" "encodes rs d p es ?n"
    using rs_lawsD(3) [OF assms(1), unfolded encode_law_def, rule_format, OF ss(2) n] ss(4) by blast
  ultimately show ?thesis using assms(2) n rs_lawsD(1) [OF assms(1)] by (simp add: EncodeData_def)
qed

lemma RecoverData_laws:
  assumes "rs_laws rs d p" and "encodes rs d p es n" and "0 < n" and "got \<noteq> []" and "length got = d + p"
    and "\<forall>i < d + p. got ! i = None \<or> got ! i = Some (es ! i)" and "d \<le> length (filter (\<lambda>s. s \<noteq> None) got)"
  shows "RecoverData rs got d p = Inr (map Some es)"
proof -
  have "rs_Reconstruct rs d p got = Inr (map Some es)"
    by (rule rs_lawsD(4) [OF assms(1), unfolded reconstruct_law_def, THEN spec, THEN spec, THEN spec, THEN mp, THEN mp, THEN mp,
      THEN mp, THEN mp, OF assms(2,3,5-7)])
  moreover have "rs_Verify rs d p (map Some es) = Inr True"
    by (rule rs_lawsD(5) [OF assms(1), unfolded verify_law_def, rule_format, OF assms(2,3)])
  ultimately show ?thesis using rs_lawsD(1) [OF assms(1)] assms(4) by (simp add: RecoverData_def)
qed

section \<open>Reconstruction\<close>

lemma length_concat_const: "\<forall>s \<in> set es. length s = n \<Longrightarrow> length (concat es) = n * length es"
  by (induction es) auto

lemma mod_double: "(a :: nat) mod (2 * d) = 0 \<Longrightarrow> a mod d = 0"
  by (metis dvd_mult_right mod_eq_0_iff_dvd)

lemma unit_shards_map:
  "\<forall>u. Some u \<in> set us \<longrightarrow> u_ShardData u \<noteq> [] \<Longrightarrow> unit_shards us = Inr (map (map_option (\<lambda>u. hd (u_ShardData u))) us)"
proof (induction us)
  case (Cons u us)
  then show ?case by (cases u) (auto simp: list.case_eq_if)
qed simp

lemma check_sizes_ok:
  "\<forall>s \<in> set es. length s = n \<Longrightarrow> d \<le> length es \<Longrightarrow> check_sizes (map Some es) n d i = Inr ()"
proof (induction "d - i" arbitrary: i)
  case (Suc k)
  then show ?case by (subst check_sizes.simps) simp
qed (simp add: check_sizes.simps)

lemma join_shards_concat:
  "\<forall>s \<in> set ss. length s = n \<Longrightarrow> (i + length ss) * n \<le> length padded \<Longrightarrow>
   join_shards n i padded (map Some ss) = take (i * n) padded @ concat ss @ drop ((i + length ss) * n) padded"
proof (induction ss arbitrary: i padded)
  case (Cons s ss)
  have len: "i * n + n \<le> length padded" "length s = n" using Cons.prems by (simp_all add: algebra_simps)
  let ?p = "copy_at (i * n) padded s"
  have p: "?p = take (i * n) padded @ s @ drop (i * n + n) padded" using len by (simp add: copy_at_def)
  have "join_shards n (Suc i) ?p (map Some ss) = take (Suc i * n) ?p @ concat ss @ drop ((Suc i + length ss) * n) ?p"
    by (rule Cons.IH) (use Cons.prems len in \<open>simp_all add: p algebra_simps\<close>)
  moreover have "take (Suc i * n) ?p = take (i * n) padded @ s" using len by (simp add: p)
  moreover have "drop ((Suc i + length ss) * n) ?p = drop ((i + length (s # ss)) * n) padded"
    using len by (simp add: p algebra_simps)
  ultimately show ?case by simp
qed simp

text \<open>What a successful creation of units rests on.\<close>

lemma CreatePropellerUnits_cases:
  assumes "CreatePropellerUnits rs idOf sign sk c nonce m d p = Inr us"
  obtains publisher padded es root tree sg where "idOf sk = Inr publisher" and "PadMessage m d = Inr padded"
    and "EncodeData rs padded d p = Inr es" and "merkle_New es = Some (root, tree)"
    and "SignMessage sign sk root c nonce = Inr sg" and "length es \<le> length tree"
    and "us = map (\<lambda>i. \<lparr> u_CommitteeID = c, u_Publisher = publisher, u_MessageRoot = root, u_MerkleProof = tree ! i,
      u_Signature = sg, u_ShardIndex = of_nat i, u_ShardData = [es ! i], u_Nonce = 0 \<rparr>) [0..<length es]"
proof -
  have [simp]: "mapErr g r = Inr x \<longleftrightarrow> r = Inr x" for g :: "'x \<Rightarrow> 'y" and r :: "'x + 'z" and x by (cases r) auto
  show ?thesis using assms that
    by (auto simp: CreatePropellerUnits_def bindE_Inr split: option.splits prod.splits if_splits)
qed

definition received :: "'p prop_unit list \<Rightarrow> 'p prop_unit option list \<Rightarrow> bool" where
  "received us got \<longleftrightarrow> length got = length us \<and> (\<forall>i < length us. got ! i = None \<or> got ! i = Some (us ! i))"

lemma ConstructMessage_ok:
  assumes "RecoverData rs (map (map_option (\<lambda>u. hd (u_ShardData u))) got) d p = Inr (map Some es)"
    and "\<forall>u. Some u \<in> set got \<longrightarrow> u_ShardData u \<noteq> [] \<and> u_MessageRoot u = root" and "got \<noteq> []" and "hd got \<noteq> None"
    and "es \<noteq> []" and "\<forall>s \<in> set es. length s = n" and "d \<le> length es"
    and "merkle_New es = Some (root, tree)" and "UnpadMessage (concat es) = Inr m" and "unat k < length es" and "unat k < length tree"
  shows "ConstructMessageFromUnits rs got k d p = Inr (m, [Some (es ! unat k)], tree ! unat k)"
proof -
  have sh: "unit_shards got = Inr (map (map_option (\<lambda>u. hd (u_ShardData u))) got)" using assms(2) by (intro unit_shards_map) blast
  obtain u where u: "hd got = Some u" "u_MessageRoot u = root" using assms(2-4) by (metis hd_in_set option.exhaust)
  have len: "length (es ! 0) = n" "slice_get (map Some es) 0 = Some (Some (es ! 0))" using assms(5,6) by simp_all
  have "join_shards n 0 (replicate (n * length es) 0) (map Some es) = concat es"
    using join_shards_concat [OF assms(6), of 0 "replicate (n * length es) 0"] by (simp add: mult.commute)
  moreover have "map (case_option [] (\<lambda>x. x)) (map Some es) = es" by (simp add: comp_def)
  ultimately show ?thesis using assms(1,3,8-11) sh u len check_sizes_ok [OF assms(6,7), of 0]
    by (simp add: ConstructMessageFromUnits_def Let_def del: map_map)
qed

section \<open>Properties\<close>

text \<open>C10: Reconstruction of a broadcast message. From the units a publisher creates, any selection that holds the unit of
  shard 0 and at least as many units as there are data shards gives back the message, together with the shard and the Merkle
  proof of the local index, provided the erasure code keeps its documented promises.\<close>

theorem reconstruct_message:
  assumes "rs_laws rs d p" and "0 < d" and "(length m + 10 + 2 * d) * (d + p) < 2 ^ 61"
    and "CreatePropellerUnits rs idOf sign sk c nonce m d p = Inr us" and "received us got" and "hd got \<noteq> None"
    and "d \<le> length (filter (\<lambda>u. u \<noteq> None) got)" and "unat k < length us"
  shows "ConstructMessageFromUnits rs got k d p = Inr (m, map Some (u_ShardData (us ! unat k)), u_MerkleProof (us ! unat k))"
  using assms(4)
proof (rule CreatePropellerUnits_cases)
  fix publisher padded es root tree sg
  assume pad: "PadMessage m d = Inr padded" and enc: "EncodeData rs padded d p = Inr es" and new: "merkle_New es = Some (root, tree)"
    and tree: "length es \<le> length tree"
    and us: "us = map (\<lambda>i. \<lparr> u_CommitteeID = c, u_Publisher = publisher, u_MessageRoot = root, u_MerkleProof = tree ! i,
      u_Signature = sg, u_ShardIndex = of_nat i, u_ShardData = [es ! i], u_Nonce = 0 \<rparr>) [0..<length es]"
  have b: "(length m + 10 + 2 * d) * 1 \<le> (length m + 10 + 2 * d) * (d + p)" by (rule mult_le_mono) (use assms(2) in simp_all)
  have "length m + 10 + 2 * d < 2 ^ 61" using le_less_trans [OF b assms(3)] by simp
  then have small: "length m < 2 ^ 61" and d60: "d < 2 ^ 60" by simp_all
  have pad_ok: "length padded mod (2 * d) = 0 \<and> length padded < length m + 10 + 2 * d \<and> UnpadMessage (padded @ rest) = Inr m"
    if "length m + length rest < 2 ^ 62" for rest
    using unpad_PadMessage [OF that assms(2) d60] pad by auto
  have "UnpadMessage padded = Inr m" using pad_ok [of "[]"] small by simp
  then have plen: "length padded mod d = 0" "length padded < length m + 10 + 2 * d" "padded \<noteq> []"
    using pad_ok [of "[]"] small by (auto simp: UnpadMessage_def Uvarint_def dest: mod_double)
  let ?n = "length padded div d"
  have es: "encodes rs d p es ?n" "concat (take d es) = padded" "0 < ?n"
    using EncodeData_laws [OF assms(1) plen(3,1)] enc by auto
  have el: "length es = d + p" "\<forall>s \<in> set es. length s = ?n" using es(1) by (simp_all add: encodes_def)
  have "?n * (d + p) \<le> (length m + 10 + 2 * d) * (d + p)"
    using plen(2) div_le_dividend [of "length padded" d] by (intro mult_le_mono1) linarith
  moreover have "length (concat (drop d es)) \<le> ?n * (d + p)"
  proof -
    have "\<forall>s \<in> set (drop d es). length s = ?n" using el(2) by (blast dest: in_set_dropD)
    then show ?thesis using length_concat_const [of "drop d es" ?n] el(1) by simp
  qed
  ultimately have "length (concat (drop d es)) < 2 ^ 61" using assms(3) by (meson le_less_trans)
  then have "length m + length (concat (drop d es)) < 2 ^ 62" using small by simp
  then have un: "UnpadMessage (concat es) = Inr m"
    using pad_ok [of "concat (drop d es)"] es(2) by (metis append_take_drop_id concat_append)
  have got: "length got = d + p" "\<forall>i < d + p. got ! i = None \<or> got ! i = Some (us ! i)"
    using assms(5) el(1) us by (auto simp: received_def)
  let ?g = "map (map_option (\<lambda>u. hd (u_ShardData u))) got"
  have "RecoverData rs ?g d p = Inr (map Some es)"
  proof (rule RecoverData_laws [OF assms(1) es(1,3)])
    show "\<forall>i < d + p. ?g ! i = None \<or> ?g ! i = Some (es ! i)" using got us el(1) by auto
    show "d \<le> length (filter (\<lambda>s. s \<noteq> None) ?g)" using assms(7) by (simp add: filter_map comp_def)
  qed (use got assms(2) in auto)
  moreover have "\<forall>u. Some u \<in> set got \<longrightarrow> u_ShardData u \<noteq> [] \<and> u_MessageRoot u = root"
  proof (intro allI impI)
    fix u assume "Some u \<in> set got"
    then obtain i where "i < d + p" "got ! i = Some u" using got(1) by (metis in_set_conv_nth)
    then have "u = us ! i" "i < length es" using got(2) el(1) by auto
    then show "u_ShardData u \<noteq> [] \<and> u_MessageRoot u = root" using us by simp
  qed
  ultimately have "ConstructMessageFromUnits rs got k d p = Inr (m, [Some (es ! unat k)], tree ! unat k)"
    by (rule ConstructMessage_ok) (use assms(2,6,8) got el un new tree us in auto)
  then show ?thesis using assms(8) us by simp
qed

text \<open>A code with one data shard that keeps these promises: every shard is a copy of it.\<close>

definition copies :: rs_lib where
  "copies = \<lparr> rs_New = (\<lambda>d p. None), rs_Split = (\<lambda>d p data. Inr (data # replicate p data)),
     rs_Encode = (\<lambda>d p ss. Inr (replicate (1 + p) (hd ss))),
     rs_Reconstruct = (\<lambda>d p got. case filter (\<lambda>s. s \<noteq> None) got of [] \<Rightarrow> Inl ''too few shards'' | s # _ \<Rightarrow> Inr (replicate (1 + p) s)),
     rs_Verify = (\<lambda>d p shards. Inr (\<forall>s \<in> set shards. s = hd shards)) \<rparr>"

lemma encodes_copies: "encodes copies 1 p es n \<Longrightarrow> \<exists>x. es = replicate (1 + p) x \<and> length x = n"
  by (auto simp: encodes_def copies_def)

lemma copies_laws: "rs_laws copies 1 p"
proof -
  have "split_law copies 1 p" by (auto simp: split_law_def copies_def)
  moreover have "encode_law copies 1 p"
    unfolding encode_law_def
  proof (intro allI impI)
    fix ss :: "uint8 list list" and n
    assume "length ss = 1 + p" "\<forall>s \<in> set ss. length s = n"
    then show "\<exists>es. rs_Encode copies 1 p ss = Inr es \<and> take 1 es = take 1 ss \<and> encodes copies 1 p es n"
      by (cases ss) (auto simp: copies_def encodes_def intro!: exI [of _ ss])
  qed
  moreover have "verify_law copies 1 p"
    unfolding verify_law_def
  proof (intro allI impI)
    fix es n assume "encodes copies 1 p es n"
    then obtain x where "es = replicate (1 + p) x" using encodes_copies by blast
    then show "rs_Verify copies 1 p (map Some es) = Inr True" by (simp add: copies_def)
  qed
  moreover have "reconstruct_law copies 1 p"
    unfolding reconstruct_law_def
  proof (intro allI impI)
    fix es n got
    assume e: "encodes copies 1 p es n" and g: "length got = 1 + p" "\<forall>i < 1 + p. got ! i = None \<or> got ! i = Some (es ! i)"
      and some: "1 \<le> length (filter (\<lambda>s. s \<noteq> None) got)"
    obtain x where x: "es = replicate (1 + p) x" using encodes_copies [OF e] by blast
    obtain s ss where f: "filter (\<lambda>s. s \<noteq> None) got = s # ss" using some by (cases "filter (\<lambda>s. s \<noteq> None) got") auto
    have "s \<in> set (filter (\<lambda>s. s \<noteq> None) got)" by (simp only: f list.set_intros)
    then have "s \<in> set got" "s \<noteq> None" by simp_all
    then have "s = Some x" using g x by (metis in_set_conv_nth nth_replicate)
    then show "rs_Reconstruct copies 1 p got = Inr (map Some es)" using f x by (simp add: copies_def)
  qed
  ultimately show ?thesis by (simp add: rs_laws_def copies_def)
qed

theorem reconstruct_message_witness:
  "\<exists>us. CreatePropellerUnits copies (\<lambda>_ :: nat. Inr (7 :: nat)) (\<lambda>_ _. Inr [1]) 0 [] 5 [1, 2, 3] 1 2 = Inr us \<and>
    ConstructMessageFromUnits copies [Some (us ! 0), None, None] 2 1 2 =
      Inr ([1, 2, 3], map Some (u_ShardData (us ! 2)), u_MerkleProof (us ! 2))"
proof -
  let ?c = "CreatePropellerUnits copies (\<lambda>_ :: nat. Inr (7 :: nat)) (\<lambda>_ _. Inr [1]) 0 [] 5 [1, 2, 3] 1 2"
  have "PadMessage [1, 2, 3] 1 = Inr [3, 1, 2, 3]" by code_simp
  moreover have "merkle_New (replicate 3 [3, 1, 2, 3]) = Some (node_hash (replicate 3 [3, 1, 2, 3]) (depth 3) 0,
      map (\<lambda>j. \<lparr> Siblings = sibling_path (replicate 3 [3, 1, 2, 3]) j 0 (depth 3) \<rparr>) [0..<3])"
    using New_tree [of "replicate 3 [3, 1, 2, 3]"] by simp
  ultimately have "\<exists>us. ?c = Inr us \<and> length us = 3"
    by (simp add: CreatePropellerUnits_def EncodeData_def SignMessage_def copies_def numeral_3_eq_3 numeral_2_eq_2)
  then obtain us where us: "?c = Inr us" "length us = 3" by blast
  have "received us [Some (us ! 0), None, None]" using us(2) by (auto simp: received_def nth_Cons')
  from reconstruct_message [OF copies_laws _ _ us(1) this] us show ?thesis by simp
qed

end
