(* ===== verification/Propeller_Scheduler.thy ===== *)
theory Propeller_Scheduler
  imports Juno_Prelude "HOL-Library.Multiset"
begin

text \<open>
  The shard schedule of Propeller (\<open>consensus/propeller/scheduler.go\<close>): which peer of a committee broadcasts which
  shard of a publisher, and the thresholds that follow from the size of the committee. Peer identifiers are only
  compared, so they are any linearly ordered type. \<open>slices.SortFunc\<close> and \<open>slices.BinarySearchFunc\<close> are those of the
  standard library. The lemmas show that the schedule is a bijection, that all members of a committee compute the
  same one, and that what one member sends by it the others accept.
\<close>

section \<open>State\<close>

record 'p peer_committee =
  ID :: 'p
  Stake :: uint64

record 'p scheduler =
  localPeerID :: 'p
  localPeerIDIndex :: nat
  peers :: "'p peer_committee list"
  numDataShards :: nat
  numCodingShards :: nat

datatype 'p sched_error =
    TooFewPeers nat
  | LocalNotInPeers
  | DuplicatedIds 'p
  | ShardOutOfRange uint32 nat
  | PublisherNotFound 'p
  | NoShardForPublisher 'p
  | SelfSending 'p
  | SelfPublished 'p
  | UnexpectedSender uint32 'p
  | SchedPanic

section \<open>Operations\<close>

function binary_search_loop :: "'p::linorder peer_committee list \<Rightarrow> 'p \<Rightarrow> nat \<Rightarrow> nat \<Rightarrow> nat" where
  "binary_search_loop x target i j =
     (if i < j then
        (let h = (i + j) div 2
         in if ID (x ! h) < target then binary_search_loop x target (h + 1) j
            else binary_search_loop x target i h)
      else i)"
  by auto
termination by (relation "measure (\<lambda>(x, target, i, j). j - i)") auto

declare binary_search_loop.simps [simp del]

definition BinarySearchFunc :: "'p::linorder peer_committee list \<Rightarrow> 'p \<Rightarrow> nat \<times> bool" where
  "BinarySearchFunc x target =
     (let i = binary_search_loop x target 0 (length x)
      in (i, i < length x \<and> ID (x ! i) = target))"

fun first_duplicate :: "'p peer_committee list \<Rightarrow> 'p option" where
  "first_duplicate (a # b # r) = (if ID a = ID b then Some (ID a) else first_duplicate (b # r))"
| "first_duplicate _ = None"

definition NewScheduler :: "'p::linorder \<Rightarrow> 'p peer_committee list \<Rightarrow> 'p sched_error + 'p scheduler" where
  "NewScheduler local nodes =
     (if length nodes < 2 then Inl (TooFewPeers (length nodes))
      else let nodes = sort_key ID nodes;
               (idIndex, exists) = BinarySearchFunc nodes local
           in if \<not> exists then Inl LocalNotInPeers
              else case first_duplicate nodes of
                     Some d \<Rightarrow> Inl (DuplicatedIds d)
                   | None \<Rightarrow>
                       (let totalNodes = length nodes;
                            numDataShards = max 1 ((totalNodes - 1) div 3);
                            numCodingShards = totalNodes - 1 - numDataShards
                        in Inr \<lparr> localPeerID = local, localPeerIDIndex = idIndex, peers = nodes,
                                 numDataShards = numDataShards, numCodingShards = numCodingShards \<rparr>))"

definition NumTotalShards :: "'p scheduler \<Rightarrow> nat" where
  "NumTotalShards s = numDataShards s + numCodingShards s"

definition BuildThreshold :: "'p scheduler \<Rightarrow> nat" where
  "BuildThreshold s = numDataShards s"

definition ReceiveThreshold :: "'p scheduler \<Rightarrow> nat" where
  "ReceiveThreshold s = (if length (peers s) \<le> 3 then BuildThreshold s else numDataShards s * 2)"

definition publisherIndex :: "'p::linorder scheduler \<Rightarrow> 'p \<Rightarrow> 'p sched_error + nat" where
  "publisherIndex s publisher =
     (let (publisherIndex, found) = BinarySearchFunc (peers s) publisher
      in if \<not> found then Inl (PublisherNotFound publisher) else Inr publisherIndex)"

definition PeerForShardIndex :: "'p::linorder scheduler \<Rightarrow> 'p \<Rightarrow> uint32 \<Rightarrow> 'p sched_error + 'p" where
  "PeerForShardIndex s publisher shardIndex =
     (if unat shardIndex \<ge> NumTotalShards s then Inl (ShardOutOfRange shardIndex (NumTotalShards s))
      else case publisherIndex s publisher of
             Inl err \<Rightarrow> Inl err
           | Inr pubIdx \<Rightarrow>
               (let peerIdx = unat shardIndex;
                    peerIdx = (if peerIdx \<ge> pubIdx then peerIdx + 1 else peerIdx)
                in case slice_get (peers s) peerIdx of None \<Rightarrow> Inl SchedPanic | Some p \<Rightarrow> Inr (ID p)))"

definition ShardIndexForPublisher :: "'p::linorder scheduler \<Rightarrow> 'p \<Rightarrow> 'p sched_error + uint32" where
  "ShardIndexForPublisher s publisher =
     (if localPeerID s = publisher then Inl (NoShardForPublisher publisher)
      else case publisherIndex s publisher of
             Inl err \<Rightarrow> Inl err
           | Inr pubIdx \<Rightarrow>
               (let shardIdx = int (localPeerIDIndex s);
                    shardIdx = (if localPeerIDIndex s \<ge> pubIdx then int (localPeerIDIndex s) - 1 else shardIdx)
                in Inr (of_int shardIdx)))"

definition ValidateShardOrigin :: "'p::linorder scheduler \<Rightarrow> 'p \<Rightarrow> 'p \<Rightarrow> uint32 \<Rightarrow> 'p sched_error + unit" where
  "ValidateShardOrigin s sender publisher shardIndex =
     (if sender = localPeerID s then Inl (SelfSending sender)
      else if publisher = localPeerID s then Inl (SelfPublished sender)
      else case PeerForShardIndex s publisher shardIndex of
             Inl err \<Rightarrow> Inl err
           | Inr expectedBroadcaster \<Rightarrow>
               if expectedBroadcaster = localPeerID s \<and> sender = publisher then Inr ()
               else if expectedBroadcaster = sender then Inr ()
               else Inl (UnexpectedSender shardIndex sender))"

text \<open>The loop of \<open>BroadcastTargets\<close>, with the index \<open>range\<close> counts.\<close>

fun targets_loop :: "nat \<Rightarrow> nat \<Rightarrow> 'p peer_committee list \<Rightarrow> 'p list" where
  "targets_loop self i [] = []"
| "targets_loop self i (p # ps) =
     (if i = self then targets_loop self (Suc i) ps else ID p # targets_loop self (Suc i) ps)"

definition BroadcastTargets :: "'p scheduler \<Rightarrow> 'p list" where
  "BroadcastTargets s = targets_loop (localPeerIDIndex s) 0 (peers s)"

section \<open>Searching a sorted slice\<close>

lemma binary_search_loop_split:
  "sorted (map ID x) \<Longrightarrow> i \<le> j \<Longrightarrow> j \<le> length x \<Longrightarrow> \<forall>k < i. ID (x ! k) < target \<Longrightarrow>
   \<forall>k \<ge> j. k < length x \<longrightarrow> target \<le> ID (x ! k) \<Longrightarrow>
   binary_search_loop x target i j \<le> length x \<and> (\<forall>k < binary_search_loop x target i j. ID (x ! k) < target) \<and>
   (\<forall>k \<ge> binary_search_loop x target i j. k < length x \<longrightarrow> target \<le> ID (x ! k))"
proof (induction x target i j rule: binary_search_loop.induct)
  case (1 x target i j)
  let ?h = "(i + j) div 2"
  have mono: "ID (x ! a) \<le> ID (x ! b)" if "a \<le> b" "b < length x" for a b
    using sorted_nth_mono [OF "1.prems"(1), of a b] that by simp
  show ?case
  proof (cases "i < j")
    case True
    then have h: "i \<le> ?h" "?h < j" "?h < length x" using "1.prems"(3) by auto
    show ?thesis
    proof (cases "ID (x ! ?h) < target")
      case lt: True
      have low: "\<forall>k < ?h + 1. ID (x ! k) < target"
        using le_less_trans [OF mono [OF _ h(3)] lt] by (simp add: less_Suc_eq_le)
      have le: "?h + 1 \<le> j" using h(2) by linarith
      have eq: "binary_search_loop x target i j = binary_search_loop x target (?h + 1) j"
        using True lt by (subst binary_search_loop.simps) (simp only: Let_def if_True)
      show ?thesis unfolding eq by (rule "1.IH"(1) [OF True refl lt "1.prems"(1) le "1.prems"(3) low "1.prems"(5)])
    next
      case ge: False
      have high: "\<forall>k \<ge> ?h. k < length x \<longrightarrow> target \<le> ID (x ! k)"
        using order.trans [OF _ mono] ge by (simp add: not_less)
      have eq: "binary_search_loop x target i j = binary_search_loop x target i ?h"
        using True ge by (subst binary_search_loop.simps) (simp only: Let_def if_True if_False)
      show ?thesis unfolding eq by (rule "1.IH"(2) [OF True refl ge "1.prems"(1) h(1) less_imp_le [OF h(3)] "1.prems"(4) high])
    qed
  next
    case False
    then have eq: "binary_search_loop x target i j = i" by (simp add: binary_search_loop.simps)
    show ?thesis unfolding eq using False "1.prems"(2-5) by (simp add: not_less)
  qed
qed

lemma binary_search_loop_bounds:
  assumes "sorted (map ID x)"
  defines "r \<equiv> \<lambda>target. binary_search_loop x target 0 (length x)"
  shows "k < r target \<Longrightarrow> ID (x ! k) < target" and "k < length x \<Longrightarrow> r target \<le> k \<Longrightarrow> target \<le> ID (x ! k)"
  using binary_search_loop_split [OF assms(1), of 0 "length x" target] by (simp_all add: r_def)

lemma search_found:
  assumes "sorted (map ID x)"
  shows "snd (BinarySearchFunc x target) \<longleftrightarrow> target \<in> ID ` set x"
proof -
  let ?r = "binary_search_loop x target 0 (length x)"
  note b = binary_search_loop_bounds [OF assms, of _ target]
  have "?r < length x \<and> ID (x ! ?r) = target" if "target \<in> ID ` set x"
  proof -
    obtain i where i: "i < length x" "ID (x ! i) = target" using \<open>target \<in> ID ` set x\<close> by (metis imageE in_set_conv_nth)
    then have "?r \<le> i" using b(1) [of i] by (meson less_irrefl not_le)
    then show ?thesis using i b(2) [of ?r] sorted_nth_mono [OF assms, of ?r i] by fastforce
  qed
  moreover have "target \<in> ID ` set x" if "?r < length x" "ID (x ! ?r) = target"
    using that by (metis image_eqI nth_mem)
  ultimately show ?thesis by (auto simp: BinarySearchFunc_def Let_def)
qed

lemma search_at:
  assumes "sorted_wrt (<) (map ID x)" and "i < length x"
  shows "BinarySearchFunc x (ID (x ! i)) = (i, True)"
proof -
  have srt: "sorted (map ID x)" and dis: "distinct (map ID x)"
    using assms(1) by (simp_all add: strict_sorted_iff)
  obtain r where r: "BinarySearchFunc x (ID (x ! i)) = (r, True)" "r < length x" "ID (x ! r) = ID (x ! i)"
    using search_found [OF srt, of "ID (x ! i)"] assms(2) by (auto simp: BinarySearchFunc_def Let_def)
  then have "r = i" using nth_eq_iff_index_eq [OF dis, of r i] assms(2) by simp
  then show ?thesis using r by simp
qed

section \<open>Well-formed schedules\<close>

definition sched_inv :: "'p::linorder scheduler \<Rightarrow> bool" where
  "sched_inv s \<longleftrightarrow>
     sorted_wrt (<) (map ID (peers s)) \<and> 2 \<le> length (peers s) \<and>
     localPeerIDIndex s < length (peers s) \<and> ID (peers s ! localPeerIDIndex s) = localPeerID s \<and>
     numDataShards s = max 1 ((length (peers s) - 1) div 3) \<and>
     numCodingShards s = length (peers s) - 1 - numDataShards s"

lemma first_duplicate_None:
  "sorted (map ID x) \<Longrightarrow> first_duplicate x = None \<longleftrightarrow> distinct (map ID x)"
proof (induction x rule: first_duplicate.induct)
  case (1 a b r)
  then show ?case by (cases "ID a = ID b") (auto simp: order.order_iff_strict)
qed simp_all

lemma first_duplicate_Some: "first_duplicate x = Some d \<Longrightarrow> 2 \<le> length (filter (\<lambda>p. ID p = d) x)"
proof (induction x rule: first_duplicate.induct)
  case (1 a b r)
  then show ?case by (cases "ID a = ID b") (auto intro: le_trans)
qed simp_all

lemma NewScheduler_cases:
  "NewScheduler i nodes =
    (if length nodes < 2 then Inl (TooFewPeers (length nodes))
     else if i \<notin> ID ` set nodes then Inl LocalNotInPeers
     else case first_duplicate (sort_key ID nodes) of Some d \<Rightarrow> Inl (DuplicatedIds d)
       | None \<Rightarrow> Inr \<lparr> localPeerID = i, localPeerIDIndex = fst (BinarySearchFunc (sort_key ID nodes) i),
           peers = sort_key ID nodes, numDataShards = max 1 ((length nodes - 1) div 3),
           numCodingShards = length nodes - 1 - max 1 ((length nodes - 1) div 3) \<rparr>)"
  using search_found [of "sort_key ID nodes" i]
  by (simp add: NewScheduler_def case_prod_beta Let_def split: option.split)

lemma NewScheduler_inv:
  assumes "NewScheduler i nodes = Inr s"
  shows "sched_inv s" and "localPeerID s = i" and "mset (peers s) = mset nodes" and "distinct (map ID nodes)"
proof -
  let ?n = "sort_key ID nodes"
  have n: "2 \<le> length nodes" "i \<in> ID ` set nodes" "first_duplicate ?n = None"
    using assms by (auto simp: NewScheduler_cases split: if_splits option.splits)
  then have dist: "distinct (map ID ?n)" by (simp add: first_duplicate_None)
  then have strict: "sorted_wrt (<) (map ID ?n)" by (simp add: strict_sorted_iff)
  obtain k where k: "k < length ?n" "ID (?n ! k) = i" using n(2) by (metis imageE in_set_conv_nth set_sort)
  have "BinarySearchFunc ?n i = (k, True)" using search_at [OF strict k(1)] k(2) by simp
  then have s: "s = \<lparr> localPeerID = i, localPeerIDIndex = k, peers = ?n, numDataShards = max 1 ((length nodes - 1) div 3),
      numCodingShards = length nodes - 1 - max 1 ((length nodes - 1) div 3) \<rparr>"
    using assms n by (simp add: NewScheduler_cases)
  show "sched_inv s" "localPeerID s = i" "mset (peers s) = mset nodes"
    using s strict n(1) k by (simp_all add: sched_inv_def)
  have "mset (map ID ?n) = mset (map ID nodes)" by simp
  then show "distinct (map ID nodes)" using dist mset_eq_imp_distinct_iff by blast
qed

text \<open>The position in the list of peers that the shard \<open>k\<close> falls on when position \<open>p\<close> publishes.\<close>

definition skip :: "nat \<Rightarrow> nat \<Rightarrow> nat" where
  "skip p k = (if p \<le> k then k + 1 else k)"

lemma skip_neq: "skip p k \<noteq> p" and skip_inj: "skip p k = skip p k' \<longleftrightarrow> k = k'"
  and skip_less: "p < n \<Longrightarrow> k < n - 1 \<Longrightarrow> skip p k < n"
  by (auto simp: skip_def)

lemma skip_back: "(if p \<le> skip p k then skip p k - 1 else skip p k) = k"
  by (simp add: skip_def)

lemma skip_onto: "q \<noteq> p \<Longrightarrow> q < n \<Longrightarrow> p < n \<Longrightarrow> skip p (if p \<le> q then q - 1 else q) = q \<and> (if p \<le> q then q - 1 else q) < n - 1"
  by (auto simp: skip_def)

lemma total_shards: "sched_inv s \<Longrightarrow> NumTotalShards s = length (peers s) - 1"
  by (auto simp: sched_inv_def NumTotalShards_def max_def)

lemma peer_distinct: "sched_inv s \<Longrightarrow> i < length (peers s) \<Longrightarrow> j < length (peers s) \<Longrightarrow>
    ID (peers s ! i) = ID (peers s ! j) \<longleftrightarrow> i = j"
  using nth_eq_iff_index_eq [of "map ID (peers s)" i j] by (simp add: sched_inv_def strict_sorted_iff)

lemma publisherIndex_at: "sched_inv s \<Longrightarrow> i < length (peers s) \<Longrightarrow> publisherIndex s (ID (peers s ! i)) = Inr i"
  by (simp add: publisherIndex_def search_at sched_inv_def)

lemma PeerForShardIndex_at:
  "sched_inv s \<Longrightarrow> i < length (peers s) \<Longrightarrow> unat k < length (peers s) - 1 \<Longrightarrow>
   PeerForShardIndex s (ID (peers s ! i)) k = Inr (ID (peers s ! skip i (unat k)))"
  using skip_less [of i "length (peers s)" "unat k"]
  by (simp add: PeerForShardIndex_def total_shards publisherIndex_at skip_def)

lemma local_at: "sched_inv s \<Longrightarrow> localPeerID s = ID (peers s ! localPeerIDIndex s)" "sched_inv s \<Longrightarrow> localPeerIDIndex s < length (peers s)"
  by (simp_all add: sched_inv_def)

lemma ShardIndexForPublisher_at:
  assumes "sched_inv s" and "i < length (peers s)" and "i \<noteq> localPeerIDIndex s"
  shows "ShardIndexForPublisher s (ID (peers s ! i)) =
    Inr (of_nat (if i \<le> localPeerIDIndex s then localPeerIDIndex s - 1 else localPeerIDIndex s))"
proof -
  have "localPeerID s \<noteq> ID (peers s ! i)" using assms peer_distinct [of s "localPeerIDIndex s" i] by (auto simp: local_at)
  moreover have "localPeerIDIndex s = Suc (localPeerIDIndex s - 1)" if "i \<le> localPeerIDIndex s" using that assms(3) by simp
  then have "(of_int (int (localPeerIDIndex s) - 1) :: uint32) = of_nat (localPeerIDIndex s - 1)" if "i \<le> localPeerIDIndex s"
    using that by (metis add_diff_cancel_left' of_int_of_nat_eq of_nat_Suc)
  ultimately show ?thesis using assms by (simp add: ShardIndexForPublisher_def publisherIndex_at Let_def)
qed

lemma targets_loop_after: "self < i \<Longrightarrow> targets_loop self i ps = map ID ps"
  by (induction ps arbitrary: i) simp_all

lemma targets_loop_skip:
  "i \<le> self \<Longrightarrow> targets_loop self i ps = map ID (take (self - i) ps @ drop (Suc (self - i)) ps)"
proof (induction ps arbitrary: i)
  case (Cons p ps)
  show ?case
  proof (cases "i = self")
    case False
    then obtain d where "self - i = Suc d" "self - Suc i = d" using Cons.prems by (metis Suc_diff_Suc le_neq_implies_less)
    then show ?thesis using Cons False by simp
  qed (simp add: targets_loop_after)
qed simp

lemma BroadcastTargets_at:
  assumes "sched_inv s"
  shows "length (BroadcastTargets s) = length (peers s) - 1"
    and "k < length (peers s) - 1 \<Longrightarrow> BroadcastTargets s ! k = ID (peers s ! skip (localPeerIDIndex s) k)"
proof -
  let ?i = "localPeerIDIndex s"
  have b: "BroadcastTargets s = map ID (take ?i (peers s) @ drop (Suc ?i) (peers s))" "?i < length (peers s)"
    using assms by (simp_all add: BroadcastTargets_def targets_loop_skip local_at)
  then show "length (BroadcastTargets s) = length (peers s) - 1" by simp
  show "BroadcastTargets s ! k = ID (peers s ! skip ?i k)" if "k < length (peers s) - 1"
    using b that by (auto simp: skip_def nth_append min_def)
qed

text \<open>All members of a committee hold the same sorted list of identifiers.\<close>

lemma same_peers:
  assumes "NewScheduler a nodes = Inr s" and "NewScheduler b nodes' = Inr s'" and "ID ` set nodes = ID ` set nodes'"
  shows "map ID (peers s) = map ID (peers s')"
proof (rule strict_sorted_equal)
  show "sorted_wrt (<) (map ID (peers s))" "sorted_wrt (<) (map ID (peers s'))"
    using NewScheduler_inv(1) [OF assms(1)] NewScheduler_inv(1) [OF assms(2)] by (simp_all add: sched_inv_def)
  have "set (peers s) = set nodes" "set (peers s') = set nodes'"
    using NewScheduler_inv(3) [OF assms(1)] NewScheduler_inv(3) [OF assms(2)] by (metis set_mset_mset)+
  then show "set (map ID (peers s)) = set (map ID (peers s'))" using assms(3) by simp
qed

lemma peer_at_eq: "map ID xs = map ID ys \<Longrightarrow> i < length xs \<Longrightarrow> ID (ys ! i) = ID (xs ! i)"
  by (metis length_map nth_map)

lemma member_at: "NewScheduler a nodes = Inr s \<Longrightarrow> b \<in> ID ` set nodes \<Longrightarrow> \<exists>i < length (peers s). ID (peers s ! i) = b"
  using NewScheduler_inv(3) [of a nodes s] by (metis imageE in_set_conv_nth set_mset_mset)

lemma skip_bij: "p < n \<Longrightarrow> bij_betw (skip p) {..<n - 1} ({..<n} - {p})"
proof (rule bij_betw_imageI)
  assume p: "p < n"
  show "inj_on (skip p) {..<n - 1}" by (simp add: inj_on_def skip_inj)
  show "skip p ` {..<n - 1} = {..<n} - {p}"
  proof (intro equalityI subsetI)
    fix q assume "q \<in> {..<n} - {p}"
    then show "q \<in> skip p ` {..<n - 1}" using skip_onto [of q p n] p by (metis Diff_iff image_eqI insertCI lessThan_iff)
  qed (use p skip_less skip_neq in auto)
qed

lemma shard_bij:
  assumes "sched_inv s" and "p < length (peers s)"
  shows "bij_betw (\<lambda>k. ID (peers s ! skip p k)) {..<length (peers s) - 1} (ID ` set (peers s) - {ID (peers s ! p)})"
proof -
  let ?g = "\<lambda>i. ID (peers s ! i)"
  have inj: "inj_on ?g {..<length (peers s)}" using peer_distinct [OF assms(1)] by (auto simp: inj_on_def)
  have "?g ` {..<length (peers s)} = ID ` set (peers s)"
    by (simp only: image_image [symmetric] nth_image [symmetric]) (metis lessThan_atLeast0 list.set_map nth_image order_refl take_all_iff)
  then have "?g ` ({..<length (peers s)} - {p}) = ID ` set (peers s) - {?g p}"
    using inj_on_image_set_diff [OF inj, of "{..<length (peers s)}" "{p}"] assms(2) by simp
  moreover have "inj_on ?g ({..<length (peers s)} - {p})" using inj by (rule inj_on_subset) blast
  ultimately have "bij_betw ?g ({..<length (peers s)} - {p}) (ID ` set (peers s) - {?g p})" by (simp add: bij_betw_def)
  from bij_betw_trans [OF skip_bij [OF assms(2)] this] show ?thesis by (simp add: comp_def)
qed

lemma own_shard:
  assumes "sched_inv s" and "p < length (peers s)" and "length (peers s) \<le> 2 ^ 32" and "p \<noteq> localPeerIDIndex s"
  shows "\<exists>k. ShardIndexForPublisher s (ID (peers s ! p)) = Inr (of_nat k) \<and> k < length (peers s) - 1 \<and>
    unat (of_nat k :: uint32) = k \<and> skip p k = localPeerIDIndex s"
proof -
  let ?q = "localPeerIDIndex s"
  let ?k = "if p \<le> ?q then ?q - 1 else ?q"
  have k: "skip p ?k = ?q" "?k < length (peers s) - 1" using skip_onto [of ?q p "length (peers s)"] assms by (simp_all add: local_at)
  have "?k < 2 ^ 32" using k(2) assms(3) by linarith
  then have "unat (of_nat ?k :: uint32) = ?k" by (rule unat_nat32)
  then show ?thesis using ShardIndexForPublisher_at [OF assms(1,2,4)] k by (intro exI [of _ ?k]) simp
qed

section \<open>Properties\<close>

text \<open>Construction of a schedule on every input. It fails exactly on fewer than two peers, on a committee without
  the local peer and on duplicated identifiers, in this order; otherwise the schedule holds the given peers, sorted and
  distinct, with the local peer at the recorded position.\<close>

theorem new_scheduler:
  "case NewScheduler i nodes of
     Inr s \<Rightarrow> sched_inv s \<and> localPeerID s = i \<and> mset (peers s) = mset nodes
   | Inl (TooFewPeers n) \<Rightarrow> n = length nodes \<and> n < 2
   | Inl LocalNotInPeers \<Rightarrow> 2 \<le> length nodes \<and> i \<notin> ID ` set nodes
   | Inl (DuplicatedIds d) \<Rightarrow> 2 \<le> length nodes \<and> i \<in> ID ` set nodes \<and> 2 \<le> length (filter (\<lambda>p. ID p = d) nodes)
   | Inl _ \<Rightarrow> False"
proof (cases "NewScheduler i nodes")
  case (Inr s)
  then show ?thesis using NewScheduler_inv [OF Inr] by simp
next
  case (Inl e)
  have "length (filter P (sort_key ID nodes)) = length (filter P nodes)" for P :: "'a peer_committee \<Rightarrow> bool"
    by (metis mset_filter mset_sort size_mset)
  then show ?thesis using Inl first_duplicate_Some [of "sort_key ID nodes"]
    by (auto simp: NewScheduler_cases split: if_splits option.splits)
qed

text \<open>C18: The schedule of a publisher is a bijection between the shard indices and the other members of the committee,
  and the index a member computes for itself is the inverse of the table.\<close>

theorem shard_schedule:
  assumes "NewScheduler i nodes = Inr s" and "publisher \<in> ID ` set nodes" and "length nodes \<le> 2 ^ 32"
  shows "\<exists>peerFor. (\<forall>k :: uint32. PeerForShardIndex s publisher k =
        (if unat k < length nodes - 1 then Inr (peerFor (unat k)) else Inl (ShardOutOfRange k (length nodes - 1)))) \<and>
      bij_betw peerFor {..<length nodes - 1} (ID ` set nodes - {publisher}) \<and>
      (i \<noteq> publisher \<longrightarrow> (\<exists>k. ShardIndexForPublisher s publisher = Inr k \<and> PeerForShardIndex s publisher k = Inr i))"
proof -
  note inv = NewScheduler_inv [OF assms(1)]
  let ?n = "length (peers s)"
  have n: "length nodes = ?n" "ID ` set nodes = ID ` set (peers s)" using inv(3) by (metis size_mset, metis set_mset_mset)
  obtain p where p: "p < ?n" "ID (peers s ! p) = publisher" using member_at [OF assms(1,2)] by blast
  let ?f = "\<lambda>k. ID (peers s ! skip p k)"
  have table: "PeerForShardIndex s publisher k = (if unat k < ?n - 1 then Inr (?f (unat k)) else Inl (ShardOutOfRange k (?n - 1)))"
    for k using PeerForShardIndex_at [OF inv(1) p(1), of k] p(2) inv(1) by (auto simp: PeerForShardIndex_def total_shards)
  have self: "\<exists>k. ShardIndexForPublisher s publisher = Inr k \<and> PeerForShardIndex s publisher k = Inr i" if "i \<noteq> publisher"
  proof -
    have "p \<noteq> localPeerIDIndex s" using that p local_at [OF inv(1)] inv(2) by auto
    from own_shard [OF inv(1) p(1) _ this] obtain k where "ShardIndexForPublisher s publisher = Inr (of_nat k)"
      "k < ?n - 1" "unat (of_nat k :: uint32) = k" "skip p k = localPeerIDIndex s"
      using p(2) assms(3) n(1) by auto
    then show ?thesis using table [of "of_nat k"] local_at [OF inv(1)] inv(2) by auto
  qed
  show ?thesis unfolding n
  proof (intro exI [of _ ?f] conjI allI impI)
    show "bij_betw ?f {..<?n - 1} (ID ` set (peers s) - {publisher})" using shard_bij [OF inv(1) p(1)] by (simp only: p(2))
  qed (use table self in auto)
qed

theorem shard_schedule_witness:
  "\<exists>s peerFor. NewScheduler (2 :: nat) [\<lparr> ID = 3, Stake = 1 \<rparr>, \<lparr> ID = 1, Stake = 1 \<rparr>, \<lparr> ID = 2, Stake = 1 \<rparr>] = Inr s \<and>
    PeerForShardIndex s 1 0 = Inr (peerFor 0) \<and> PeerForShardIndex s 1 1 = Inr (peerFor 1) \<and>
    bij_betw peerFor {..<(2 :: nat)} {2, 3} \<and> (\<exists>k. ShardIndexForPublisher s 1 = Inr k)"
proof -
  let ?n = "[\<lparr> ID = 3, Stake = 1 \<rparr>, \<lparr> ID = 1, Stake = 1 \<rparr>, \<lparr> ID = 2, Stake = 1 \<rparr>] :: nat peer_committee list"
  have "\<exists>s. NewScheduler 2 ?n = Inr s"
    by (simp add: NewScheduler_def BinarySearchFunc_def binary_search_loop.simps)
  then obtain s where s: "NewScheduler 2 ?n = Inr s" by blast
  have "1 \<in> ID ` set ?n" and set: "ID ` set ?n - {1} = {2, 3}" and len: "length ?n - 1 = 2" "length ?n \<le> 2 ^ 32" by auto
  then obtain f where "\<forall>k. PeerForShardIndex s 1 k = (if unat k < 2 then Inr (f (unat k)) else Inl (ShardOutOfRange k 2))"
    "bij_betw f {..<2} {2, 3}" "\<exists>k. ShardIndexForPublisher s 1 = Inr k"
    using shard_schedule [OF s, of 1] unfolding set len by (metis numeral_eq_one_iff verit_eq_simplify(10))
  then show ?thesis using s by (intro exI [of _ s] exI [of _ f]) simp
qed

text \<open>C35: The thresholds of a committee of \<open>N\<close> peers. With \<open>f = (N - 1) div 3\<close> faulty members there is always a shard to
  build from, the shards of a received message suffice to rebuild it even when \<open>f\<close> of their holders withhold them, and the
  honest members alone can bring a message to the receive threshold.\<close>

theorem thresholds:
  assumes "NewScheduler i nodes = Inr s"
  defines "f \<equiv> (length nodes - 1) div 3"
  shows "0 < BuildThreshold s \<and> BuildThreshold s + f \<le> ReceiveThreshold s \<and> ReceiveThreshold s + f \<le> NumTotalShards s \<and>
    NumTotalShards s = length nodes - 1"
proof -
  note inv = NewScheduler_inv [OF assms(1)]
  have n: "length nodes = length (peers s)" using inv(3) by (metis size_mset)
  have d: "numDataShards s = max 1 f" "2 \<le> length (peers s)" using inv(1) n by (simp_all add: sched_inv_def f_def)
  have f: "3 * f \<le> length (peers s) - 1" "length (peers s) - 1 < 3 * f + 3" by (simp_all add: f_def n)
  show ?thesis unfolding total_shards [OF inv(1)] n BuildThreshold_def ReceiveThreshold_def d(1) using d(2) f
    by (cases f) (auto simp: max_def)
qed

theorem thresholds_witness:
  "\<exists>s. NewScheduler (2 :: nat) [\<lparr> ID = 3, Stake = 1 \<rparr>, \<lparr> ID = 1, Stake = 1 \<rparr>, \<lparr> ID = 2, Stake = 1 \<rparr>, \<lparr> ID = 0, Stake = 1 \<rparr>] = Inr s \<and>
    BuildThreshold s + 1 \<le> ReceiveThreshold s \<and> ReceiveThreshold s + 1 \<le> 3"
proof -
  let ?n = "[\<lparr> ID = 3, Stake = 1 \<rparr>, \<lparr> ID = 1, Stake = 1 \<rparr>, \<lparr> ID = 2, Stake = 1 \<rparr>, \<lparr> ID = 0, Stake = 1 \<rparr>] :: nat peer_committee list"
  have "\<exists>s. NewScheduler 2 ?n = Inr s"
    by (simp add: NewScheduler_def BinarySearchFunc_def binary_search_loop.simps)
  then obtain s where s: "NewScheduler 2 ?n = Inr s" by blast
  then show ?thesis using thresholds [OF s] by auto
qed

text \<open>C16: Delivery by the schedule. When a publisher sends the shard \<open>k\<close> to the peer that its target list names, that
  peer accepts it from the publisher and finds \<open>k\<close> to be the shard it has to forward; every third member of the committee
  accepts the forwarded shard. Each of the members built its schedule from its own list of the committee.\<close>

theorem shard_delivery:
  assumes "NewScheduler p nodes = Inr sp" and "NewScheduler q nodes' = Inr sq" and "NewScheduler r nodes'' = Inr sr"
    and "ID ` set nodes' = ID ` set nodes" and "ID ` set nodes'' = ID ` set nodes" and "length nodes \<le> 2 ^ 32"
    and "k < NumTotalShards sp" and "BroadcastTargets sp ! k = q" and "r \<noteq> p" and "r \<noteq> q"
  shows "ValidateShardOrigin sq p p (of_nat k) = Inr () \<and> ShardIndexForPublisher sq p = Inr (of_nat k) \<and>
    ValidateShardOrigin sr q p (of_nat k) = Inr ()"
proof -
  note ip = NewScheduler_inv [OF assms(1)] and iq = NewScheduler_inv [OF assms(2)] and ir = NewScheduler_inv [OF assms(3)]
  have eqs: "map ID (peers sq) = map ID (peers sp)" "map ID (peers sr) = map ID (peers sp)"
    by (rule same_peers [OF assms(2,1,4)], rule same_peers [OF assms(3,1,5)])
  then have len: "length (peers sq) = length (peers sp)" "length (peers sr) = length (peers sp)" by (metis length_map)+
  let ?i = "localPeerIDIndex sp"
  have i: "?i < length (peers sp)" "ID (peers sp ! ?i) = p" using ip by (simp_all add: local_at)
  have k: "k < length (peers sp) - 1" using assms(7) ip(1) by (simp add: total_shards)
  have "length (peers sp) = length nodes" using ip(3) by (metis size_mset)
  then have k32: "unat (of_nat k :: uint32) = k" using k assms(6) by (intro unat_nat32) linarith
  have sk: "skip ?i k < length (peers sp)" by (rule skip_less [OF i(1) k])
  have q: "ID (peers sp ! skip ?i k) = q" using BroadcastTargets_at(2) [OF ip(1) k] assms(8) by simp
  have peer: "PeerForShardIndex t p (of_nat k) = Inr q" if "sched_inv t" "map ID (peers t) = map ID (peers sp)" for t
    using PeerForShardIndex_at [OF that(1), of ?i "of_nat k"] that(2) i k k32 q sk peer_at_eq [OF that(2) [symmetric]]
    by (metis length_map)
  have "p \<noteq> q" using peer_distinct [OF ip(1) sk i(1)] skip_neq [of ?i k] unfolding q i(2) by blast
  have idx: "localPeerIDIndex sq = skip ?i k"
  proof (rule iffD1 [OF peer_distinct [OF iq(1) local_at(2) [OF iq(1)]]])
    show "skip ?i k < length (peers sq)" using sk by (simp only: len(1))
    show "ID (peers sq ! localPeerIDIndex sq) = ID (peers sq ! skip ?i k)"
      by (simp only: local_at(1) [OF iq(1), symmetric] iq(2) peer_at_eq [OF eqs(1) [symmetric] sk] q)
  qed
  have "ShardIndexForPublisher sq (ID (peers sq ! ?i)) = Inr (of_nat k)"
    using ShardIndexForPublisher_at [OF iq(1), of ?i] i(1) skip_neq [of ?i k, symmetric] unfolding idx len(1) skip_back by blast
  then have "ShardIndexForPublisher sq p = Inr (of_nat k)" using peer_at_eq [OF eqs(1) [symmetric] i(1)] i(2) by simp
  then show ?thesis using peer [OF iq(1) eqs(1)] peer [OF ir(1) eqs(2)] iq(2) ir(2) \<open>p \<noteq> q\<close> assms(9,10)
    by (simp add: ValidateShardOrigin_def)
qed

theorem shard_delivery_witness:
  "\<exists>sp sq sr. NewScheduler (1 :: nat) [\<lparr> ID = 3, Stake = 1 \<rparr>, \<lparr> ID = 1, Stake = 1 \<rparr>, \<lparr> ID = 2, Stake = 1 \<rparr>] = Inr sp \<and>
    NewScheduler (3 :: nat) [\<lparr> ID = 2, Stake = 1 \<rparr>, \<lparr> ID = 3, Stake = 1 \<rparr>, \<lparr> ID = 1, Stake = 1 \<rparr>] = Inr sq \<and>
    NewScheduler (2 :: nat) [\<lparr> ID = 1, Stake = 1 \<rparr>, \<lparr> ID = 2, Stake = 1 \<rparr>, \<lparr> ID = 3, Stake = 1 \<rparr>] = Inr sr \<and>
    ValidateShardOrigin sq 1 1 1 = Inr () \<and> ShardIndexForPublisher sq 1 = Inr 1 \<and> ValidateShardOrigin sr 3 1 1 = Inr ()"
proof -
  let ?n1 = "[\<lparr> ID = 3, Stake = 1 \<rparr>, \<lparr> ID = 1, Stake = 1 \<rparr>, \<lparr> ID = 2, Stake = 1 \<rparr>] :: nat peer_committee list"
  let ?n2 = "[\<lparr> ID = 2, Stake = 1 \<rparr>, \<lparr> ID = 3, Stake = 1 \<rparr>, \<lparr> ID = 1, Stake = 1 \<rparr>] :: nat peer_committee list"
  let ?n3 = "[\<lparr> ID = 1, Stake = 1 \<rparr>, \<lparr> ID = 2, Stake = 1 \<rparr>, \<lparr> ID = 3, Stake = 1 \<rparr>] :: nat peer_committee list"
  have "\<exists>s. NewScheduler 1 ?n1 = Inr s \<and> NumTotalShards s = 2 \<and> BroadcastTargets s = [2, 3]"
    "\<exists>s. NewScheduler 3 ?n2 = Inr s" "\<exists>s. NewScheduler 2 ?n3 = Inr s"
    by (simp_all add: NewScheduler_def BinarySearchFunc_def binary_search_loop.simps NumTotalShards_def BroadcastTargets_def)
  then obtain sp sq sr where s: "NewScheduler 1 ?n1 = Inr sp" "NewScheduler 3 ?n2 = Inr sq" "NewScheduler 2 ?n3 = Inr sr"
    "NumTotalShards sp = 2" "BroadcastTargets sp = [2, 3]" by blast
  have "ID ` set ?n2 = ID ` set ?n1" "ID ` set ?n3 = ID ` set ?n1" by auto
  from shard_delivery [OF s(1-3) this, of 1] s show ?thesis by auto
qed

end
