(* ===== verification/Propeller_Validator.thy ===== *)
theory Propeller_Validator
  imports Propeller_Sharding Propeller_Scheduler
begin

text \<open>
  Incoming units of Propeller: the conversion from and to the wire message (\<open>consensus/propeller/unit.go\<close>) and the
  validation of a unit (\<open>unit_validator.go\<close>). The protobuf encoding of shards is the parameter \<open>marshal\<close>, signature
  verification the parameter \<open>verify\<close>. The lemmas show that the conversion round-trips, where it panics, what the
  validator has established of the units it accepts, and why units as the publisher creates them are not among these.
\<close>

section \<open>The wire message\<close>

text \<open>The generated message; an absent submessage is \<open>None\<close>, and its getters then return nil.\<close>

record proto_unit =
  pb_Shards :: "uint8 list list option"
  pb_Index :: uint64
  pb_MerkleRoot :: "uint8 list option"
  pb_MerkleProof :: "uint8 list list option"
  pb_Publisher :: "uint8 list option"
  pb_Signature :: "uint8 list"
  pb_CommitteeId :: "uint8 list option"
  pb_Nonce :: uint64

datatype proto_error = UnequalShards | ProtoPanic

abbreviation get :: "'a list option \<Rightarrow> 'a list" where
  "get m \<equiv> (case m of None \<Rightarrow> [] | Some x \<Rightarrow> x)"

text \<open>\<open>copy\<close> into a zeroed array of 32 bytes.\<close>

definition committeeIDFromBytes :: "uint8 list \<Rightarrow> uint8 list" where
  "committeeIDFromBytes b = copy_at 0 (replicate 32 0) b"

definition UnitFromProto :: "proto_unit \<Rightarrow> proto_error + uint8 list prop_unit" where
  "UnitFromProto protoUnit =
     (let shards = get (pb_Shards protoUnit)
      in case slice_get shards 0 of
           None \<Rightarrow> Inl ProtoPanic
         | Some shard0 \<Rightarrow>
             if \<exists>i \<in> set [0..<length (drop 1 shards)]. length (shards ! i) \<noteq> length shard0 then Inl UnequalShards
             else if length (get (pb_MerkleRoot protoUnit)) < 32 then Inl ProtoPanic
             else Inr
               \<lparr> u_CommitteeID = committeeIDFromBytes (get (pb_CommitteeId protoUnit)),
                 u_Publisher = get (pb_Publisher protoUnit),
                 u_MessageRoot = take 32 (get (pb_MerkleRoot protoUnit)),
                 u_MerkleProof = \<lparr> Siblings = map (copy_at 0 (replicate 32 0)) (get (pb_MerkleProof protoUnit)) \<rparr>,
                 u_Signature = pb_Signature protoUnit,
                 u_ShardIndex = ucast (pb_Index protoUnit),
                 u_ShardData = shards,
                 u_Nonce = pb_Nonce protoUnit \<rparr>)"

definition ToProto :: "uint8 list prop_unit \<Rightarrow> proto_unit" where
  "ToProto u =
     \<lparr> pb_Shards = Some (u_ShardData u), pb_Index = ucast (u_ShardIndex u), pb_MerkleRoot = Some (u_MessageRoot u),
       pb_MerkleProof = Some (Siblings (u_MerkleProof u)), pb_Publisher = Some (u_Publisher u),
       pb_Signature = u_Signature u, pb_CommitteeId = Some (u_CommitteeID u), pb_Nonce = u_Nonce u \<rparr>"

section \<open>Validation\<close>

record ('pk, 'p) unit_validator =
  v_publisherPubKey :: 'pk
  v_scheduler :: "'p scheduler"
  v_receivedShards :: "uint32 set"
  v_verifiedSignature :: "uint8 list option"

datatype 'p unit_error =
    UnexpectedShards nat
  | DataVerification
  | SignatureMismatch "uint8 list" "uint8 list"
  | SignatureVerification sig_error
  | DuplicatedShard uint32
  | ShardOrigin "'p sched_error"

definition NewValidator :: "('p \<Rightarrow> string + 'pk) \<Rightarrow> 'p \<Rightarrow> 'p scheduler \<Rightarrow> string + ('pk, 'p) unit_validator" where
  "NewValidator extractKey publisher scheduler =
     bindE (extractKey publisher) (\<lambda>pubKey.
     Inr \<lparr> v_publisherPubKey = pubKey, v_scheduler = scheduler, v_receivedShards = {}, v_verifiedSignature = None \<rparr>)"

definition verifyDataShards :: "(uint8 list list \<Rightarrow> uint8 list) \<Rightarrow> 'p prop_unit \<Rightarrow> 'p unit_error + unit" where
  "verifyDataShards marshal u =
     (if length (u_ShardData u) \<noteq> 1 then Inl (UnexpectedShards (length (u_ShardData u)))
      else if Proof_Verify (u_MerkleProof u) (u_MessageRoot u) (marshal (u_ShardData u)) (u_ShardIndex u) then Inr ()
      else Inl DataVerification)"

definition verifySignature ::
  "('pk \<Rightarrow> uint8 list \<Rightarrow> uint8 list \<Rightarrow> string + bool) \<Rightarrow> ('pk, 'p) unit_validator \<Rightarrow> 'p prop_unit \<Rightarrow>
   'p unit_error + ('pk, 'p) unit_validator" where
  "verifySignature verify v u =
     (case v_verifiedSignature v of
        Some sg \<Rightarrow> if sg = u_Signature u then Inr v else Inl (SignatureMismatch sg (u_Signature u))
      | None \<Rightarrow>
          bindE (mapErr SignatureVerification
            (VerifyMessageSignature verify (v_publisherPubKey v) (u_MessageRoot u) (u_CommitteeID u) (u_Nonce u) (u_Signature u)))
            (\<lambda>_. Inr (v\<lparr> v_verifiedSignature := Some (u_Signature u) \<rparr>)))"

text \<open>An error leaves the validator as it was.\<close>

definition Validate ::
  "(uint8 list list \<Rightarrow> uint8 list) \<Rightarrow> ('pk \<Rightarrow> uint8 list \<Rightarrow> uint8 list \<Rightarrow> string + bool) \<Rightarrow>
   ('pk, 'p::linorder) unit_validator \<Rightarrow> 'p prop_unit \<Rightarrow> 'p \<Rightarrow> 'p unit_error + ('pk, 'p) unit_validator" where
  "Validate marshal verify v u sender =
     (if u_ShardIndex u \<in> v_receivedShards v then Inl (DuplicatedShard (u_ShardIndex u))
      else
        bindE (mapErr ShardOrigin (ValidateShardOrigin (v_scheduler v) sender (u_Publisher u) (u_ShardIndex u))) (\<lambda>_.
        bindE (verifyDataShards marshal u) (\<lambda>_.
        bindE (verifySignature verify v u) (\<lambda>v.
        Inr (v\<lparr> v_receivedShards := insert (u_ShardIndex u) (v_receivedShards v) \<rparr>)))))"

section \<open>Traces of a validator\<close>

text \<open>The validator after a sequence of units, with the units it accepted in order.\<close>

fun validate_all ::
  "(uint8 list list \<Rightarrow> uint8 list) \<Rightarrow> ('pk \<Rightarrow> uint8 list \<Rightarrow> uint8 list \<Rightarrow> string + bool) \<Rightarrow>
   ('pk, 'p::linorder) unit_validator \<Rightarrow> ('p prop_unit \<times> 'p) list \<Rightarrow> ('pk, 'p) unit_validator \<times> 'p prop_unit list" where
  "validate_all marshal verify v [] = (v, [])"
| "validate_all marshal verify v ((u, sender) # us) =
     (case Validate marshal verify v u sender of
        Inl _ \<Rightarrow> validate_all marshal verify v us
      | Inr v' \<Rightarrow> (let (w, acc) = validate_all marshal verify v' us in (w, u # acc)))"

lemma mapErr_Inr [simp]: "mapErr g r = Inr x \<longleftrightarrow> r = Inr x" "Inr x = mapErr g r \<longleftrightarrow> r = Inr x"
  by (cases r; auto)+

lemma ValidateShardOrigin_peer:
  "ValidateShardOrigin s sender publisher k = Inr x \<Longrightarrow> \<exists>q. PeerForShardIndex s publisher k = Inr q \<and> (q = sender \<or> q = localPeerID s \<and> sender = publisher)"
  by (auto simp: ValidateShardOrigin_def split: if_splits sum.splits)

lemma PeerForShardIndex_range: "PeerForShardIndex s publisher k = Inr q \<Longrightarrow> unat k < NumTotalShards s"
  by (auto simp: PeerForShardIndex_def split: if_splits)

lemma Validate_Inr:
  assumes "Validate marshal verify v u sender = Inr v'"
  shows "u_ShardIndex u \<notin> v_receivedShards v" and "v_receivedShards v' = insert (u_ShardIndex u) (v_receivedShards v)"
    and "unat (u_ShardIndex u) < NumTotalShards (v_scheduler v)" and "v_scheduler v' = v_scheduler v"
    and "v_publisherPubKey v' = v_publisherPubKey v" and "v_verifiedSignature v' = Some (u_Signature u)"
    and "ValidateShardOrigin (v_scheduler v) sender (u_Publisher u) (u_ShardIndex u) = Inr ()"
    and "length (u_ShardData u) = 1"
    and "Proof_Verify (u_MerkleProof u) (u_MessageRoot u) (marshal (u_ShardData u)) (u_ShardIndex u)"
    and "v_verifiedSignature v = Some (u_Signature u) \<or> v_verifiedSignature v = None \<and>
      verify (v_publisherPubKey v) (buildSignPayload (u_MessageRoot u) (u_CommitteeID u) (u_Nonce u)) (u_Signature u) = Inr True"
  using assms ValidateShardOrigin_peer [of "v_scheduler v" sender "u_Publisher u" "u_ShardIndex u"]
    PeerForShardIndex_range [of "v_scheduler v" "u_Publisher u" "u_ShardIndex u"]
  by (auto simp: Validate_def verifySignature_def verifyDataShards_def VerifyMessageSignature_def bindE_Inr
      split: if_splits option.splits)

text \<open>What a validator holds of a message identified by its root, committee and nonce.\<close>

definition signed :: "('pk \<Rightarrow> uint8 list \<Rightarrow> uint8 list \<Rightarrow> string + bool) \<Rightarrow> ('pk, 'p) unit_validator \<Rightarrow> uint8 list \<Rightarrow> bool" where
  "signed verify v payload \<longleftrightarrow> (\<forall>sg. v_verifiedSignature v = Some sg \<longrightarrow> verify (v_publisherPubKey v) payload sg = Inr True)"

abbreviation unit_payload :: "'p prop_unit \<Rightarrow> uint8 list" where
  "unit_payload u \<equiv> buildSignPayload (u_MessageRoot u) (u_CommitteeID u) (u_Nonce u)"

lemma validate_all_inv:
  assumes "validate_all marshal verify v us = (w, acc)" and "signed verify v payload" and "\<forall>(u, sender) \<in> set us. unit_payload u = payload"
  shows "distinct (map u_ShardIndex acc) \<and> v_receivedShards v \<inter> u_ShardIndex ` set acc = {} \<and>
    v_receivedShards w = v_receivedShards v \<union> u_ShardIndex ` set acc \<and>
    (\<forall>u \<in> set acc. unat (u_ShardIndex u) < NumTotalShards (v_scheduler v) \<and>
       Proof_Verify (u_MerkleProof u) (u_MessageRoot u) (marshal (u_ShardData u)) (u_ShardIndex u) \<and>
       verify (v_publisherPubKey v) payload (u_Signature u) = Inr True \<and> v_verifiedSignature w = Some (u_Signature u)) \<and>
    (v_verifiedSignature v \<noteq> None \<longrightarrow> v_verifiedSignature w = v_verifiedSignature v)"
  using assms
proof (induction marshal verify v us arbitrary: w acc rule: validate_all.induct)
  case (2 marshal verify v u sender us)
  show ?case
  proof (cases "Validate marshal verify v u sender")
    case (Inl e)
    then show ?thesis using "2.IH"(1) [OF Inl] "2.prems" by auto
  next
    case (Inr v')
    obtain acc' where acc: "validate_all marshal verify v' us = (w, acc')" "acc = u # acc'"
      using "2.prems"(1) Inr by (auto split: prod.splits)
    note v = Validate_Inr [OF Inr]
    have pay: "unit_payload u = payload" using "2.prems"(3) by simp
    then have sg: "verify (v_publisherPubKey v) payload (u_Signature u) = Inr True" using v(10) "2.prems"(2) by (auto simp: signed_def)
    then have "signed verify v' payload" using v(5,6) by (simp add: signed_def)
    then have ih: "distinct (map u_ShardIndex acc')" "v_receivedShards v' \<inter> u_ShardIndex ` set acc' = {}"
      "v_receivedShards w = v_receivedShards v' \<union> u_ShardIndex ` set acc'"
      "\<forall>u \<in> set acc'. unat (u_ShardIndex u) < NumTotalShards (v_scheduler v) \<and>
       Proof_Verify (u_MerkleProof u) (u_MessageRoot u) (marshal (u_ShardData u)) (u_ShardIndex u) \<and>
       verify (v_publisherPubKey v) payload (u_Signature u) = Inr True \<and> v_verifiedSignature w = Some (u_Signature u)"
      "v_verifiedSignature w = Some (u_Signature u)"
      using "2.IH"(2) [OF Inr acc(1)] "2.prems"(3) v(4-6) by auto
    show ?thesis unfolding acc(2) using ih v sg by auto
  qed
qed simp

lemma accepted_subset: "validate_all marshal verify v us = (w, acc) \<Longrightarrow> set acc \<subseteq> fst ` set us"
  by (induction marshal verify v us arbitrary: w acc rule: validate_all.induct) (fastforce split: sum.splits prod.splits)+

lemma index_bound:
  assumes "distinct (map f acc)" and "\<forall>u \<in> set acc. unat (f u :: uint32) < n"
  shows "length acc \<le> n"
proof -
  have "inj_on unat (set (map f acc))" by (simp add: inj_on_def word_unat_eq_iff)
  then have "distinct (map unat (map f acc))" using assms(1) by (simp only: distinct_map simp_thms)
  then have "length acc = card (set (map unat (map f acc)))" by (metis distinct_card length_map)
  also have "\<dots> \<le> card {..<n}" by (rule card_mono) (use assms(2) in auto)
  finally show ?thesis by simp
qed

lemma bex_butlast: "(\<exists>i \<in> set [0..<length (drop 1 xs)]. P (xs ! i)) \<longleftrightarrow> (\<exists>s \<in> set (butlast xs). P s)"
proof (cases xs rule: rev_cases)
  case (snoc ys y)
  have "(\<exists>s \<in> set ys. P s) \<longleftrightarrow> (\<exists>i < length ys. P (ys ! i))" by (metis in_set_conv_nth)
  moreover have "(\<exists>i \<in> set [0..<length ys]. P ((ys @ [y]) ! i)) \<longleftrightarrow> (\<exists>i < length ys. P (ys ! i))" by (auto simp: nth_append)
  moreover have "length (drop 1 xs) = length ys" "butlast xs = ys" using snoc by simp_all
  ultimately show ?thesis using snoc by metis
qed simp

lemma copy32_pad: "copy_at 0 (replicate 32 0) b = take 32 (b @ replicate 32 0)"
  by (simp add: copy_at_def)

lemma copy32: "length b = 32 \<Longrightarrow> copy_at 0 (replicate 32 0) b = b" and length_copy32: "length (copy_at 0 (replicate 32 0) b) = 32"
  by (simp_all add: copy_at_def)

section \<open>Properties\<close>

text \<open>C15: What a validator establishes. Over any sequence of units of one message, the accepted units have distinct shard
  indices, all below the number of shards of the committee, so there are at most that many; each passed its Merkle proof, all
  carry the same signature, and this signature verifies under the key of the publisher for the root, the committee and the
  nonce of the message.\<close>

theorem validator_trace:
  assumes "NewValidator extractKey publisher s = Inr v" and "validate_all marshal verify v us = (w, acc)"
    and "\<forall>(u, sender) \<in> set us. u_MessageRoot u = root \<and> u_CommitteeID u = c \<and> u_Nonce u = nonce"
  shows "distinct (map u_ShardIndex acc) \<and> length acc \<le> NumTotalShards s \<and> v_receivedShards w = u_ShardIndex ` set acc \<and>
    (\<forall>u \<in> set acc. unat (u_ShardIndex u) < NumTotalShards s \<and>
       Proof_Verify (u_MerkleProof u) root (marshal (u_ShardData u)) (u_ShardIndex u) \<and>
       (\<exists>pk. extractKey publisher = Inr pk \<and> verify pk (buildSignPayload root c nonce) (u_Signature u) = Inr True) \<and>
       v_verifiedSignature w = Some (u_Signature u))"
proof -
  obtain pk where pk: "extractKey publisher = Inr pk"
    and v: "v = \<lparr> v_publisherPubKey = pk, v_scheduler = s, v_receivedShards = {}, v_verifiedSignature = None \<rparr>"
    using assms(1) by (auto simp: NewValidator_def bindE_Inr)
  have "signed verify v (buildSignPayload root c nonce)" by (simp add: signed_def v)
  moreover have "\<forall>(u, sender) \<in> set us. unit_payload u = buildSignPayload root c nonce" using assms(3) by auto
  ultimately have inv: "distinct (map u_ShardIndex acc)" "v_receivedShards w = u_ShardIndex ` set acc"
    "\<forall>u \<in> set acc. unat (u_ShardIndex u) < NumTotalShards s \<and>
       Proof_Verify (u_MerkleProof u) (u_MessageRoot u) (marshal (u_ShardData u)) (u_ShardIndex u) \<and>
       verify pk (buildSignPayload root c nonce) (u_Signature u) = Inr True \<and> v_verifiedSignature w = Some (u_Signature u)"
    using validate_all_inv [OF assms(2)] v by auto
  have "set acc \<subseteq> fst ` set us" using assms(2) by (rule accepted_subset)
  then have "\<forall>u \<in> set acc. u_MessageRoot u = root" using assms(3) by fastforce
  then show ?thesis using inv pk index_bound [OF inv(1)] by auto
qed

theorem validator_trace_witness:
  "\<exists>s v w. NewScheduler (1 :: nat) [\<lparr> ID = 1, Stake = 1 \<rparr>, \<lparr> ID = 2, Stake = 1 \<rparr>] = Inr s \<and>
    NewValidator (\<lambda>_. Inr ()) 2 s = Inr v \<and>
    validate_all hd (\<lambda>_ _ _. Inr True) v
      [(\<lparr> u_CommitteeID = [], u_Publisher = 2, u_MessageRoot = merkleLeafHash [5], u_MerkleProof = \<lparr> Siblings = [] \<rparr>,
          u_Signature = [9], u_ShardIndex = 0, u_ShardData = [[5]], u_Nonce = 3 \<rparr>, 2)] =
      (w, [\<lparr> u_CommitteeID = [], u_Publisher = 2, u_MessageRoot = merkleLeafHash [5], u_MerkleProof = \<lparr> Siblings = [] \<rparr>,
          u_Signature = [9], u_ShardIndex = 0, u_ShardData = [[5]], u_Nonce = 3 \<rparr>]) \<and>
    v_receivedShards w = {0} \<and> 1 \<le> NumTotalShards s \<and> v_verifiedSignature w = Some [9]"
proof -
  let ?n = "[\<lparr> ID = 1, Stake = 1 \<rparr>, \<lparr> ID = 2, Stake = 1 \<rparr>] :: nat peer_committee list"
  let ?u = "\<lparr> u_CommitteeID = [], u_Publisher = 2, u_MessageRoot = merkleLeafHash [5], u_MerkleProof = \<lparr> Siblings = [] \<rparr>,
    u_Signature = [9], u_ShardIndex = 0, u_ShardData = [[5]], u_Nonce = 3 \<rparr> :: nat prop_unit"
  have "\<exists>s. NewScheduler 1 ?n = Inr s \<and> ValidateShardOrigin s 2 2 0 = Inr ()"
    by (simp add: NewScheduler_def BinarySearchFunc_def binary_search_loop.simps ValidateShardOrigin_def PeerForShardIndex_def
      publisherIndex_def NumTotalShards_def)
  then obtain s where s: "NewScheduler 1 ?n = Inr s" "ValidateShardOrigin s 2 2 0 = Inr ()" by blast
  obtain v where v: "NewValidator (\<lambda>_. Inr ()) 2 s = Inr v"
    "v = \<lparr> v_publisherPubKey = (), v_scheduler = s, v_receivedShards = {}, v_verifiedSignature = None \<rparr>"
    by (simp add: NewValidator_def)
  have "\<exists>w. validate_all hd (\<lambda>_ _ _. Inr True) v [(?u, 2)] = (w, [?u])"
    using s(2) v(2) by (simp add: Validate_def verifyDataShards_def verifySignature_def VerifyMessageSignature_def Proof_Verify_def)
  then obtain w where w: "validate_all hd (\<lambda>_ _ _. Inr True) v [(?u, 2)] = (w, [?u])" by blast
  from validator_trace [OF v(1) w, of "merkleLeafHash [5]" "[]" 3] s(1) v(1) w show ?thesis by auto
qed

text \<open>C36: Units as the publisher creates them fail validation. The tree is built over the raw shards, the validator checks the
  proof for their protobuf encoding; as the encoding differs from the shard, acceptance would exhibit a collision of SHA-256.\<close>

theorem created_unit_rejected:
  assumes "CreatePropellerUnits rs idOf sign sk c nonce m d p = Inr us" and "i < length us" and "length us \<le> 2 ^ 32"
    and "\<forall>s. marshal [s] \<noteq> s"
  shows "verifyDataShards marshal (us ! i) = Inl DataVerification \<or>
    collision (verify_inputs (u_MerkleProof (us ! i)) (marshal (u_ShardData (us ! i))) (of_nat i)) (tree_inputs (map (hd \<circ> u_ShardData) us))"
  using assms(1)
proof (rule CreatePropellerUnits_cases)
  fix publisher padded es root tree sg
  assume new: "merkle_New es = Some (root, tree)" and us: "us = map (\<lambda>i. \<lparr> u_CommitteeID = c, u_Publisher = publisher,
      u_MessageRoot = root, u_MerkleProof = tree ! i, u_Signature = sg, u_ShardIndex = of_nat i, u_ShardData = [es ! i], u_Nonce = 0 \<rparr>) [0..<length es]"
  have i: "i < length es" "es \<noteq> []" using assms(2) us by auto
  have es: "map (hd \<circ> u_ShardData) us = es" by (rule nth_equalityI) (simp_all add: us)
  have tree: "tree = map (\<lambda>j. \<lparr> Siblings = sibling_path es j 0 (depth (length es)) \<rparr>) [0..<length es]"
    and root: "root = node_hash es (depth (length es)) 0"
    using New_tree [OF i(2)] new by simp_all
  let ?d = "depth (length es)"
  have "\<forall>s \<in> set (sibling_path es i 0 ?d). length s = 32" by (auto simp: sibling_path_def)
  then have sound: "marshal [es ! i] = padded_leaf es (0 * 2 ^ ?d + unat (of_nat i :: uint32) mod 2 ^ ?d)"
    if "Proof_Verify (tree ! i) root (marshal [es ! i]) (of_nat i)" and
      "\<not> collision (verify_inputs (tree ! i) (marshal [es ! i]) (of_nat i)) (tree_inputs es)"
    using verify_down [of "marshal [es ! i]" "of_nat i" "sibling_path es i 0 ?d" es ?d 0] that i(1)
    by (simp add: tree root Proof_Verify_def verify_inputs_def)
  have "unat (of_nat i :: uint32) = i" using assms(2,3) by (intro unat_nat32) simp
  moreover have "i < 2 ^ ?d" using i(1) depth_ge [of "length es"] by linarith
  ultimately have "padded_leaf es (0 * 2 ^ ?d + unat (of_nat i :: uint32) mod 2 ^ ?d) = es ! i" using i(1) by (simp add: padded_leaf_def)
  then have "\<not> Proof_Verify (tree ! i) root (marshal [es ! i]) (of_nat i) \<or>
      collision (verify_inputs (tree ! i) (marshal [es ! i]) (of_nat i)) (tree_inputs es)"
    using sound assms(4) by metis
  then show ?thesis unfolding es using i(1) by (auto simp: us verifyDataShards_def)
qed

theorem created_unit_rejected_witness:
  "\<exists>us. CreatePropellerUnits copies (\<lambda>_ :: nat. Inr (7 :: nat)) (\<lambda>_ _. Inr [1]) 0 [] 5 [1, 2, 3] 1 1 = Inr us \<and>
    (verifyDataShards (\<lambda>ss. 10 # concat ss) (us ! 1) = Inl DataVerification \<or>
     collision (verify_inputs (u_MerkleProof (us ! 1)) (10 # concat (u_ShardData (us ! 1))) 1) (tree_inputs (map (hd \<circ> u_ShardData) us)))"
proof -
  let ?c = "CreatePropellerUnits copies (\<lambda>_ :: nat. Inr (7 :: nat)) (\<lambda>_ _. Inr [1]) 0 [] 5 [1, 2, 3] 1 1"
  have "PadMessage [1, 2, 3] 1 = Inr [3, 1, 2, 3]" by code_simp
  moreover have "merkle_New (replicate 2 [3, 1, 2, 3]) = Some (node_hash (replicate 2 [3, 1, 2, 3]) (depth 2) 0,
      map (\<lambda>j. \<lparr> Siblings = sibling_path (replicate 2 [3, 1, 2, 3]) j 0 (depth 2) \<rparr>) [0..<2])"
    using New_tree [of "replicate 2 [3, 1, 2, 3]"] by simp
  ultimately have "\<exists>us. ?c = Inr us \<and> length us = 2"
    by (simp add: CreatePropellerUnits_def EncodeData_def SignMessage_def copies_def numeral_2_eq_2)
  then obtain us where us: "?c = Inr us" "length us = 2" by blast
  then show ?thesis using created_unit_rejected [OF us(1), of 1 "\<lambda>ss. 10 # concat ss"] by simp
qed

text \<open>A unit survives the wire. Converting a unit to its message and back gives the same unit, when it has shards of one
  length and its identifiers are arrays of 32 bytes.\<close>

theorem unit_proto_roundtrip:
  assumes "u_ShardData u \<noteq> []" and "\<forall>s \<in> set (u_ShardData u). length s = n" and "length (u_CommitteeID u) = 32"
    and "length (u_MessageRoot u) = 32" and "\<forall>s \<in> set (Siblings (u_MerkleProof u)). length s = 32"
  shows "UnitFromProto (ToProto u) = Inr u"
proof -
  let ?s = "u_ShardData u"
  have sib: "map (copy_at 0 (replicate 32 0)) (Siblings (u_MerkleProof u)) = Siblings (u_MerkleProof u)"
    using assms(5) by (intro map_idI) (simp add: copy32)
  have idx: "ucast (ucast (u_ShardIndex u) :: uint64) = u_ShardIndex u" by (rule bit_word_eqI) (simp add: bit_simps)
  have com: "committeeIDFromBytes (u_CommitteeID u) = u_CommitteeID u" using assms(3) by (simp add: committeeIDFromBytes_def copy32)
  have s0: "slice_get ?s 0 = Some (?s ! 0)" "take 32 (u_MessageRoot u) = u_MessageRoot u" "\<not> length (u_MessageRoot u) < 32"
    using assms(1,4) by simp_all
  have "length (?s ! i) = length (?s ! 0)" if "i < length ?s" for i
    using assms(1,2) that by (metis length_greater_0_conv nth_mem)
  then have eq: "\<not> (\<exists>i \<in> set [0..<length (drop 1 ?s)]. length (?s ! i) \<noteq> length (?s ! 0))" by auto
  have "UnitFromProto (ToProto u) = Inr \<lparr> u_CommitteeID = u_CommitteeID u, u_Publisher = u_Publisher u,
      u_MessageRoot = u_MessageRoot u, u_MerkleProof = \<lparr> Siblings = Siblings (u_MerkleProof u) \<rparr>, u_Signature = u_Signature u,
      u_ShardIndex = u_ShardIndex u, u_ShardData = ?s, u_Nonce = u_Nonce u \<rparr>"
    by (simp only: UnitFromProto_def ToProto_def Let_def proto_unit.simps option.case s0 eq sib idx com if_False)
  also have "\<dots> = Inr u" by simp
  finally show ?thesis .
qed

theorem unit_proto_roundtrip_witness:
  "let u = \<lparr> u_CommitteeID = replicate 32 1, u_Publisher = [7], u_MessageRoot = replicate 32 2,
      u_MerkleProof = \<lparr> Siblings = [replicate 32 3] \<rparr>, u_Signature = [4], u_ShardIndex = 5, u_ShardData = [[6], [7]], u_Nonce = 8 \<rparr>
   in UnitFromProto (ToProto u) = Inr u"
  unfolding Let_def by (rule unit_proto_roundtrip [where n = 1]) simp_all

text \<open>C37: Conversion of an arbitrary wire message. The conversion panics exactly without shards, or when the shards pass the check
  of their lengths and the root has fewer than 32 bytes; it refuses shards of different lengths, but the check leaves out the last
  shard. Otherwise the unit, written back as a wire message, is the one received, where the index is cut to 32 bits, the root to 32
  bytes, and the siblings and the committee are cut or padded with zeros to 32 bytes.\<close>

theorem unit_from_proto:
  "let shards = get (pb_Shards pu); pad32 = (\<lambda>b. take 32 (b @ replicate 32 0));
       unequal = (\<exists>s \<in> set (butlast shards). length s \<noteq> length (hd shards)) in
   (UnitFromProto pu = Inl ProtoPanic \<longleftrightarrow> shards = [] \<or> \<not> unequal \<and> length (get (pb_MerkleRoot pu)) < 32) \<and>
   (UnitFromProto pu = Inl UnequalShards \<longleftrightarrow> unequal) \<and>
   (case UnitFromProto pu of Inl _ \<Rightarrow> True | Inr u \<Rightarrow>
      ToProto u = pu\<lparr> pb_Shards := Some shards, pb_Index := of_nat (unat (pb_Index pu) mod 2 ^ 32),
        pb_MerkleRoot := Some (take 32 (get (pb_MerkleRoot pu))), pb_MerkleProof := Some (map pad32 (get (pb_MerkleProof pu))),
        pb_Publisher := Some (get (pb_Publisher pu)), pb_CommitteeId := Some (pad32 (get (pb_CommitteeId pu))) \<rparr>)"
proof (cases "get (pb_Shards pu) = []")
  case True
  then show ?thesis by (simp add: UnitFromProto_def slice_get_def)
next
  case False
  let ?s = "get (pb_Shards pu)"
  have last: "(\<exists>i \<in> set [0..<length (drop 1 ?s)]. length (?s ! i) \<noteq> length (?s ! 0)) \<longleftrightarrow> (\<exists>s \<in> set (butlast ?s). length s \<noteq> length (hd ?s))"
    using bex_butlast [of ?s] False by (simp add: hd_conv_nth)
  have get0: "slice_get ?s 0 = Some (?s ! 0)" using False by (simp add: slice_get_def)
  have cut: "ucast (ucast (pb_Index pu) :: uint32) = (of_nat (unat (pb_Index pu) mod 2 ^ 32) :: uint64)"
    unfolding word_unat_eq_iff by (simp add: unsigned_ucast_eq take_bit_eq_mod unat_mod unat_of_nat)
  show ?thesis unfolding Let_def UnitFromProto_def get0 option.case last
    using False by (simp add: ToProto_def committeeIDFromBytes_def copy32_pad cut)
qed

theorem unit_from_proto_witness:
  "let pu = \<lparr> pb_Shards = Some [[1], [2, 3]], pb_Index = 2 ^ 32 + 5, pb_MerkleRoot = Some (replicate 40 7), pb_MerkleProof = Some [[9]],
      pb_Publisher = None, pb_Signature = [4], pb_CommitteeId = None, pb_Nonce = 8 \<rparr>
   in \<exists>u. UnitFromProto pu = Inr u \<and> pb_Index (ToProto u) = 5 \<and> pb_Signature (ToProto u) = [4]"
proof -
  define pu where "pu = \<lparr> pb_Shards = Some [[1], [2, 3]], pb_Index = 2 ^ 32 + 5, pb_MerkleRoot = Some (replicate 40 7), pb_MerkleProof = Some [[9]],
      pb_Publisher = None, pb_Signature = [4], pb_CommitteeId = None, pb_Nonce = 8 \<rparr>"
  obtain u where u: "UnitFromProto pu = Inr u"
    using unit_from_proto [of pu] proto_error.exhaust by (cases "UnitFromProto pu") (auto simp: pu_def Let_def)
  show ?thesis using unit_from_proto [of pu] u unfolding pu_def [symmetric] by (simp add: Let_def) (simp add: pu_def)
qed

end
