(* ===== verification/Propeller_Subprocessor.thy ===== *)
theory Propeller_Subprocessor
  imports Propeller_Validator
begin

text \<open>
  The worker that collects the units of one message (\<open>subprocessor\<close> of \<open>consensus/propeller/processor.go\<close>): a first loop
  until the message can be built, in which the local shard is forwarded, and a second loop until the message counts as
  received. The worker is driven by a list of inputs, what its channel delivers and the cancellation of its context; at the
  end of the list it is blocked. A send on a nil channel blocks for ever, which is \<open>Stuck\<close>. The random order of the
  recipients is the parameter \<open>shuffle\<close>.
\<close>

section \<open>State\<close>

record 'p message_key =
  mk_CommitteeID :: "uint8 list"
  mk_Publisher :: 'p
  mk_Root :: hash32
  mk_Nonce :: uint64

definition extractKey :: "'p prop_unit \<Rightarrow> 'p message_key" where
  "extractKey u = \<lparr> mk_CommitteeID = u_CommitteeID u, mk_Publisher = u_Publisher u, mk_Root = u_MessageRoot u, mk_Nonce = u_Nonce u \<rparr>"

text \<open>The library functions a worker uses.\<close>

record ('pk, 'p) sub_env =
  en_rs :: rs_lib
  en_marshal :: "uint8 list list \<Rightarrow> uint8 list"
  en_verify :: "'pk \<Rightarrow> uint8 list \<Rightarrow> uint8 list \<Rightarrow> string + bool"
  en_shuffle :: "'p list \<Rightarrow> 'p list"
  en_zeroID :: 'p

text \<open>\<open>sp_processingEvents\<close> says whether the channel for events is set.\<close>

record ('pk, 'p) subprocessor =
  sp_scheduler :: "'p scheduler"
  sp_localPeer :: 'p
  sp_localShardIndex :: uint32
  sp_processingEvents :: bool
  sp_validator :: "('pk, 'p) unit_validator"

datatype 'p sub_input = CtxDone | Incoming "'p prop_unit" 'p

datatype 'p sub_output = is_Broadcast: BroadcastUnit "'p prop_unit" "'p list" | InvalidUnit "'p message_key" 'p "'p unit_error"

datatype 'p sub_error = CtxErr | FirstUnit "'p unit_error" | Construct shard_error | SubPanic

datatype ('e, 'a) outcome = Blocked | Stuck | Failed 'e | Done 'a

section \<open>Construction\<close>

definition newSubprocessor ::
  "('p \<Rightarrow> string + 'pk) \<Rightarrow> 'p \<Rightarrow> 'p scheduler \<Rightarrow> 'p \<Rightarrow> uint32 \<Rightarrow> string + ('pk, 'p) subprocessor" where
  "newSubprocessor pubKeyOf publisher scheduler localPeer localShardIndex =
     bindE (NewValidator pubKeyOf publisher scheduler) (\<lambda>v.
     Inr \<lparr> sp_scheduler = scheduler, sp_localPeer = localPeer, sp_localShardIndex = localShardIndex,
           sp_processingEvents = False, sp_validator = v \<rparr>)"

section \<open>Forwarding a unit\<close>

text \<open>The loop over the committee; \<open>peers\<close> has a fixed length, a write beyond it panics.\<close>

fun other_peers :: "'p \<Rightarrow> 'p \<Rightarrow> 'p list \<Rightarrow> nat \<Rightarrow> nat \<Rightarrow> 'p peer_committee list \<Rightarrow> 'p list option" where
  "other_peers publisher localPeer acc index n [] = Some acc"
| "other_peers publisher localPeer acc index n (pc # pcs) =
     (if ID pc = publisher \<or> ID pc = localPeer then other_peers publisher localPeer acc index n pcs
      else if n \<le> index then None
      else other_peers publisher localPeer (acc @ [ID pc]) (Suc index) n pcs)"

text \<open>The slice is made with the length of the committee minus two; entries that are not written stay the zero identifier.\<close>

definition sub_broadcastUnit ::
  "('pk, 'p) sub_env \<Rightarrow> ('pk, 'p) subprocessor \<Rightarrow> 'p prop_unit \<Rightarrow> ('p sub_error, 'p sub_output) outcome" where
  "sub_broadcastUnit env s u =
     (let n = int (length (peers (sp_scheduler s))) - 2
      in if n < 0 then Failed SubPanic
         else case other_peers (u_Publisher u) (sp_localPeer s) [] 0 (nat n) (peers (sp_scheduler s)) of
                None \<Rightarrow> Failed SubPanic
              | Some ps \<Rightarrow>
                  if sp_processingEvents s
                  then Done (BroadcastUnit u (en_shuffle env (ps @ replicate (nat n - length ps) (en_zeroID env))))
                  else Stuck)"

section \<open>Building the message\<close>

record ('pk, 'p) build_state =
  bs_sub :: "('pk, 'p) subprocessor"
  bs_units :: "'p prop_unit option list"
  bs_count :: nat
  bs_broadcast :: bool
  bs_out :: "'p sub_output list"

text \<open>One accepted unit of the first loop. The operations return the state they leave, with the outputs made so far, beside
  the outcome.\<close>

definition accept_unit ::
  "('pk, 'p) sub_env \<Rightarrow> ('pk, 'p) build_state \<Rightarrow> ('pk, 'p) unit_validator \<Rightarrow> 'p prop_unit \<Rightarrow>
   ('pk, 'p) build_state \<times> ('p sub_error, unit) outcome" where
  "accept_unit env b v u =
     (let i = unat (u_ShardIndex u);
          b1 = b\<lparr> bs_sub := (bs_sub b)\<lparr> sp_validator := v \<rparr>, bs_units := (bs_units b)[i := Some u], bs_count := bs_count b + 1 \<rparr>
      in if length (bs_units b) \<le> i then (b, Failed SubPanic)
         else if \<not> bs_broadcast b \<and> sp_localShardIndex (bs_sub b) = u_ShardIndex u then
           (case sub_broadcastUnit env (bs_sub b1) u of
              Done ev \<Rightarrow> (b1\<lparr> bs_broadcast := True, bs_out := bs_out b1 @ [ev] \<rparr>, Done ())
            | Failed e \<Rightarrow> (b1, Failed e) | Stuck \<Rightarrow> (b1, Stuck) | Blocked \<Rightarrow> (b1, Blocked))
         else (b1, Done ()))"

fun build_loop ::
  "('pk, 'p::linorder) sub_env \<Rightarrow> ('pk, 'p) build_state \<Rightarrow> 'p sub_input list \<Rightarrow>
   ('pk, 'p) build_state \<times> ('p sub_error, 'p sub_input list) outcome" where
  "build_loop env b ins =
     (if bs_count b = BuildThreshold (sp_scheduler (bs_sub b)) then (b, Done ins)
      else case ins of
             [] \<Rightarrow> (b, Blocked)
           | CtxDone # r \<Rightarrow> (b, Failed CtxErr)
           | Incoming u sender # r \<Rightarrow>
               (case Validate (en_marshal env) (en_verify env) (sp_validator (bs_sub b)) u sender of
                  Inl err \<Rightarrow>
                    (let b' = b\<lparr> bs_out := bs_out b @ [InvalidUnit (extractKey u) sender err] \<rparr>
                     in if bs_count b = 0 then (b', Failed (FirstUnit err)) else build_loop env b' r)
                | Inr v \<Rightarrow>
                    (case accept_unit env b v u of
                       (b', Done _) \<Rightarrow> build_loop env b' r
                     | (b', Failed e) \<Rightarrow> (b', Failed e) | (b', Stuck) \<Rightarrow> (b', Stuck) | (b', Blocked) \<Rightarrow> (b', Blocked))))"

declare build_loop.simps [simp del]

definition local_unit :: "('pk, 'p) subprocessor \<Rightarrow> 'p prop_unit \<Rightarrow> uint8 list option list \<Rightarrow> merkle_proof \<Rightarrow> 'p prop_unit" where
  "local_unit s u localShardData localProof =
     \<lparr> u_CommitteeID = u_CommitteeID u, u_Publisher = u_Publisher u, u_MessageRoot = u_MessageRoot u,
       u_MerkleProof = localProof, u_Signature = u_Signature u, u_ShardIndex = sp_localShardIndex s,
       u_ShardData = map shard_bytes localShardData, u_Nonce = u_Nonce u \<rparr>"

definition finish_build ::
  "('pk, 'p) sub_env \<Rightarrow> ('pk, 'p) build_state \<Rightarrow> ('pk, 'p) build_state \<times> ('p sub_error, uint8 list) outcome" where
  "finish_build env b =
     (let s = bs_sub b; sch = sp_scheduler s
      in case ConstructMessageFromUnits (en_rs env) (bs_units b) (sp_localShardIndex s) (numDataShards sch) (numCodingShards sch) of
           Inl err \<Rightarrow> (b, Failed (Construct err))
         | Inr (fullMessage, localShardData, localProof) \<Rightarrow>
             if bs_broadcast b then (b, Done fullMessage)
             else case slice_get (bs_units b) 0 of
                    None \<Rightarrow> (b, Failed SubPanic)
                  | Some None \<Rightarrow> (b, Failed SubPanic)
                  | Some (Some u) \<Rightarrow>
                      (case sub_broadcastUnit env s (local_unit s u localShardData localProof) of
                         Done ev \<Rightarrow> (b\<lparr> bs_out := bs_out b @ [ev], bs_count := bs_count b + 1 \<rparr>, Done fullMessage)
                       | Failed e \<Rightarrow> (b, Failed e) | Stuck \<Rightarrow> (b, Stuck) | Blocked \<Rightarrow> (b, Blocked)))"

definition beforeMessageBuiltStage ::
  "('pk, 'p::linorder) sub_env \<Rightarrow> ('pk, 'p) subprocessor \<Rightarrow> 'p sub_input list \<Rightarrow>
   ('pk, 'p) build_state \<times> ('p sub_error, uint8 list \<times> 'p sub_input list) outcome" where
  "beforeMessageBuiltStage env s ins =
     (case build_loop env \<lparr> bs_sub = s, bs_units = replicate (NumTotalShards (sp_scheduler s)) None, bs_count = 0,
                            bs_broadcast = False, bs_out = [] \<rparr> ins of
        (b, Done r) \<Rightarrow>
          (case finish_build env b of
             (b', Done m) \<Rightarrow> (b', Done (m, r))
           | (b', Failed e) \<Rightarrow> (b', Failed e) | (b', Stuck) \<Rightarrow> (b', Stuck) | (b', Blocked) \<Rightarrow> (b', Blocked))
      | (b, Failed e) \<Rightarrow> (b, Failed e) | (b, Stuck) \<Rightarrow> (b, Stuck) | (b, Blocked) \<Rightarrow> (b, Blocked))"

section \<open>Receiving the message\<close>

fun beforeMessageReceivedStage ::
  "('pk, 'p::linorder) sub_env \<Rightarrow> ('pk, 'p) subprocessor \<Rightarrow> nat \<Rightarrow> 'p sub_output list \<Rightarrow> 'p sub_input list \<Rightarrow>
   'p sub_output list \<times> ('p sub_error, unit) outcome" where
  "beforeMessageReceivedStage env s unitCount out ins =
     (if unitCount = ReceiveThreshold (sp_scheduler s) then (out, Done ())
      else case ins of
             [] \<Rightarrow> (out, Blocked)
           | CtxDone # r \<Rightarrow> (out, Failed CtxErr)
           | Incoming u sender # r \<Rightarrow>
               (case Validate (en_marshal env) (en_verify env) (sp_validator s) u sender of
                  Inl err \<Rightarrow> beforeMessageReceivedStage env s unitCount (out @ [InvalidUnit (extractKey u) sender err]) r
                | Inr v \<Rightarrow>
                    beforeMessageReceivedStage env (s\<lparr> sp_validator := v \<rparr>)
                      (if u_ShardIndex u = sp_localShardIndex s then unitCount else unitCount + 1) out r))"

declare beforeMessageReceivedStage.simps [simp del]

definition sub_Run ::
  "('pk, 'p::linorder) sub_env \<Rightarrow> ('pk, 'p) subprocessor \<Rightarrow> 'p sub_input list \<Rightarrow> 'p sub_output list \<times> ('p sub_error, unit) outcome" where
  "sub_Run env s ins =
     (case beforeMessageBuiltStage env s ins of
        (b, Done (m, r)) \<Rightarrow> beforeMessageReceivedStage env (bs_sub b) (bs_count b) (bs_out b) r
      | (b, Failed e) \<Rightarrow> (bs_out b, Failed e) | (b, Stuck) \<Rightarrow> (bs_out b, Stuck) | (b, Blocked) \<Rightarrow> (bs_out b, Blocked))"

section \<open>Forwarding reaches the others\<close>

lemma other_peers_filter:
  "length (filter (\<lambda>pc. ID pc \<noteq> publisher \<and> ID pc \<noteq> l) pcs) + index \<le> n \<Longrightarrow>
   other_peers publisher l acc index n pcs = Some (acc @ map ID (filter (\<lambda>pc. ID pc \<noteq> publisher \<and> ID pc \<noteq> l) pcs))"
  by (induction publisher l acc index n pcs rule: other_peers.induct) (auto split: if_splits)

lemma two_removed:
  assumes "distinct (map f xs)" and "a \<in> f ` set xs" and "b \<in> f ` set xs" and "a \<noteq> b"
  shows "length (filter (\<lambda>x. f x \<noteq> a \<and> f x \<noteq> b) xs) = length xs - 2"
proof -
  let ?ys = "filter (\<lambda>x. f x \<noteq> a \<and> f x \<noteq> b) xs"
  have "distinct (map f ?ys)" using assms(1) by (rule distinct_map_filter)
  from distinct_card [OF this] have "length ?ys = card (set (map f ?ys))" by simp
  also have "set (map f ?ys) = set (map f xs) - {a, b}" by auto
  also have "card \<dots> = card (set (map f xs)) - card {a, b}" by (rule card_Diff_subset) (use assms(2,3) in auto)
  also have "card (set (map f xs)) = length xs" using distinct_card [OF assms(1)] by simp
  also have "card {a, b} = 2" using assms(4) by simp
  finally show ?thesis .
qed

lemma sub_broadcastUnit_ok:
  assumes "sched_inv (sp_scheduler s)" and "sp_localPeer s \<in> ID ` set (peers (sp_scheduler s))"
    and "u_Publisher u \<in> ID ` set (peers (sp_scheduler s))" and "u_Publisher u \<noteq> sp_localPeer s"
  shows "sub_broadcastUnit env s u = (if sp_processingEvents s then Done (BroadcastUnit u (en_shuffle env
    (map ID (filter (\<lambda>pc. ID pc \<noteq> u_Publisher u \<and> ID pc \<noteq> sp_localPeer s) (peers (sp_scheduler s)))))) else Stuck)"
proof -
  let ?ps = "peers (sp_scheduler s)"
  have d: "distinct (map ID ?ps)" "2 \<le> length ?ps" using assms(1) by (simp_all add: sched_inv_def strict_sorted_iff)
  have "length (filter (\<lambda>pc. ID pc \<noteq> u_Publisher u \<and> ID pc \<noteq> sp_localPeer s) ?ps) = length ?ps - 2"
    by (rule two_removed [OF d(1) assms(3,2,4)])
  moreover have "nat (int (length ?ps) - 2) = length ?ps - 2" by simp
  ultimately show ?thesis using d(2) other_peers_filter [of "u_Publisher u" "sp_localPeer s" ?ps 0 "length ?ps - 2" "[]"]
    by (simp add: sub_broadcastUnit_def Let_def)
qed

section \<open>The first loop\<close>

lemma filled_slot: "i < length xs \<Longrightarrow> xs ! i = None \<Longrightarrow>
    length (filter (\<lambda>u. u \<noteq> None) (xs[i := Some u])) = Suc (length (filter (\<lambda>u. u \<noteq> None) xs))"
proof (induction xs arbitrary: i)
  case (Cons x xs)
  then show ?case by (cases i) auto
qed simp

text \<open>The invariant of the loop: the units collected are those whose index the validator has seen, the counter counts them,
  and the local shard has been forwarded once, if it was among them.\<close>

definition build_inv ::
  "('pk, 'p::linorder) sub_env \<Rightarrow> ('pk, 'p) subprocessor \<Rightarrow> 'p \<Rightarrow> 'p list \<Rightarrow> ('pk, 'p) build_state \<Rightarrow> bool" where
  "build_inv env s publisher others b \<longleftrightarrow>
     (\<exists>v. bs_sub b = s\<lparr> sp_validator := v \<rparr> \<and> v_scheduler v = sp_scheduler s \<and>
        (\<forall>k :: uint32. unat k < length (bs_units b) \<longrightarrow> (bs_units b ! unat k \<noteq> None \<longleftrightarrow> k \<in> v_receivedShards v))) \<and>
     (\<forall>u. Some u \<in> set (bs_units b) \<longrightarrow> u_Publisher u = publisher) \<and>
     length (bs_units b) = NumTotalShards (sp_scheduler s) \<and> length (filter (\<lambda>u. u \<noteq> None) (bs_units b)) = bs_count b \<and>
     (if bs_broadcast b then \<exists>u. filter is_Broadcast (bs_out b) = [BroadcastUnit u (en_shuffle env others)] \<and> u_ShardIndex u = sp_localShardIndex s
      else filter is_Broadcast (bs_out b) = [])"

lemma accept_unit_inv:
  assumes inv: "build_inv env s publisher others b"
    and val: "Validate (en_marshal env) (en_verify env) (sp_validator (bs_sub b)) u sender = Inr v"
    and pub: "u_Publisher u = publisher"
    and bc: "\<And>w. sub_broadcastUnit env (s\<lparr> sp_validator := w \<rparr>) u = Done (BroadcastUnit u (en_shuffle env others))"
  shows "\<exists>b'. accept_unit env b v u = (b', Done ()) \<and> build_inv env s publisher others b'"
proof -
  obtain v0 where v0: "bs_sub b = s\<lparr> sp_validator := v0 \<rparr>" "v_scheduler v0 = sp_scheduler s"
    "\<And>k :: uint32. unat k < length (bs_units b) \<Longrightarrow> bs_units b ! unat k \<noteq> None \<longleftrightarrow> k \<in> v_receivedShards v0"
    and us: "\<And>u. Some u \<in> set (bs_units b) \<Longrightarrow> u_Publisher u = publisher"
    and b: "length (bs_units b) = NumTotalShards (sp_scheduler s)" "length (filter (\<lambda>u. u \<noteq> None) (bs_units b)) = bs_count b"
    using inv unfolding build_inv_def by blast
  have val0: "Validate (en_marshal env) (en_verify env) v0 u sender = Inr v" using val v0(1) by simp
  note V = Validate_Inr [OF val0]
  let ?i = "unat (u_ShardIndex u)"
  have i: "?i < length (bs_units b)" "bs_units b ! ?i = None" using V(1,3) v0(2) v0(3) [of "u_ShardIndex u"] b(1) by auto
  have units: "unat k < length ((bs_units b)[?i := Some u]) \<Longrightarrow>
      (bs_units b)[?i := Some u] ! unat k \<noteq> None \<longleftrightarrow> k \<in> v_receivedShards v" for k :: uint32
    using v0(3) [of k] V(2) i(1) by (cases "k = u_ShardIndex u") (auto simp: nth_list_update word_unat_eq_iff)
  have up: "Some w \<in> set ((bs_units b)[?i := Some u]) \<Longrightarrow> u_Publisher w = publisher" for w
    using us pub set_update_subset_insert [of "bs_units b" ?i "Some u"] by auto
  have cnt: "length (filter (\<lambda>u. u \<noteq> None) ((bs_units b)[?i := Some u])) = bs_count b + 1"
    using filled_slot [OF i] b(2) by simp
  show ?thesis
  proof (cases "\<not> bs_broadcast b \<and> sp_localShardIndex s = u_ShardIndex u")
    case True
    then have "filter is_Broadcast (bs_out b) = []" using inv by (simp add: build_inv_def)
    then show ?thesis using True i(1) bc [of v] v0(1,2) V(4) units up cnt b(1)
      by (auto simp: accept_unit_def build_inv_def Let_def)
  next
    case False
    then show ?thesis using inv i(1) v0(1,2) V(4) units up cnt b(1)
      by (auto simp: accept_unit_def build_inv_def Let_def)
  qed
qed

lemma build_loop_inv:
  assumes "build_inv env s publisher others b"
    and "\<And>u sender. Incoming u sender \<in> set ins \<Longrightarrow> u_Publisher u = publisher"
    and "\<And>u w. u_Publisher u = publisher \<Longrightarrow> sub_broadcastUnit env (s\<lparr> sp_validator := w \<rparr>) u = Done (BroadcastUnit u (en_shuffle env others))"
    and "build_loop env b ins = (b', Done r)"
  shows "build_inv env s publisher others b' \<and> bs_count b' = BuildThreshold (sp_scheduler s)"
  using assms
proof (induction ins arbitrary: b)
  case Nil
  then show ?case by (auto simp: build_loop.simps [of env b] build_inv_def split: if_splits)
next
  case (Cons x ins)
  show ?case
  proof (cases "bs_count b = BuildThreshold (sp_scheduler (bs_sub b))")
    case True
    then show ?thesis using Cons.prems(1,4) by (auto simp: build_loop.simps [of env b] build_inv_def)
  next
    case False
    have rest: "Incoming u sender \<in> set ins \<Longrightarrow> u_Publisher u = publisher" for u sender
      by (rule Cons.prems(2) [of u sender]) simp
    obtain u sender where x: "x = Incoming u sender"
      using False Cons.prems(4) by (cases x) (simp_all add: build_loop.simps [of env b])
    show ?thesis
    proof (cases "Validate (en_marshal env) (en_verify env) (sp_validator (bs_sub b)) u sender")
      case (Inl err)
      let ?b = "b\<lparr> bs_out := bs_out b @ [InvalidUnit (extractKey u) sender err] \<rparr>"
      have "filter is_Broadcast (bs_out ?b) = filter is_Broadcast (bs_out b)" by simp
      then have "build_inv env s publisher others ?b" using Cons.prems(1) unfolding build_inv_def by force
      moreover have "build_loop env ?b ins = (b', Done r)"
        using Cons.prems(4) False x Inl by (auto simp: build_loop.simps [of env b] Let_def split: if_splits)
      ultimately show ?thesis by (intro Cons.IH [OF _ rest Cons.prems(3)])
    next
      case (Inr v)
      obtain b1 where b1: "accept_unit env b v u = (b1, Done ())" "build_inv env s publisher others b1"
        using accept_unit_inv [OF Cons.prems(1) Inr _ Cons.prems(3)] Cons.prems(2) [of u sender] x by auto
      moreover have "build_loop env b1 ins = (b', Done r)"
        using Cons.prems(4) False x Inr b1(1) by (simp add: build_loop.simps [of env b])
      ultimately show ?thesis by (intro Cons.IH [OF _ rest Cons.prems(3)])
    qed
  qed
qed

section \<open>The outcomes of a worker\<close>

lemma stuck_without_channel: "\<not> sp_processingEvents s \<Longrightarrow> sub_broadcastUnit env s u \<noteq> Done ev"
  by (simp add: sub_broadcastUnit_def Let_def split: option.split)

lemma accept_unit_frame:
  "accept_unit env b v u = (b', Done x) \<Longrightarrow> sp_processingEvents (bs_sub b') = sp_processingEvents (bs_sub b) \<and>
    (\<not> sp_processingEvents (bs_sub b) \<longrightarrow> bs_broadcast b' = bs_broadcast b)"
  using stuck_without_channel [of "(bs_sub b)\<lparr> sp_validator := v \<rparr>" env u]
  by (auto simp: accept_unit_def Let_def split: if_splits outcome.splits)

lemma build_loop_frame:
  "build_loop env b ins = (b', Done r) \<Longrightarrow> \<not> sp_processingEvents (bs_sub b) \<Longrightarrow>
    \<not> sp_processingEvents (bs_sub b') \<and> bs_broadcast b' = bs_broadcast b"
proof (induction env b ins rule: build_loop.induct)
  case (1 env b ins)
  show ?case
  proof (cases "bs_count b = BuildThreshold (sp_scheduler (bs_sub b))")
    case True
    then show ?thesis using "1.prems" by (simp add: build_loop.simps [of env b])
  next
    case False
    then obtain u sender t where ins: "ins = Incoming u sender # t"
      using "1.prems"(1) by (auto simp: build_loop.simps [of env b] split: list.splits sub_input.splits)
    show ?thesis
    proof (cases "Validate (en_marshal env) (en_verify env) (sp_validator (bs_sub b)) u sender")
      case (Inl err)
      then show ?thesis using "1.IH"(1) [OF False ins refl Inl] "1.prems" False ins
        by (auto simp: build_loop.simps [of env b] Let_def split: if_splits)
    next
      case (Inr v)
      obtain b1 where b1: "accept_unit env b v u = (b1, Done ())" "build_loop env b1 t = (b', Done r)"
        using "1.prems"(1) False ins Inr by (auto simp: build_loop.simps [of env b] split: prod.splits outcome.splits)
      show ?thesis using "1.IH"(2) [OF False ins refl Inr b1(1) [symmetric] refl b1(2)] accept_unit_frame [OF b1(1)] "1.prems"(2) by auto
    qed
  qed
qed

lemma received_stage_over:
  "ReceiveThreshold (sp_scheduler s) < n \<Longrightarrow> snd (beforeMessageReceivedStage env s n out ins) \<noteq> Done ()"
proof (induction env s n out ins rule: beforeMessageReceivedStage.induct)
  case (1 env s n out ins)
  then show ?case
    by (subst beforeMessageReceivedStage.simps) (auto split: list.split sub_input.split sum.split)
qed

lemma build_loop_count:
  "build_loop env b ins = (b', Done r) \<Longrightarrow> bs_count b' = BuildThreshold (sp_scheduler (bs_sub b')) \<and>
    sp_scheduler (bs_sub b') = sp_scheduler (bs_sub b)"
proof (induction env b ins rule: build_loop.induct)
  case (1 env b ins)
  show ?case
  proof (cases "bs_count b = BuildThreshold (sp_scheduler (bs_sub b))")
    case True
    then show ?thesis using "1.prems" by (simp add: build_loop.simps [of env b])
  next
    case False
    then obtain u sender t where ins: "ins = Incoming u sender # t"
      using "1.prems"(1) by (auto simp: build_loop.simps [of env b] split: list.splits sub_input.splits)
    show ?thesis
    proof (cases "Validate (en_marshal env) (en_verify env) (sp_validator (bs_sub b)) u sender")
      case (Inl err)
      then show ?thesis using "1.IH"(1) [OF False ins refl Inl] "1.prems" False ins
        by (auto simp: build_loop.simps [of env b] Let_def split: if_splits)
    next
      case (Inr v)
      obtain b1 where b1: "accept_unit env b v u = (b1, Done ())" "build_loop env b1 t = (b', Done r)"
        using "1.prems"(1) False ins Inr by (auto simp: build_loop.simps [of env b] split: prod.splits outcome.splits)
      moreover have "sp_scheduler (bs_sub b1) = sp_scheduler (bs_sub b)"
        using b1(1) by (auto simp: accept_unit_def Let_def split: if_splits outcome.splits)
      ultimately show ?thesis using "1.IH"(2) [OF False ins refl Inr b1(1) [symmetric] refl b1(2)] by auto
    qed
  qed
qed

lemma built_stage_cases:
  assumes "beforeMessageBuiltStage env s ins = (b, Done (m, r))"
  obtains b0 where "build_loop env \<lparr> bs_sub = s, bs_units = replicate (NumTotalShards (sp_scheduler s)) None, bs_count = 0,
      bs_broadcast = False, bs_out = [] \<rparr> ins = (b0, Done r)" and "finish_build env b0 = (b, Done m)"
  using assms by (auto simp: beforeMessageBuiltStage_def split: prod.splits outcome.splits)

section \<open>An example run\<close>

text \<open>The third of three peers receives the shard of the second, with which the message \<open>[7]\<close> can be built.\<close>

definition ex_scheduler :: "nat scheduler" where
  "ex_scheduler = \<lparr> localPeerID = 3, localPeerIDIndex = 2,
     peers = [\<lparr> ID = 1, Stake = 1 \<rparr>, \<lparr> ID = 2, Stake = 1 \<rparr>, \<lparr> ID = 3, Stake = 1 \<rparr>], numDataShards = 1, numCodingShards = 1 \<rparr>"

definition ex_env :: "(unit, nat) sub_env" where
  "ex_env = \<lparr> en_rs = copies, en_marshal = hd, en_verify = (\<lambda>_ _ _. Inr True), en_shuffle = (\<lambda>ps. ps), en_zeroID = 0 \<rparr>"

definition ex_unit :: "nat prop_unit" where
  "ex_unit = \<lparr> u_CommitteeID = [], u_Publisher = 1, u_MessageRoot = merkleNodeHash (merkleLeafHash [1, 7]) (merkleLeafHash [1, 7]),
     u_MerkleProof = \<lparr> Siblings = [merkleLeafHash [1, 7]] \<rparr>, u_Signature = [9], u_ShardIndex = 0, u_ShardData = [[1, 7]], u_Nonce = 3 \<rparr>"

definition ex_sub :: "(unit, nat) subprocessor" where
  "ex_sub = \<lparr> sp_scheduler = ex_scheduler, sp_localPeer = 3, sp_localShardIndex = 1, sp_processingEvents = True,
     sp_validator = \<lparr> v_publisherPubKey = (), v_scheduler = ex_scheduler, v_receivedShards = {}, v_verifiedSignature = None \<rparr> \<rparr>"

abbreviation ex_nodes :: "nat peer_committee list" where
  "ex_nodes \<equiv> [\<lparr> ID = 1, Stake = 1 \<rparr>, \<lparr> ID = 2, Stake = 1 \<rparr>, \<lparr> ID = 3, Stake = 1 \<rparr>]"

lemma ex_NewScheduler: "NewScheduler 3 ex_nodes = Inr ex_scheduler"
  by (simp add: NewScheduler_def BinarySearchFunc_def binary_search_loop.simps ex_scheduler_def)

lemma ex_Validate: "\<exists>v. Validate hd (\<lambda>_ _ _. Inr True) (sp_validator ex_sub) ex_unit 2 = Inr v"
proof -
  have "ValidateShardOrigin ex_scheduler 2 1 0 = Inr ()"
    by (simp add: ex_scheduler_def BinarySearchFunc_def binary_search_loop.simps ValidateShardOrigin_def PeerForShardIndex_def
      publisherIndex_def NumTotalShards_def)
  then show ?thesis
    by (simp add: ex_sub_def ex_unit_def Validate_def verifyDataShards_def verifySignature_def VerifyMessageSignature_def Proof_Verify_def)
qed

lemma ex_Construct:
  "ConstructMessageFromUnits copies [Some ex_unit, None] 1 1 1 = Inr ([7], [Some [1, 7]], \<lparr> Siblings = sibling_path [[1, 7], [1, 7]] 1 0 1 \<rparr>)"
proof -
  have d: "depth (Suc (Suc 0)) = 1" by code_simp
  have "merkle_New [[1, 7], [1, 7]] = Some (node_hash [[1, 7], [1, 7]] 1 0, map (\<lambda>j. \<lparr> Siblings = sibling_path [[1, 7], [1, 7]] j 0 1 \<rparr>) [0..<2])"
    using New_tree [of "[[1, 7], [1, 7]]"] d by (simp add: numeral_2_eq_2)
  moreover have "UnpadMessage [1, 7, 1, 7] = Inr [7]" by code_simp
  ultimately show ?thesis
    by (simp add: ConstructMessageFromUnits_def ex_unit_def RecoverData_def copies_def Let_def check_sizes.simps copy_at_def
      padded_leaf_def numeral_2_eq_2)
qed

lemma ex_built: "\<exists>b. beforeMessageBuiltStage ex_env ex_sub [Incoming ex_unit 2] = (b, Done ([7], [])) \<and> \<not> bs_broadcast b"
proof -
  obtain v where v: "Validate hd (\<lambda>_ _ _. Inr True) (sp_validator ex_sub) ex_unit 2 = Inr v" using ex_Validate by blast
  let ?b = "\<lparr> bs_sub = ex_sub, bs_units = [None, None], bs_count = 0, bs_broadcast = False, bs_out = [] \<rparr>"
  let ?b1 = "\<lparr> bs_sub = ex_sub\<lparr> sp_validator := v \<rparr>, bs_units = [Some ex_unit, None], bs_count = 1, bs_broadcast = False, bs_out = [] \<rparr>"
  have th: "BuildThreshold (sp_scheduler ex_sub) = 1" "NumTotalShards (sp_scheduler ex_sub) = 2" "sp_localShardIndex ex_sub = 1"
    by (simp_all add: ex_sub_def ex_scheduler_def BuildThreshold_def NumTotalShards_def)
  have i: "u_ShardIndex ex_unit = 0" by (simp add: ex_unit_def)
  have en: "en_marshal ex_env = hd" "en_verify ex_env = (\<lambda>_ _ _. Inr True)" "en_rs ex_env = copies" by (simp_all add: ex_env_def)
  have "build_loop ex_env ?b1 [] = (?b1, Done [])" using th by (simp add: build_loop.simps)
  moreover have "accept_unit ex_env ?b v ex_unit = (?b1, Done ())" using th(3) i by (simp add: accept_unit_def)
  ultimately have "build_loop ex_env ?b [Incoming ex_unit 2] = (?b1, Done [])"
    using th(1) v en by (simp add: build_loop.simps [of ex_env ?b])
  moreover have "\<exists>b. finish_build ex_env ?b1 = (b, Done [7]) \<and> \<not> bs_broadcast b"
  proof -
    let ?p = "\<lparr> Siblings = sibling_path [[1, 7], [1, 7]] 1 0 1 \<rparr>"
    have sch: "numDataShards (sp_scheduler ex_sub) = 1" "numCodingShards (sp_scheduler ex_sub) = 1"
      by (simp_all add: ex_sub_def ex_scheduler_def)
    have "\<exists>ev. sub_broadcastUnit ex_env (ex_sub\<lparr> sp_validator := v \<rparr>) (local_unit (ex_sub\<lparr> sp_validator := v \<rparr>) ex_unit [Some [1, 7]] ?p) = Done ev"
      by (simp add: sub_broadcastUnit_def ex_sub_def ex_scheduler_def local_unit_def ex_unit_def)
    then obtain ev where "sub_broadcastUnit ex_env (ex_sub\<lparr> sp_validator := v \<rparr>)
        (local_unit (ex_sub\<lparr> sp_validator := v \<rparr>) ex_unit [Some [1, 7]] ?p) = Done ev" by blast
    then show ?thesis using ex_Construct en(3) th(3) sch by (simp add: finish_build_def)
  qed
  ultimately show ?thesis using th(2) by (auto simp: beforeMessageBuiltStage_def numeral_2_eq_2)
qed

section \<open>Properties\<close>

text \<open>C17: The local shard is forwarded exactly once. When a worker has built the message, it has collected as many validated
  units as the build threshold asks for, and among its outputs there is exactly one broadcast: of the unit of the local shard,
  received or rebuilt, to all members of the committee other than the publisher and the local peer.\<close>

theorem forward_once:
  assumes "NewScheduler (sp_localPeer s) nodes = Inr (sp_scheduler s)" and "publisher \<in> ID ` set nodes" and "publisher \<noteq> sp_localPeer s"
    and "sp_processingEvents s" and "v_scheduler (sp_validator s) = sp_scheduler s" and "v_receivedShards (sp_validator s) = {}"
    and "\<forall>u sender. Incoming u sender \<in> set ins \<longrightarrow> u_Publisher u = publisher"
    and "beforeMessageBuiltStage env s ins = (b, Done (m, r))"
  shows "(\<exists>u. filter is_Broadcast (bs_out b) = [BroadcastUnit u (en_shuffle env
      (map ID (filter (\<lambda>pc. ID pc \<noteq> publisher \<and> ID pc \<noteq> sp_localPeer s) (peers (sp_scheduler s)))))] \<and>
      u_ShardIndex u = sp_localShardIndex s) \<and>
    length (filter (\<lambda>u. u \<noteq> None) (bs_units b)) = BuildThreshold (sp_scheduler s)"
proof -
  let ?others = "map ID (filter (\<lambda>pc. ID pc \<noteq> publisher \<and> ID pc \<noteq> sp_localPeer s) (peers (sp_scheduler s)))"
  note S = NewScheduler_inv [OF assms(1)]
  have mem: "ID ` set (peers (sp_scheduler s)) = ID ` set nodes" using S(3) by (metis set_mset_mset)
  have loc: "sp_localPeer s \<in> ID ` set (peers (sp_scheduler s))"
    using local_at [OF S(1)] S(2) by (metis image_eqI nth_mem)
  have bc: "sub_broadcastUnit env (s\<lparr> sp_validator := w \<rparr>) u = Done (BroadcastUnit u (en_shuffle env ?others))"
    if "u_Publisher u = publisher" for u w
    using sub_broadcastUnit_ok [of "s\<lparr> sp_validator := w \<rparr>" u env] that S(1) loc mem assms(2-4) by simp
  let ?b = "\<lparr> bs_sub = s, bs_units = replicate (NumTotalShards (sp_scheduler s)) None, bs_count = 0, bs_broadcast = False, bs_out = [] \<rparr>"
  obtain b0 where b0: "build_loop env ?b ins = (b0, Done r)" "finish_build env b0 = (b, Done m)"
    using built_stage_cases [OF assms(8)] by blast
  have init: "build_inv env s publisher ?others ?b"
    unfolding build_inv_def using assms(5,6) by (auto intro!: exI [of _ "sp_validator s"])
  have pubs: "u_Publisher u = publisher" if "Incoming u sender \<in> set ins" for u sender using that assms(7) by blast
  have inv: "build_inv env s publisher ?others b0" "bs_count b0 = BuildThreshold (sp_scheduler s)"
    using build_loop_inv [OF init pubs bc b0(1)] by simp_all
  then obtain v where v: "bs_sub b0 = s\<lparr> sp_validator := v \<rparr>" and us: "\<And>u. Some u \<in> set (bs_units b0) \<Longrightarrow> u_Publisher u = publisher"
    and cnt: "length (filter (\<lambda>u. u \<noteq> None) (bs_units b0)) = BuildThreshold (sp_scheduler s)"
    unfolding build_inv_def by auto
  show ?thesis
  proof (cases "bs_broadcast b0")
    case True
    then have "b = b0" using b0(2) by (auto simp: finish_build_def Let_def split: sum.splits prod.splits)
    then show ?thesis using inv True cnt by (simp add: build_inv_def)
  next
    case False
    then obtain u ls lp ev where u: "slice_get (bs_units b0) 0 = Some (Some u)"
      and ev: "sub_broadcastUnit env (bs_sub b0) (local_unit (bs_sub b0) u ls lp) = Done ev"
      and b: "b = b0\<lparr> bs_out := bs_out b0 @ [ev], bs_count := bs_count b0 + 1 \<rparr>"
      using b0(2) by (auto simp: finish_build_def Let_def split: sum.splits prod.splits option.splits outcome.splits)
    have "Some u \<in> set (bs_units b0)" using u by (metis nth_mem option.distinct(1) option.inject slice_get_def)
    then have "u_Publisher (local_unit (bs_sub b0) u ls lp) = publisher" using us by (simp add: local_unit_def)
    from bc [OF this, of v] ev v have "ev = BroadcastUnit (local_unit (bs_sub b0) u ls lp) (en_shuffle env ?others)" by simp
    moreover have "u_ShardIndex (local_unit (bs_sub b0) u ls lp) = sp_localShardIndex s" using v by (simp add: local_unit_def)
    ultimately show ?thesis using b False inv(1) cnt by (simp add: build_inv_def)
  qed
qed

theorem forward_once_witness:
  "\<exists>b u. beforeMessageBuiltStage ex_env ex_sub [Incoming ex_unit 2] = (b, Done ([7], [])) \<and>
    filter is_Broadcast (bs_out b) = [BroadcastUnit u [2]] \<and> u_ShardIndex u = 1"
proof -
  obtain b where b: "beforeMessageBuiltStage ex_env ex_sub [Incoming ex_unit 2] = (b, Done ([7], []))" using ex_built by blast
  have e: "sp_scheduler ex_sub = ex_scheduler" "sp_localPeer ex_sub = 3" "sp_localShardIndex ex_sub = 1" "sp_processingEvents ex_sub"
    "v_scheduler (sp_validator ex_sub) = ex_scheduler" "v_receivedShards (sp_validator ex_sub) = {}" "u_Publisher ex_unit = 1"
    by (simp_all add: ex_sub_def ex_unit_def)
  have "NewScheduler (sp_localPeer ex_sub) ex_nodes = Inr (sp_scheduler ex_sub)" using e ex_NewScheduler by simp
  from forward_once [OF this _ _ _ _ _ _ b, of 1] b e show ?thesis by (auto simp: ex_env_def ex_scheduler_def)
qed

text \<open>C39: A worker as the processor creates it never finishes. \<open>newSubprocessor\<close> leaves the channel for events unset, and every
  way to the end of the first loop sends on it; so the worker either fails before or hangs in the send for ever.\<close>

theorem new_worker_never_done:
  assumes "newSubprocessor pubKeyOf publisher sch lp li = Inr s"
  shows "snd (sub_Run env s ins) \<noteq> Done ()"
proof
  assume fin: "snd (sub_Run env s ins) = Done ()"
  have ch: "\<not> sp_processingEvents s" using assms by (auto simp: newSubprocessor_def bindE_Inr)
  obtain b m r where "beforeMessageBuiltStage env s ins = (b, Done (m, r))"
    using fin by (auto simp: sub_Run_def split: prod.splits outcome.splits)
  then obtain b0 where b0: "build_loop env \<lparr> bs_sub = s, bs_units = replicate (NumTotalShards (sp_scheduler s)) None, bs_count = 0,
      bs_broadcast = False, bs_out = [] \<rparr> ins = (b0, Done r)" "finish_build env b0 = (b, Done m)" by (rule built_stage_cases)
  have "\<not> sp_processingEvents (bs_sub b0)" "\<not> bs_broadcast b0" using build_loop_frame [OF b0(1)] ch by simp_all
  then show False using b0(2) stuck_without_channel [of "bs_sub b0" env]
    by (auto simp: finish_build_def Let_def split: sum.splits prod.splits option.splits outcome.splits)
qed

theorem new_worker_never_done_witness:
  "\<exists>s. newSubprocessor (\<lambda>_. Inr ()) 1 ex_scheduler 3 1 = Inr s \<and>
    snd (sub_Run ex_env s [Incoming ex_unit 2, Incoming ex_unit 2]) \<noteq> Done ()"
proof -
  have "\<exists>s. newSubprocessor (\<lambda>_. Inr ()) 1 ex_scheduler 3 1 = Inr s" by (simp add: newSubprocessor_def NewValidator_def)
  then obtain s where "newSubprocessor (\<lambda>_. Inr ()) 1 ex_scheduler 3 1 = Inr s" by blast
  with new_worker_never_done [OF this] show ?thesis by blast
qed

text \<open>C40: Committees of two or three. There the receive threshold equals the build threshold, and the second loop compares for
  equality: a worker that built the message without its own shard has already counted one unit more, so it does not finish
  whatever units arrive, and only the timeout ends it.\<close>

theorem small_committee_hangs:
  assumes "NewScheduler i nodes = Inr (sp_scheduler s)" and "length nodes \<le> 3"
    and "beforeMessageBuiltStage env s ins = (b, Done (m, r))" and "\<not> bs_broadcast b"
  shows "snd (beforeMessageReceivedStage env (bs_sub b) (bs_count b) out later) \<noteq> Done () \<and> snd (sub_Run env s ins) \<noteq> Done ()"
proof -
  obtain b0 where b0: "build_loop env \<lparr> bs_sub = s, bs_units = replicate (NumTotalShards (sp_scheduler s)) None, bs_count = 0,
      bs_broadcast = False, bs_out = [] \<rparr> ins = (b0, Done r)" "finish_build env b0 = (b, Done m)"
    using built_stage_cases [OF assms(3)] by blast
  have cnt: "bs_count b0 = BuildThreshold (sp_scheduler s)" "sp_scheduler (bs_sub b0) = sp_scheduler s"
    using build_loop_count [OF b0(1)] by simp_all
  have b: "bs_count b = Suc (bs_count b0)" "bs_sub b = bs_sub b0"
    using b0(2) assms(4) by (auto simp: finish_build_def Let_def split: sum.splits prod.splits option.splits outcome.splits if_splits)
  have "length (peers (sp_scheduler s)) \<le> 3" using assms(2) NewScheduler_inv(3) [OF assms(1)] by (metis size_mset)
  then have over: "ReceiveThreshold (sp_scheduler (bs_sub b)) < bs_count b" using cnt b by (simp add: ReceiveThreshold_def)
  show ?thesis using received_stage_over [OF over] assms(3) by (simp add: sub_Run_def)
qed

theorem small_committee_hangs_witness:
  "\<exists>b. beforeMessageBuiltStage ex_env ex_sub [Incoming ex_unit 2] = (b, Done ([7], [])) \<and>
    snd (beforeMessageReceivedStage ex_env (bs_sub b) (bs_count b) [] [Incoming ex_unit 2]) \<noteq> Done ()"
proof -
  obtain b where b: "beforeMessageBuiltStage ex_env ex_sub [Incoming ex_unit 2] = (b, Done ([7], []))" "\<not> bs_broadcast b"
    using ex_built by blast
  have "NewScheduler 3 ex_nodes = Inr (sp_scheduler ex_sub)" using ex_NewScheduler by (simp add: ex_sub_def)
  from small_committee_hangs [OF this _ b] b show ?thesis by auto
qed

end
