(* ===== verification/Timecache.thy ===== *)
theory Timecache
  imports Juno_Prelude
begin

text \<open>
  The expiring set of keys of Propeller (\<open>consensus/propeller/timecache/timecache.go\<close>): a map from keys to expiry
  times beside a ring buffer of the same entries in the order of insertion. Times are nanoseconds since the zero value of
  \<open>time.Time\<close>; the reading of the clock is an argument. A slice index out of range is \<open>None\<close>, and so is a clean-up loop
  that runs out of fuel. The ring buffer refines a list that grows at its end and is emptied from its front.
\<close>

section \<open>Definitions\<close>

record 'k timed_value =
  tv_value :: 'k
  tv_expiry :: int

record 'k time_cache =
  tc_values :: "'k \<rightharpoonup> int"
  tc_timestamps :: "'k timed_value list"
  tc_start :: nat
  tc_end :: nat
  tc_size :: nat
  tc_expiry :: int

text \<open>A fresh slice holds zero values; \<open>z\<close> is the zero value of the key type.\<close>

abbreviation zero_timed :: "'k \<Rightarrow> 'k timed_value" where
  "zero_timed z \<equiv> \<lparr> tv_value = z, tv_expiry = 0 \<rparr>"

definition timecache_New :: "'k \<Rightarrow> nat \<Rightarrow> int \<Rightarrow> 'k time_cache" where
  "timecache_New z sz expiry =
     \<lparr> tc_values = Map.empty, tc_timestamps = replicate (sz + 1) (zero_timed z), tc_start = 0, tc_end = 0,
       tc_size = sz + 1, tc_expiry = expiry \<rparr>"

definition increaseIndex :: "'k time_cache \<Rightarrow> nat \<Rightarrow> nat" where
  "increaseIndex tc idx = (idx + 1) mod tc_size tc"

fun removeExpired_loop :: "nat \<Rightarrow> 'k time_cache \<Rightarrow> int \<Rightarrow> 'k time_cache option" where
  "removeExpired_loop 0 tc now = None"
| "removeExpired_loop (Suc fuel) tc now =
     (if tc_start tc = tc_end tc then Some tc
      else case slice_get (tc_timestamps tc) (tc_start tc) of
             None \<Rightarrow> None
           | Some tv \<Rightarrow>
               if now < tv_expiry tv then Some tc
               else removeExpired_loop fuel
                      (tc\<lparr> tc_values := (tc_values tc)(tv_value tv := None), tc_start := increaseIndex tc (tc_start tc) \<rparr>) now)"

definition removeExpired :: "'k time_cache \<Rightarrow> int \<Rightarrow> 'k time_cache option" where
  "removeExpired tc now = removeExpired_loop (tc_size tc + 1) tc now"

definition almostFull :: "'k time_cache \<Rightarrow> bool" where
  "almostFull tc \<longleftrightarrow> (tc_end tc + 1) mod tc_size tc = tc_start tc"

definition regrowth :: "'k \<Rightarrow> 'k time_cache \<Rightarrow> 'k time_cache option" where
  "regrowth z tc =
     (let nextSize = (if tc_size tc > 1024 then (tc_size tc * 12) div 10 else tc_size tc * 2);
          nextTimestamps = replicate nextSize (zero_timed z)
      in if tc_start tc < tc_end tc then
           Some (tc\<lparr> tc_size := nextSize, tc_timestamps := copy_at 0 nextTimestamps (tc_timestamps tc) \<rparr>)
         else if tc_size tc < tc_start tc then None
         else
           let count = tc_size tc - tc_start tc;
               nextTimestamps = copy_at 0 nextTimestamps (take count (drop (tc_start tc) (tc_timestamps tc)));
               nextEnd = count + tc_end tc
           in if nextSize < nextEnd then None
              else
                let nextTimestamps = copy_at count nextTimestamps (take (tc_end tc) (tc_timestamps tc))
                in Some (tc\<lparr> tc_start := 0, tc_end := nextEnd, tc_size := nextSize, tc_timestamps := nextTimestamps \<rparr>))"

definition Add :: "'k \<Rightarrow> 'k time_cache \<Rightarrow> 'k \<Rightarrow> int \<Rightarrow> 'k time_cache option" where
  "Add z tc value now =
     (case removeExpired tc now of None \<Rightarrow> None
      | Some tc1 \<Rightarrow>
          (case (if almostFull tc1 then regrowth z tc1 else Some tc1) of None \<Rightarrow> None
           | Some tc2 \<Rightarrow>
               (let expiryTime = now + tc_expiry tc2;
                    tc3 = tc2\<lparr> tc_values := (tc_values tc2)(value \<mapsto> expiryTime) \<rparr>
                in if tc_end tc3 < length (tc_timestamps tc3) then
                     Some (tc3\<lparr> tc_timestamps := (tc_timestamps tc3)[tc_end tc3 := \<lparr> tv_value = value, tv_expiry = expiryTime \<rparr>],
                                tc_end := increaseIndex tc3 (tc_end tc3) \<rparr>)
                   else None)))"

definition Timecache_Get :: "'k time_cache \<Rightarrow> 'k \<Rightarrow> int \<Rightarrow> (bool \<times> 'k time_cache) option" where
  "Timecache_Get tc value now =
     (case tc_values tc value of
        None \<Rightarrow> Some (False, tc)
      | Some expiry \<Rightarrow>
          if now < expiry then Some (True, tc)
          else map_option (Pair False) (removeExpired tc now))"

section \<open>The queue of a ring buffer\<close>

definition queue :: "'k time_cache \<Rightarrow> 'k timed_value list" where
  "queue tc =
     (if tc_start tc \<le> tc_end tc then take (tc_end tc - tc_start tc) (drop (tc_start tc) (tc_timestamps tc))
      else drop (tc_start tc) (tc_timestamps tc) @ take (tc_end tc) (tc_timestamps tc))"

definition ring_inv :: "'k time_cache \<Rightarrow> bool" where
  "ring_inv tc \<longleftrightarrow> 2 \<le> tc_size tc \<and> length (tc_timestamps tc) = tc_size tc \<and> tc_start tc < tc_size tc \<and> tc_end tc < tc_size tc"

lemma queue_empty: "ring_inv tc \<Longrightarrow> queue tc = [] \<longleftrightarrow> tc_start tc = tc_end tc"
  by (auto simp: queue_def ring_inv_def)

lemma length_queue: "ring_inv tc \<Longrightarrow> length (queue tc) < tc_size tc"
  by (auto simp: queue_def ring_inv_def)

lemma queue_pop:
  assumes "ring_inv tc" and "tc_start tc \<noteq> tc_end tc"
  shows "queue tc = tc_timestamps tc ! tc_start tc # queue (tc\<lparr> tc_values := m, tc_start := increaseIndex tc (tc_start tc) \<rparr>)"
    and "ring_inv (tc\<lparr> tc_values := m, tc_start := increaseIndex tc (tc_start tc) \<rparr>)"
proof -
  let ?s = "tc_start tc" and ?e = "tc_end tc" and ?ts = "tc_timestamps tc"
  have hd: "drop ?s ?ts = ?ts ! ?s # drop (Suc ?s) ?ts" using assms(1) by (simp add: ring_inv_def Cons_nth_drop_Suc)
  show "ring_inv (tc\<lparr> tc_values := m, tc_start := increaseIndex tc ?s \<rparr>)"
    using assms(1) by (simp add: ring_inv_def increaseIndex_def)
  show "queue tc = ?ts ! ?s # queue (tc\<lparr> tc_values := m, tc_start := increaseIndex tc ?s \<rparr>)"
  proof (cases "Suc ?s = tc_size tc")
    case True
    then show ?thesis using assms hd by (auto simp: queue_def ring_inv_def increaseIndex_def)
  next
    case False
    then have "increaseIndex tc ?s = Suc ?s" using assms(1) by (simp add: ring_inv_def increaseIndex_def)
    then show ?thesis using assms hd by (auto simp: queue_def ring_inv_def Suc_diff_Suc take_Cons')
  qed
qed

abbreviation pushed :: "'k time_cache \<Rightarrow> ('k \<rightharpoonup> int) \<Rightarrow> 'k timed_value \<Rightarrow> 'k time_cache" where
  "pushed tc m x \<equiv> tc\<lparr> tc_values := m, tc_timestamps := (tc_timestamps tc)[tc_end tc := x], tc_end := increaseIndex tc (tc_end tc) \<rparr>"

lemma queue_push:
  assumes "ring_inv tc" and "\<not> almostFull tc"
  shows "queue (pushed tc m x) = queue tc @ [x]" and "ring_inv (pushed tc m x)"
proof -
  let ?s = "tc_start tc" and ?e = "tc_end tc" and ?ts = "tc_timestamps tc"
  show "ring_inv (pushed tc m x)" using assms(1) by (simp add: ring_inv_def increaseIndex_def)
  show "queue (pushed tc m x) = queue tc @ [x]"
  proof (cases "Suc ?e = tc_size tc")
    case True
    then have "increaseIndex tc ?e = 0" "?s \<noteq> 0" using assms by (auto simp: increaseIndex_def almostFull_def)
    then show ?thesis using assms(1) True
      by (auto simp: queue_def ring_inv_def list_eq_iff_nth_eq nth_append nth_list_update)
  next
    case False
    then have "increaseIndex tc ?e = Suc ?e" "?s \<noteq> Suc ?e" using assms by (auto simp: ring_inv_def increaseIndex_def almostFull_def)
    then show ?thesis using assms(1)
      by (auto simp: queue_def ring_inv_def list_eq_iff_nth_eq nth_append nth_list_update)
  qed
qed

lemma queue_regrowth:
  assumes "ring_inv tc" and "almostFull tc"
  shows "\<exists>tc'. regrowth z tc = Some tc' \<and> queue tc' = queue tc \<and> ring_inv tc' \<and> \<not> almostFull tc' \<and>
    tc_values tc' = tc_values tc \<and> tc_expiry tc' = tc_expiry tc"
proof -
  let ?s = "tc_start tc" and ?e = "tc_end tc" and ?ts = "tc_timestamps tc" and ?n = "tc_size tc"
  let ?m = "if ?n > 1024 then (?n * 12) div 10 else ?n * 2"
  have n: "2 \<le> ?n" "length ?ts = ?n" "?s < ?n" "?e < ?n" using assms(1) by (simp_all add: ring_inv_def)
  have m: "?n < ?m" using n(1) by auto
  show ?thesis
  proof (cases "?s < ?e")
    case True
    have s: "Suc ?e = ?n" "?s = 0" using assms(2) n True by (auto simp: almostFull_def mod_if split: if_splits)
    let ?t = "tc\<lparr> tc_size := ?m, tc_timestamps := copy_at 0 (replicate ?m (zero_timed z)) ?ts \<rparr>"
    have "regrowth z tc = Some ?t" using True by (simp add: regrowth_def Let_def)
    moreover have "queue ?t = queue tc" using s n m by (simp add: queue_def copy_at_def)
    moreover have "ring_inv ?t" "\<not> almostFull ?t" using s n m by (simp_all add: ring_inv_def almostFull_def copy_at_def)
    ultimately show ?thesis by auto
  next
    case False
    have s: "?s = Suc ?e" using assms(2) n False by (auto simp: almostFull_def mod_if split: if_splits)
    let ?c = "?n - ?s"
    let ?t = "tc\<lparr> tc_start := 0, tc_end := ?c + ?e, tc_size := ?m, tc_timestamps :=
      copy_at ?c (copy_at 0 (replicate ?m (zero_timed z)) (take ?c (drop ?s ?ts))) (take ?e ?ts) \<rparr>"
    have "regrowth z tc = Some ?t" using False s n m by (simp add: regrowth_def Let_def)
    moreover have "queue ?t = queue tc" using s n m by (simp add: queue_def copy_at_def)
    moreover have "ring_inv ?t" "\<not> almostFull ?t" using s n m by (simp_all add: ring_inv_def almostFull_def copy_at_def)
    ultimately show ?thesis by auto
  qed
qed

text \<open>No operation of the ring panics or runs out of fuel, whatever the map and the times are.\<close>

lemma removeExpired_ring:
  assumes "ring_inv tc"
  shows "\<exists>tc'. removeExpired tc now = Some tc' \<and> ring_inv tc'"
proof -
  have "\<exists>tc'. removeExpired_loop fuel tc now = Some tc' \<and> ring_inv tc'" if "length (queue tc) < fuel" for fuel
    using that assms
  proof (induction fuel arbitrary: tc)
    case (Suc fuel)
    show ?case
    proof (cases "tc_start tc = tc_end tc")
      case False
      let ?x = "tc_timestamps tc ! tc_start tc"
      let ?t = "tc\<lparr> tc_values := (tc_values tc)(tv_value ?x := None), tc_start := increaseIndex tc (tc_start tc) \<rparr>"
      note pop = queue_pop [OF Suc.prems(2) False, of "(tc_values tc)(tv_value ?x := None)"]
      have x: "slice_get (tc_timestamps tc) (tc_start tc) = Some ?x" using Suc.prems(2) by (simp add: ring_inv_def)
      have "length (queue ?t) < fuel" using pop(1) Suc.prems(1) by simp
      then show ?thesis using Suc.IH [of ?t] pop(2) False x Suc.prems(2) by auto
    qed (use Suc.prems(2) in simp)
  qed simp
  moreover have "length (queue tc) < tc_size tc + 1" using length_queue [OF assms] by simp
  ultimately show ?thesis by (simp only: removeExpired_def)
qed

lemma Add_ring:
  assumes "ring_inv tc"
  shows "\<exists>tc'. Add z tc v now = Some tc' \<and> ring_inv tc'"
proof -
  obtain tc1 where tc1: "removeExpired tc now = Some tc1" "ring_inv tc1" using removeExpired_ring [OF assms] by blast
  obtain tc2 where tc2: "(if almostFull tc1 then regrowth z tc1 else Some tc1) = Some tc2" "ring_inv tc2" "\<not> almostFull tc2"
    using queue_regrowth [OF tc1(2), of z] tc1(2) by (cases "almostFull tc1") auto
  let ?e = "now + tc_expiry tc2"
  have "Add z tc v now = Some (pushed tc2 ((tc_values tc2)(v \<mapsto> ?e)) \<lparr> tv_value = v, tv_expiry = ?e \<rparr>)"
    using tc1(1) tc2(1,2) by (simp add: Add_def Let_def ring_inv_def increaseIndex_def)
  then show ?thesis using queue_push(2) [OF tc2(2,3)] by blast
qed

section \<open>The operations on the queue\<close>

text \<open>The map holds exactly the entries of the queue.\<close>

definition cache_inv :: "'k time_cache \<Rightarrow> bool" where
  "cache_inv tc \<longleftrightarrow> ring_inv tc \<and> distinct (map tv_value (queue tc)) \<and>
     tc_values tc = map_of (map (\<lambda>tv. (tv_value tv, tv_expiry tv)) (queue tc))"

lemma entry_mem:
  "(k, e) \<in> set (map (\<lambda>tv. (tv_value tv, tv_expiry tv)) q) \<longleftrightarrow> \<lparr> tv_value = k, tv_expiry = e \<rparr> \<in> set q"
proof (induction q)
  case (Cons x q)
  then show ?case by (cases x) auto
qed simp

lemma entry_None:
  "map_of (map (\<lambda>tv. (tv_value tv, tv_expiry tv)) q) k = None \<longleftrightarrow> k \<notin> tv_value ` set q"
  "None = map_of (map (\<lambda>tv. (tv_value tv, tv_expiry tv)) q) k \<longleftrightarrow> k \<notin> tv_value ` set q"
  by (induction q) auto

lemma entry_snoc:
  "tv_value x \<notin> tv_value ` set q \<Longrightarrow> map_of (map (\<lambda>tv. (tv_value tv, tv_expiry tv)) (q @ [x])) =
    (map_of (map (\<lambda>tv. (tv_value tv, tv_expiry tv)) q))(tv_value x \<mapsto> tv_expiry x)"
  by (induction q) (auto simp: fun_eq_iff)

lemma removeExpired_queue:
  assumes "cache_inv tc"
  shows "\<exists>tc'. removeExpired tc now = Some tc' \<and> cache_inv tc' \<and> tc_expiry tc' = tc_expiry tc \<and>
    queue tc' = dropWhile (\<lambda>tv. \<not> now < tv_expiry tv) (queue tc)"
proof -
  have "\<exists>tc'. removeExpired_loop fuel tc now = Some tc' \<and> cache_inv tc' \<and> tc_expiry tc' = tc_expiry tc \<and>
    queue tc' = dropWhile (\<lambda>tv. \<not> now < tv_expiry tv) (queue tc)" if "length (queue tc) < fuel" for fuel
    using that assms
  proof (induction fuel arbitrary: tc)
    case (Suc fuel)
    have r: "ring_inv tc" using Suc.prems(2) by (simp add: cache_inv_def)
    show ?case
    proof (cases "tc_start tc = tc_end tc")
      case True
      then show ?thesis using Suc.prems(2) queue_empty [OF r] by simp
    next
      case False
      let ?x = "tc_timestamps tc ! tc_start tc"
      let ?t = "tc\<lparr> tc_values := (tc_values tc)(tv_value ?x := None), tc_start := increaseIndex tc (tc_start tc) \<rparr>"
      note pop = queue_pop [OF r False, of "(tc_values tc)(tv_value ?x := None)"]
      have x: "slice_get (tc_timestamps tc) (tc_start tc) = Some ?x" using r by (simp add: ring_inv_def)
      have "cache_inv ?t" using Suc.prems(2) pop by (auto simp: cache_inv_def fun_eq_iff entry_None)
      moreover have "length (queue ?t) < fuel" using pop(1) Suc.prems(1) by simp
      ultimately show ?thesis using Suc.IH [of ?t] Suc.prems(2) False x pop(1) by auto
    qed
  qed simp
  moreover have "length (queue tc) < tc_size tc + 1" using length_queue [of tc] assms by (simp add: cache_inv_def)
  ultimately show ?thesis by (simp only: removeExpired_def)
qed

lemma Add_queue:
  assumes "cache_inv tc" and q: "dropWhile (\<lambda>tv. \<not> now < tv_expiry tv) (queue tc) = q" and "v \<notin> tv_value ` set q"
  shows "\<exists>tc'. Add z tc v now = Some tc' \<and> cache_inv tc' \<and> tc_expiry tc' = tc_expiry tc \<and>
    queue tc' = q @ [\<lparr> tv_value = v, tv_expiry = now + tc_expiry tc \<rparr>]"
proof -
  obtain tc1 where tc1: "removeExpired tc now = Some tc1" "cache_inv tc1" "tc_expiry tc1 = tc_expiry tc" "queue tc1 = q"
    using removeExpired_queue [OF assms(1), of now] by (auto simp: q)
  obtain tc2 where tc2: "(if almostFull tc1 then regrowth z tc1 else Some tc1) = Some tc2" "cache_inv tc2" "\<not> almostFull tc2"
    "tc_expiry tc2 = tc_expiry tc" "queue tc2 = q"
    using queue_regrowth [of tc1 z] tc1 by (cases "almostFull tc1") (auto simp: cache_inv_def)
  have r: "ring_inv tc2" using tc2(2) by (simp add: cache_inv_def)
  let ?x = "\<lparr> tv_value = v, tv_expiry = now + tc_expiry tc \<rparr>"
  let ?t = "pushed tc2 ((tc_values tc2)(v \<mapsto> now + tc_expiry tc)) ?x"
  note push = queue_push [OF r tc2(3), where m = "(tc_values tc2)(v \<mapsto> now + tc_expiry tc)" and x = ?x]
  have "Add z tc v now = Some ?t"
    using tc1(1) tc2(1,4) r by (simp add: Add_def Let_def ring_inv_def increaseIndex_def)
  moreover have "cache_inv ?t"
    unfolding cache_inv_def push(1) tc2(5) using push(2) tc2(2,5) assms(3) entry_snoc [of ?x q]
    by (intro conjI) (simp, simp add: cache_inv_def, simp add: cache_inv_def del: map_append)
  ultimately show ?thesis using push(1) tc2(4,5) by auto
qed

section \<open>Traces\<close>

definition add_all :: "'k \<Rightarrow> 'k time_cache \<Rightarrow> ('k \<times> int) list \<Rightarrow> 'k time_cache option" where
  "add_all z tc adds = fold (\<lambda>(v, t) s. case s of None \<Rightarrow> None | Some tc \<Rightarrow> Add z tc v t) adds (Some tc)"

text \<open>Insertions in the order of time, none of a key whose last entry is still live.\<close>

definition timely :: "int \<Rightarrow> ('k \<times> int) list \<Rightarrow> bool" where
  "timely expiry adds \<longleftrightarrow> sorted_wrt (\<lambda>(v, t) (v', t'). t \<le> t' \<and> (v = v' \<longrightarrow> t + expiry \<le> t')) adds"

lemma dropWhile_sorted:
  "sorted (map f q) \<Longrightarrow> set (dropWhile (\<lambda>x. \<not> t < f x) q) = {x \<in> set q. (t :: int) < f x}"
proof (induction q)
  case (Cons a q)
  then show ?case by (cases "t < f a") auto
qed simp

lemma sorted_dropWhile_map: "sorted (map f q) \<Longrightarrow> sorted (map f (dropWhile P q))"
  by (induction q) auto

lemma add_all_queue:
  assumes "timely expiry adds" and "1 \<le> n" and "0 < expiry"
  shows "\<exists>tc. add_all z (timecache_New z n expiry) adds = Some tc \<and> cache_inv tc \<and> tc_expiry tc = expiry \<and>
    sorted (map tv_expiry (queue tc)) \<and>
    set (queue tc) = {\<lparr> tv_value = k, tv_expiry = t + expiry \<rparr> |k t. (k, t) \<in> set adds \<and> (\<forall>(k', t') \<in> set adds. t' < t + expiry)}"
  using assms(1)
proof (induction adds rule: rev_induct)
  case Nil
  have "ring_inv (timecache_New z n expiry)" "queue (timecache_New z n expiry) = []"
    using assms(2) by (simp_all add: timecache_New_def ring_inv_def queue_def)
  then show ?case by (simp add: add_all_def cache_inv_def) (simp add: timecache_New_def)
next
  case (snoc a adds)
  obtain v t where a: "a = (v, t)" by (cases a)
  have tm: "timely expiry adds" "\<forall>(k, s) \<in> set adds. s \<le> t \<and> (k = v \<longrightarrow> s + expiry \<le> t)"
    using snoc.prems a by (auto simp: timely_def sorted_wrt_append)
  from snoc.IH [OF tm(1)] obtain tc where tc: "add_all z (timecache_New z n expiry) adds = Some tc" "cache_inv tc" "tc_expiry tc = expiry"
    "sorted (map tv_expiry (queue tc))"
    and q: "set (queue tc) = {\<lparr> tv_value = k, tv_expiry = t + expiry \<rparr> |k t. (k, t) \<in> set adds \<and> (\<forall>(k', t') \<in> set adds. t' < t + expiry)}"
    by blast
  let ?q = "dropWhile (\<lambda>tv. \<not> t < tv_expiry tv) (queue tc)"
  have sq: "set ?q = {\<lparr> tv_value = k, tv_expiry = s + expiry \<rparr> |k s. (k, s) \<in> set adds \<and> t < s + expiry}"
    using tm(2) unfolding dropWhile_sorted [OF tc(4)] q by fastforce
  then have "v \<notin> tv_value ` set ?q" using tm(2) by fastforce
  from Add_queue [OF tc(2) refl this, of z] obtain tc' where tc': "Add z tc v t = Some tc'" "cache_inv tc'" "tc_expiry tc' = expiry"
    "queue tc' = ?q @ [\<lparr> tv_value = v, tv_expiry = t + expiry \<rparr>]" using tc(3) by auto
  have "sorted (map tv_expiry (queue tc'))"
    using sorted_dropWhile_map [OF tc(4)] sq tm(2) tc'(4) by (fastforce simp: sorted_append)
  moreover have "set (queue tc') = {\<lparr> tv_value = k, tv_expiry = s + expiry \<rparr> |k s. (k, s) \<in> set (adds @ [a]) \<and>
      (\<forall>(k', t') \<in> set (adds @ [a]). t' < s + expiry)}"
    using tm(2) assms(3) unfolding tc'(4) a set_append sq by fastforce
  ultimately show ?case using tc tc' a by (auto simp: add_all_def)
qed

text \<open>With size 0 the buffer has a single slot and counts as full while it is empty. Growing it takes the unused slot for an
  entry, so the first insertion fills the buffer, which then looks empty: the key stays in the map and is never removed.\<close>

lemma New_zero_lost:
  "map_option (\<lambda>tc. (queue tc, tc_values tc)) (Add z (timecache_New z 0 10) k 1) = Some ([], [k \<mapsto> 11])"
  by (simp add: Add_def timecache_New_def removeExpired_def almostFull_def regrowth_def copy_at_def increaseIndex_def queue_def
    numeral_2_eq_2)

section \<open>Properties\<close>

text \<open>C20: The cache as a set of recent keys. After insertions in the order of time, of which none repeats a key that is
  still live, the cache holds exactly the keys that had not expired at the last one, through any wrap-around, clean-up and
  growth of the ring buffer; no index is out of range, and a later lookup answers whether the key was inserted less than the
  expiry time ago.\<close>

theorem timecache_trace:
  assumes "timely expiry adds" and "1 \<le> n" and "0 < expiry" and "\<forall>(k, t) \<in> set adds. t \<le> now"
  shows "\<exists>tc tc'. add_all z (timecache_New z n expiry) adds = Some tc \<and>
    dom (tc_values tc) = {k. \<exists>t. (k, t) \<in> set adds \<and> (\<forall>(k', t') \<in> set adds. t' < t + expiry)} \<and>
    Timecache_Get tc v now = Some (\<exists>t. (v, t) \<in> set adds \<and> now < t + expiry, tc')"
proof -
  obtain tc where tc: "add_all z (timecache_New z n expiry) adds = Some tc" "cache_inv tc"
    and q: "set (queue tc) = {\<lparr> tv_value = k, tv_expiry = t + expiry \<rparr> |k t. (k, t) \<in> set adds \<and> (\<forall>(k', t') \<in> set adds. t' < t + expiry)}"
    using add_all_queue [OF assms(1-3), of z] by blast
  let ?m = "map (\<lambda>tv. (tv_value tv, tv_expiry tv)) (queue tc)"
  have vals: "tc_values tc = map_of ?m" and "distinct (map fst ?m)" using tc(2) by (simp_all add: cache_inv_def comp_def)
  then have look: "tc_values tc k = Some e \<longleftrightarrow> (k, e) \<in> set ?m" for k e by simp
  have mem: "(k, e) \<in> set ?m \<longleftrightarrow> (\<exists>t. e = t + expiry \<and> (k, t) \<in> set adds \<and> (\<forall>(k', t') \<in> set adds. t' < t + expiry))" for k e
    unfolding entry_mem q by auto
  have dom: "dom (tc_values tc) = {k. \<exists>t. (k, t) \<in> set adds \<and> (\<forall>(k', t') \<in> set adds. t' < t + expiry)}"
    by (auto simp: dom_def look mem simp del: set_map)
  have live: "(\<exists>t. (v, t) \<in> set adds \<and> now < t + expiry) \<longleftrightarrow> (\<exists>e. tc_values tc v = Some e \<and> now < e)"
    unfolding look mem using assms(4) by fastforce
  obtain tc' where tc': "removeExpired tc now = Some tc'" using removeExpired_queue [OF tc(2)] by blast
  have "Timecache_Get tc v now = Some (\<exists>e. tc_values tc v = Some e \<and> now < e, if (\<exists>e. tc_values tc v = Some e \<and> \<not> now < e) then tc' else tc)"
    using tc' by (auto simp: Timecache_Get_def split: option.split)
  then show ?thesis using tc(1) dom unfolding live by blast
qed

theorem timecache_trace_witness:
  "\<exists>tc tc'. add_all 0 (timecache_New (0 :: nat) 1 10) [(7, 1), (8, 2), (9, 5), (7, 12)] = Some tc \<and>
    dom (tc_values tc) = {9, 7} \<and> Timecache_Get tc 8 12 = Some (False, tc')"
proof -
  let ?a = "[(7, 1), (8, 2), (9, 5), (7, 12)] :: (nat \<times> int) list"
  have "timely 10 ?a" "\<forall>(k, t) \<in> set ?a. t \<le> 12" by (simp_all add: timely_def)
  moreover have "{k. \<exists>t. (k, t) \<in> set ?a \<and> (\<forall>(k', t') \<in> set ?a. t' < t + 10)} = {9, 7}" by auto
  moreover have "\<not> (\<exists>t. (8, t) \<in> set ?a \<and> 12 < t + 10)" by auto
  ultimately show ?thesis using timecache_trace [of 10 ?a 1 12 0 8] by simp
qed

end
