(* ===== verification/Propeller_Processor.thy ===== *)
theory Propeller_Processor
  imports Propeller_Subprocessor Timecache
begin

text \<open>
  The processor of Propeller (\<open>Processor\<close> of \<open>consensus/propeller/processor.go\<close>): one worker per message, bounds on the
  number of workers, and a cache of the messages that are finished. The first part has the operations as they run when nothing
  interferes. The second part is the concurrent program: the goroutine of the engine that calls \<open>ProcessMessage\<close>, the goroutine of
  \<open>Run\<close> and the goroutines of the workers take turns, and a turn ends wherever the code may be interrupted between two accesses to
  shared state (a locked section, an access to the map of workers, a communication on a channel). \<open>ProcessMessage\<close> has a single
  caller, the loop of the engine. Accesses to the map are taken not to overlap, which the code does not ensure. A panic in any
  goroutine ends the process, which is \<open>Crashed\<close>. Clock readings are arbitrary, and so is whether the receiver of an unbuffered
  channel is waiting when the engine sends.
\<close>

section \<open>State\<close>

text \<open>A worker is the goroutine started for a message: the arguments it was started with, what it has received, how many invalid
  units it has reported, and whether its end has been received by \<open>Run\<close>. Its channel is its position in the list of workers.\<close>

record 'p worker =
  wk_key :: "'p message_key"
  wk_scheduler :: "'p scheduler"
  wk_localShardIndex :: uint32
  wk_inputs :: "'p sub_input list"
  wk_reported :: nat
  wk_received :: bool

record 'p processor =
  pr_finalized :: "'p message_key time_cache"
  pr_subs :: "'p message_key \<rightharpoonup> nat"
  pr_workers :: "'p worker list"
  pr_publisherTasks :: "'p \<rightharpoonup> uint64"
  pr_tasks :: uint64
  pr_localPeer :: 'p
  pr_timeout :: int
  pr_maxWorkers :: uint64
  pr_maxWorkersPerPublisher :: uint64
  pr_logger :: bool

datatype 'p proc_error =
    ShardIndexError "'p sched_error"
  | PublisherTasksExceeded uint64 'p
  | MaxTasksReached uint64
  | ChannelFull
  | ProcPanic

text \<open>\<open>z\<close> is the zero value of a message key. The logger is not set.\<close>

definition NewProcessor :: "'p message_key \<Rightarrow> 'p \<Rightarrow> int \<Rightarrow> 'p processor" where
  "NewProcessor z localPeer timeout =
     \<lparr> pr_finalized = timecache_New z 2048 timeout, pr_subs = Map.empty, pr_workers = [], pr_publisherTasks = Map.empty, pr_tasks = 0,
       pr_localPeer = localPeer, pr_timeout = timeout, pr_maxWorkers = 1000, pr_maxWorkersPerPublisher = 250, pr_logger = False \<rparr>"

section \<open>Operations\<close>

definition tasks_of :: "'p processor \<Rightarrow> 'p \<Rightarrow> uint64" where
  "tasks_of p publisher = (case pr_publisherTasks p publisher of None \<Rightarrow> 0 | Some n \<Rightarrow> n)"

definition increaseTasks :: "'p processor \<Rightarrow> 'p \<Rightarrow> 'p proc_error + 'p processor" where
  "increaseTasks p publisher =
     (if tasks_of p publisher = pr_maxWorkersPerPublisher p then Inl (PublisherTasksExceeded (tasks_of p publisher) publisher)
      else if pr_tasks p = pr_maxWorkers p then Inl (MaxTasksReached (pr_tasks p))
      else Inr (p\<lparr> pr_publisherTasks := (pr_publisherTasks p)(publisher \<mapsto> tasks_of p publisher + 1), pr_tasks := pr_tasks p + 1 \<rparr>))"

definition decreaseTask :: "'p processor \<Rightarrow> 'p \<Rightarrow> 'p processor" where
  "decreaseTask p publisher =
     p\<lparr> pr_publisherTasks := (pr_publisherTasks p)(publisher \<mapsto> tasks_of p publisher - 1), pr_tasks := pr_tasks p - 1 \<rparr>"

text \<open>The channel is made and entered in the map, and the goroutine is started.\<close>

definition launch :: "'p processor \<Rightarrow> 'p message_key \<Rightarrow> 'p scheduler \<Rightarrow> uint32 \<Rightarrow> nat \<times> 'p processor" where
  "launch p key scheduler localShardIndex =
     (length (pr_workers p),
      p\<lparr> pr_subs := (pr_subs p)(key \<mapsto> length (pr_workers p)),
         pr_workers := pr_workers p @ [\<lparr> wk_key = key, wk_scheduler = scheduler, wk_localShardIndex = localShardIndex, wk_inputs = [],
           wk_reported = 0, wk_received = False \<rparr>] \<rparr>)"

definition createSubprocessor :: "'p::linorder processor \<Rightarrow> 'p message_key \<Rightarrow> 'p scheduler \<Rightarrow> 'p proc_error + nat \<times> 'p processor" where
  "createSubprocessor p key scheduler =
     bindE (mapErr ShardIndexError (ShardIndexForPublisher scheduler (mk_Publisher key))) (\<lambda>localShardIndex.
     bindE (increaseTasks p (mk_Publisher key)) (\<lambda>p.
     Inr (launch p key scheduler localShardIndex)))"

definition subprocessorChannel :: "'p::linorder processor \<Rightarrow> 'p message_key \<Rightarrow> 'p scheduler \<Rightarrow> 'p proc_error + nat \<times> 'p processor" where
  "subprocessorChannel p key scheduler =
     (case pr_subs p key of Some unitChan \<Rightarrow> Inr (unitChan, p) | None \<Rightarrow> createSubprocessor p key scheduler)"

definition send_unit :: "'p processor \<Rightarrow> nat \<Rightarrow> 'p prop_unit \<Rightarrow> 'p \<Rightarrow> 'p processor" where
  "send_unit p unitChan u sender =
     p\<lparr> pr_workers := (pr_workers p)[unitChan := (pr_workers p ! unitChan)\<lparr> wk_inputs := wk_inputs (pr_workers p ! unitChan) @ [Incoming u sender] \<rparr>] \<rparr>"

definition ProcessMessage ::
  "'p::linorder processor \<Rightarrow> 'p prop_unit \<Rightarrow> 'p \<Rightarrow> 'p scheduler \<Rightarrow> int \<Rightarrow> bool \<Rightarrow> ('p proc_error + unit) \<times> 'p processor" where
  "ProcessMessage p u sender scheduler now ready =
     (let key = extractKey u
      in case Timecache_Get (pr_finalized p) key now of
           None \<Rightarrow> (Inl ProcPanic, p)
         | Some (found, tc) \<Rightarrow>
             (let p = p\<lparr> pr_finalized := tc \<rparr>
              in if found then (Inr (), p)
                 else case subprocessorChannel p key scheduler of
                        Inl err \<Rightarrow> (Inl err, p)
                      | Inr (unitChan, p) \<Rightarrow> if ready then (Inr (), send_unit p unitChan u sender) else (Inl ChannelFull, p)))"

definition proc_finalize :: "'p message_key \<Rightarrow> 'p processor \<Rightarrow> 'p message_key \<Rightarrow> int \<Rightarrow> 'p processor option" where
  "proc_finalize z p key now =
     (let p = decreaseTask p (mk_Publisher key);
          p = p\<lparr> pr_subs := (pr_subs p)(key := None) \<rparr>
      in map_option (\<lambda>tc. p\<lparr> pr_finalized := tc \<rparr>) (Add z (pr_finalized p) key now))"

section \<open>The goroutines\<close>

text \<open>What a worker has done with its inputs so far; \<open>NewValidator\<close> panics if the key of the publisher cannot be extracted.\<close>

definition worker_run ::
  "('pk, 'p::linorder) sub_env \<Rightarrow> ('p \<Rightarrow> string + 'pk) \<Rightarrow> 'p processor \<Rightarrow> 'p worker \<Rightarrow> 'p sub_output list \<times> ('p sub_error, unit) outcome" where
  "worker_run env pubKeyOf p w =
     (case newSubprocessor pubKeyOf (mk_Publisher (wk_key w)) (wk_scheduler w) (pr_localPeer p) (wk_localShardIndex w) of
        Inl _ \<Rightarrow> ([], Failed SubPanic)
      | Inr s \<Rightarrow> sub_Run env s (wk_inputs w))"

definition reports :: "('pk, 'p::linorder) sub_env \<Rightarrow> ('p \<Rightarrow> string + 'pk) \<Rightarrow> 'p processor \<Rightarrow> 'p worker \<Rightarrow> 'p sub_output list" where
  "reports env pubKeyOf p w = filter (\<lambda>out. \<not> is_Broadcast out) (fst (worker_run env pubKeyOf p w))"

text \<open>A worker first hands over the invalid units it has to report; then it waits for an input, ends or panics.\<close>

definition worker_at ::
  "('pk, 'p::linorder) sub_env \<Rightarrow> ('p \<Rightarrow> string + 'pk) \<Rightarrow> 'p processor \<Rightarrow> nat \<Rightarrow> ('p sub_error, unit) outcome \<Rightarrow> bool" where
  "worker_at env pubKeyOf p c out \<longleftrightarrow> c < length (pr_workers p) \<and>
     length (reports env pubKeyOf p (pr_workers p ! c)) = wk_reported (pr_workers p ! c) \<and> snd (worker_run env pubKeyOf p (pr_workers p ! c)) = out"

text \<open>A call of \<open>ProcessMessage\<close>, by the next access to shared state.\<close>

type_synonym 'p call = "'p prop_unit \<times> 'p \<times> 'p scheduler"

datatype 'p pm_phase =
    NoCall
  | AtGet "'p call"
  | AtExpiry "'p call" int
  | AtLookup "'p call"
  | AtCreate "'p call"
  | AtLaunch "'p call" uint32
  | AtSend "'p call" nat
  | Returned "'p proc_error + unit"

abbreviation call_key :: "'p call \<Rightarrow> 'p message_key" where
  "call_key c \<equiv> extractKey (fst c)"

fun pm_step :: "bool \<Rightarrow> int \<Rightarrow> 'p::linorder processor \<Rightarrow> 'p pm_phase \<Rightarrow> ('p processor \<times> 'p pm_phase) option" where
  "pm_step ready now p NoCall = Some (p, NoCall)"
| "pm_step ready now p (AtGet c) =
     (case tc_values (pr_finalized p) (call_key c) of None \<Rightarrow> Some (p, AtLookup c) | Some expiry \<Rightarrow> Some (p, AtExpiry c expiry))"
| "pm_step ready now p (AtExpiry c expiry) =
     (if now < expiry then Some (p, Returned (Inr ()))
      else map_option (\<lambda>tc. (p\<lparr> pr_finalized := tc \<rparr>, AtLookup c)) (removeExpired (pr_finalized p) now))"
| "pm_step ready now p (AtLookup c) =
     (case pr_subs p (call_key c) of Some unitChan \<Rightarrow> Some (p, AtSend c unitChan) | None \<Rightarrow> Some (p, AtCreate c))"
| "pm_step ready now p (AtCreate c) =
     (case ShardIndexForPublisher (snd (snd c)) (mk_Publisher (call_key c)) of
        Inl err \<Rightarrow> Some (p, Returned (Inl (ShardIndexError err)))
      | Inr localShardIndex \<Rightarrow>
          (case increaseTasks p (mk_Publisher (call_key c)) of
             Inl err \<Rightarrow> Some (p, Returned (Inl err))
           | Inr p \<Rightarrow> Some (p, AtLaunch c localShardIndex)))"
| "pm_step ready now p (AtLaunch c localShardIndex) =
     (case launch p (call_key c) (snd (snd c)) localShardIndex of (unitChan, p) \<Rightarrow> Some (p, AtSend c unitChan))"
| "pm_step ready now p (AtSend c unitChan) =
     (if ready then Some (send_unit p unitChan (fst c) (fst (snd c)), Returned (Inr ())) else Some (p, Returned (Inl ChannelFull)))"
| "pm_step ready now p (Returned r) = Some (p, NoCall)"

text \<open>The loop of \<open>Run\<close>. Both branches log first, on a logger that may be nil; then \<open>finalize\<close> runs in three accesses.\<close>

datatype 'p proc_signal = SubFinalized "'p message_key" | UnitInvalid "'p message_key" 'p

datatype 'p run_phase = RunIdle | AtDecrease "'p message_key" | AtDelete "'p message_key" | AtAdd "'p message_key"

fun run_receive :: "'p processor \<Rightarrow> 'p proc_signal \<Rightarrow> 'p run_phase option" where
  "run_receive p (SubFinalized key) = (if pr_logger p then Some (AtDecrease key) else None)"
| "run_receive p (UnitInvalid key sender) = (if pr_logger p then Some RunIdle else None)"

fun finalize_step :: "'p message_key \<Rightarrow> int \<Rightarrow> 'p processor \<Rightarrow> 'p run_phase \<Rightarrow> ('p processor \<times> 'p run_phase) option" where
  "finalize_step z now p RunIdle = Some (p, RunIdle)"
| "finalize_step z now p (AtDecrease key) = Some (decreaseTask p (mk_Publisher key), AtDelete key)"
| "finalize_step z now p (AtDelete key) = Some (p\<lparr> pr_subs := (pr_subs p)(key := None) \<rparr>, AtAdd key)"
| "finalize_step z now p (AtAdd key) = map_option (\<lambda>tc. (p\<lparr> pr_finalized := tc \<rparr>, RunIdle)) (Add z (pr_finalized p) key now)"

record 'p proc_state =
  ps_proc :: "'p processor"
  ps_call :: "'p pm_phase"
  ps_run :: "'p run_phase"

datatype 'p proc_world = Crashed | Alive "'p proc_state"

definition alive :: "'p proc_state option \<Rightarrow> 'p proc_world" where
  "alive r = (case r of None \<Rightarrow> Crashed | Some s \<Rightarrow> Alive s)"

definition set_worker :: "nat \<Rightarrow> ('p worker \<Rightarrow> 'p worker) \<Rightarrow> 'p proc_state \<Rightarrow> 'p proc_state" where
  "set_worker c f s = s\<lparr> ps_proc := (ps_proc s)\<lparr> pr_workers := (pr_workers (ps_proc s))[c := f (pr_workers (ps_proc s) ! c)] \<rparr> \<rparr>"

text \<open>One turn of some goroutine. A unit is taken only by a worker that waits for one; the context of a worker may end at any
  time, by its timeout or from outside.\<close>

inductive proc_step ::
  "('pk, 'p::linorder) sub_env \<Rightarrow> ('p \<Rightarrow> string + 'pk) \<Rightarrow> 'p message_key \<Rightarrow> 'p proc_world \<Rightarrow> 'p proc_world \<Rightarrow> bool" for env pubKeyOf z where
  call: "ps_call s = NoCall \<Longrightarrow> proc_step env pubKeyOf z (Alive s) (Alive (s\<lparr> ps_call := AtGet c \<rparr>))"
| engine: "(\<And>c unitChan. ready \<Longrightarrow> ps_call s = AtSend c unitChan \<Longrightarrow> worker_at env pubKeyOf (ps_proc s) unitChan Blocked) \<Longrightarrow>
    proc_step env pubKeyOf z (Alive s)
      (alive (map_option (\<lambda>(p, ph). s\<lparr> ps_proc := p, ps_call := ph \<rparr>) (pm_step ready now (ps_proc s) (ps_call s))))"
| ctx_done: "worker_at env pubKeyOf (ps_proc s) c Blocked \<Longrightarrow>
    proc_step env pubKeyOf z (Alive s) (Alive (set_worker c (\<lambda>w. w\<lparr> wk_inputs := wk_inputs w @ [CtxDone] \<rparr>) s))"
| worker_panic: "worker_at env pubKeyOf (ps_proc s) c (Failed SubPanic) \<Longrightarrow> proc_step env pubKeyOf z (Alive s) Crashed"
| finalized: "ps_run s = RunIdle \<Longrightarrow> worker_at env pubKeyOf (ps_proc s) c out \<Longrightarrow> out = Done () \<or> (\<exists>e. out = Failed e \<and> e \<noteq> SubPanic) \<Longrightarrow>
    \<not> wk_received (pr_workers (ps_proc s) ! c) \<Longrightarrow>
    proc_step env pubKeyOf z (Alive s)
      (alive (map_option (\<lambda>ph. (set_worker c (\<lambda>w. w\<lparr> wk_received := True \<rparr>) s)\<lparr> ps_run := ph \<rparr>)
        (run_receive (ps_proc s) (SubFinalized (wk_key (pr_workers (ps_proc s) ! c))))))"
| invalid: "ps_run s = RunIdle \<Longrightarrow> c < length (pr_workers (ps_proc s)) \<Longrightarrow> w = pr_workers (ps_proc s) ! c \<Longrightarrow>
    wk_reported w < length (reports env pubKeyOf (ps_proc s) w) \<Longrightarrow> reports env pubKeyOf (ps_proc s) w ! wk_reported w = InvalidUnit key sender err \<Longrightarrow>
    proc_step env pubKeyOf z (Alive s)
      (alive (map_option (\<lambda>ph. (set_worker c (\<lambda>w. w\<lparr> wk_reported := wk_reported w + 1 \<rparr>) s)\<lparr> ps_run := ph \<rparr>)
        (run_receive (ps_proc s) (UnitInvalid key sender))))"
| run: "proc_step env pubKeyOf z (Alive s)
      (alive (map_option (\<lambda>(p, ph). s\<lparr> ps_proc := p, ps_run := ph \<rparr>) (finalize_step z now (ps_proc s) (ps_run s))))"

text \<open>The state in which the goroutines start.\<close>

definition start :: "'p processor \<Rightarrow> 'p proc_state" where
  "start p = \<lparr> ps_proc = p, ps_call = NoCall, ps_run = RunIdle \<rparr>"

section \<open>The phases are the operations\<close>

text \<open>Run without interruption, the phases of a call are \<open>ProcessMessage\<close>, and those of \<open>Run\<close> are \<open>finalize\<close>.\<close>

fun pm_run :: "nat \<Rightarrow> bool \<Rightarrow> int \<Rightarrow> 'p::linorder processor \<Rightarrow> 'p pm_phase \<Rightarrow> ('p processor \<times> 'p pm_phase) option" where
  "pm_run n ready now p (Returned r) = Some (p, Returned r)"
| "pm_run 0 ready now p ph = Some (p, ph)"
| "pm_run (Suc n) ready now p ph = (case pm_step ready now p ph of None \<Rightarrow> None | Some (p, ph) \<Rightarrow> pm_run n ready now p ph)"

lemma lookup_phases:
  "pm_run 4 ready now p (AtLookup (u, sender, sch)) =
     (case subprocessorChannel p (extractKey u) sch of
        Inl err \<Rightarrow> Some (p, Returned (Inl err))
      | Inr (c, p) \<Rightarrow> Some (if ready then (send_unit p c u sender, Returned (Inr ())) else (p, Returned (Inl ChannelFull))))"
  by (auto simp: numeral_eq_Suc subprocessorChannel_def createSubprocessor_def launch_def split: option.split sum.split)

lemma ProcessMessage_phases:
  "pm_run 6 ready now p (AtGet (u, sender, sch)) =
     (case Timecache_Get (pr_finalized p) (extractKey u) now of
        None \<Rightarrow> None
      | Some _ \<Rightarrow> (case ProcessMessage p u sender sch now ready of (r, p') \<Rightarrow> Some (p', Returned r)))"
proof -
  have more: "pm_run (Suc 4) ready now q (AtLookup (u, sender, sch)) = pm_run 4 ready now q (AtLookup (u, sender, sch))" for q
    by (auto simp: numeral_eq_Suc launch_def split: option.split sum.split)
  have "pm_run (Suc (Suc n)) ready now p (AtGet (u, sender, sch)) =
      (case tc_values (pr_finalized p) (extractKey u) of
         None \<Rightarrow> pm_run (Suc n) ready now p (AtLookup (u, sender, sch))
       | Some e \<Rightarrow> if now < e then Some (p, Returned (Inr ()))
           else case removeExpired (pr_finalized p) now of None \<Rightarrow> None
                | Some tc \<Rightarrow> pm_run n ready now (p\<lparr> pr_finalized := tc \<rparr>) (AtLookup (u, sender, sch)))" for n
    by (auto split: option.split)
  from this [of 4] have "pm_run 6 ready now p (AtGet (u, sender, sch)) =
      (case tc_values (pr_finalized p) (extractKey u) of
         None \<Rightarrow> pm_run 4 ready now p (AtLookup (u, sender, sch))
       | Some e \<Rightarrow> if now < e then Some (p, Returned (Inr ()))
           else case removeExpired (pr_finalized p) now of None \<Rightarrow> None
                | Some tc \<Rightarrow> pm_run 4 ready now (p\<lparr> pr_finalized := tc \<rparr>) (AtLookup (u, sender, sch)))"
    unfolding more by simp
  then show ?thesis unfolding lookup_phases
    by (auto simp: ProcessMessage_def Timecache_Get_def Let_def split: option.split sum.split prod.split)
qed

lemma finalize_phases:
  "proc_finalize z p key now =
     (case finalize_step z now p (AtDecrease key) of None \<Rightarrow> None | Some (p, ph) \<Rightarrow>
      case finalize_step z now p ph of None \<Rightarrow> None | Some (p, ph) \<Rightarrow> map_option fst (finalize_step z now p ph))"
  by (simp add: proc_finalize_def Let_def option.map_comp o_def)

text \<open>A zero value, for the examples.\<close>

abbreviation ex_zero :: "nat message_key" where
  "ex_zero \<equiv> \<lparr> mk_CommitteeID = [], mk_Publisher = 0, mk_Root = replicate 32 0, mk_Nonce = 0 \<rparr>"

end
