(* ===== verification/Propeller_Engine.thy ===== *)
theory Propeller_Engine
  imports Propeller_Processor "HOL-Library.List_Lexorder"
begin

text \<open>
  The engine and the service of Propeller (\<open>consensus/propeller/engine.go\<close>, \<open>propeller.go\<close>). The engine keeps the registered
  committees and runs commands one at a time; a broadcast is prepared in a goroutine of its own, whose result waits in
  \<open>eg_preparing\<close> until it is sent. \<open>engine_Run_step\<close> is one turn of the loop of \<open>Run\<close>, with the replies it sends on the error
  channels; a channel is a number. \<open>None\<close> stands for a panic. Keys and signatures, the erasure code, the wire format and the host
  are arguments. The service talks to the engine through \<open>receiveUnits\<close> and \<open>handleEvent\<close>.
\<close>

section \<open>State\<close>

text \<open>The field \<open>peerKeys\<close> of the state of a committee is always nil.\<close>

record 'p committee_state =
  cs_scheduler :: "'p scheduler"

datatype 'p engine_error =
    CannotRegister "'p sched_error"
  | BroadcastUnregistered "uint8 list"
  | CannotPrepare shard_error
  | TargetNotFound "uint8 list"
  | DifferentAmounts nat nat
  | EnginePanic

type_synonym 'p prepared = "nat \<times> (shard_error + 'p prop_unit list)"

record ('sk, 'p) engine =
  eg_privKey :: 'sk
  eg_localPeer :: 'p
  eg_processor :: "'p processor"
  eg_committees :: "uint8 list \<rightharpoonup> 'p committee_state"
  eg_preparing :: "'p prepared list"

text \<open>A command is sent as a pointer or as a value: both implement the interface, and the switch of \<open>handleCommand\<close> lists the
  pointer types only.\<close>

datatype 'p engine_command =
    RegisterCommittee "uint8 list" "'p peer_committee list" nat
  | UnregisterCommittee "uint8 list"
  | Broadcast "uint8 list" "uint8 list" nat
  | ProcessUnit "'p prop_unit" 'p
  | ProcessUnitValue "'p prop_unit" 'p

record ('sk, 'p) engine_env =
  ee_rs :: rs_lib
  ee_idOf :: "'sk \<Rightarrow> string + 'p"
  ee_sign :: "'sk \<Rightarrow> uint8 list \<Rightarrow> string + uint8 list"

section \<open>The engine\<close>

definition NewEngine :: "('sk, 'p) engine_env \<Rightarrow> 'p message_key \<Rightarrow> 'sk \<Rightarrow> int \<Rightarrow> ('sk, 'p) engine option" where
  "NewEngine env z privKey timeout =
     (case ee_idOf env privKey of
        Inl err \<Rightarrow> None
      | Inr peerID \<Rightarrow>
          Some \<lparr> eg_privKey = privKey, eg_localPeer = peerID, eg_processor = NewProcessor z peerID timeout,
            eg_committees = Map.empty, eg_preparing = [] \<rparr>)"

definition eg_registerCommittee ::
  "('sk, 'p::linorder) engine \<Rightarrow> uint8 list \<Rightarrow> 'p peer_committee list \<Rightarrow> 'p engine_error + ('sk, 'p) engine" where
  "eg_registerCommittee e committeeID nodes =
     (case eg_committees e committeeID of
        Some _ \<Rightarrow> Inr e
      | None \<Rightarrow>
          bindE (mapErr CannotRegister (NewScheduler (eg_localPeer e) nodes)) (\<lambda>schedule.
          Inr (e\<lparr> eg_committees := (eg_committees e)(committeeID \<mapsto> \<lparr> cs_scheduler = schedule \<rparr>) \<rparr>)))"

definition eg_unregisterCommittee :: "('sk, 'p) engine \<Rightarrow> uint8 list \<Rightarrow> ('sk, 'p) engine" where
  "eg_unregisterCommittee e committeeID = e\<lparr> eg_committees := (eg_committees e)(committeeID := None) \<rparr>"

definition prepareUnitsForBroadcast ::
  "('sk, 'p) engine_env \<Rightarrow> ('sk, 'p) engine \<Rightarrow> uint8 list \<Rightarrow> uint8 list \<Rightarrow> uint64 \<Rightarrow> nat \<Rightarrow> 'p engine_error + ('sk, 'p) engine" where
  "prepareUnitsForBroadcast env e committeeID data now errCh =
     (case eg_committees e committeeID of
        None \<Rightarrow> Inl (BroadcastUnregistered committeeID)
      | Some cs \<Rightarrow>
          Inr (e\<lparr> eg_preparing := eg_preparing e @
            [(errCh, CreatePropellerUnits (ee_rs env) (ee_idOf env) (ee_sign env) (eg_privKey e) committeeID now data
               (numDataShards (cs_scheduler cs)) (numCodingShards (cs_scheduler cs)))] \<rparr>))"

definition eg_broadcast :: "('sk, 'p) engine \<Rightarrow> 'p prop_unit list \<Rightarrow> 'p engine_error + unit" where
  "eg_broadcast e units =
     (case slice_get units 0 of
        None \<Rightarrow> Inl EnginePanic
      | Some u \<Rightarrow>
          (case eg_committees e (u_CommitteeID u) of
             None \<Rightarrow> Inl (TargetNotFound (u_CommitteeID u))
           | Some cs \<Rightarrow>
               (let targetPeers = BroadcastTargets (cs_scheduler cs)
                in if length targetPeers \<noteq> length units then Inl (DifferentAmounts (length targetPeers) (length units))
                   else Inr ())))"

definition eg_processUnit :: "('sk, 'p::linorder) engine \<Rightarrow> 'p prop_unit \<Rightarrow> 'p \<Rightarrow> int \<Rightarrow> bool \<Rightarrow> ('sk, 'p) engine option" where
  "eg_processUnit e u sender now ready =
     (case eg_committees e (u_CommitteeID u) of
        None \<Rightarrow> Some e
      | Some cs \<Rightarrow>
          (case ProcessMessage (eg_processor e) u sender (cs_scheduler cs) now ready of
             (Inl ProcPanic, p) \<Rightarrow> None
           | (r, p) \<Rightarrow> Some (e\<lparr> eg_processor := p \<rparr>)))"

text \<open>The replies: a channel with nil or an error.\<close>

type_synonym 'p reply = "nat \<times> 'p engine_error option"

fun handleCommand ::
  "('sk, 'p::linorder) engine_env \<Rightarrow> ('sk, 'p) engine \<Rightarrow> int \<Rightarrow> bool \<Rightarrow> 'p engine_command \<Rightarrow> (('sk, 'p) engine \<times> 'p reply list) option" where
  "handleCommand env e now ready (RegisterCommittee committeeID nodes errCh) =
     (case eg_registerCommittee e committeeID nodes of
        Inl err \<Rightarrow> Some (e, [(errCh, Some err)])
      | Inr e \<Rightarrow> Some (e, [(errCh, None)]))"
| "handleCommand env e now ready (UnregisterCommittee committeeID) = Some (eg_unregisterCommittee e committeeID, [])"
| "handleCommand env e now ready (Broadcast committeeID msg errCh) =
     (case prepareUnitsForBroadcast env e committeeID msg (of_int now) errCh of
        Inl err \<Rightarrow> Some (e, [(errCh, Some err)])
      | Inr e \<Rightarrow> Some (e, []))"
| "handleCommand env e now ready (ProcessUnit u sender) = map_option (\<lambda>e. (e, [])) (eg_processUnit e u sender now ready)"
| "handleCommand env e now ready (ProcessUnitValue u sender) = Some (e, [])"

text \<open>One turn of the loop: a command arrives, or the goroutine of a broadcast has its result ready. A goroutine that failed
  replies by itself. The end of the context, after which the loop takes no turn, is not an event.\<close>

datatype 'p engine_event = Command int bool "'p engine_command" | UnitsPrepared nat

fun engine_Run_step ::
  "('sk, 'p::linorder) engine_env \<Rightarrow> ('sk, 'p) engine \<Rightarrow> 'p engine_event \<Rightarrow> (('sk, 'p) engine \<times> 'p reply list) option" where
  "engine_Run_step env e (Command now ready cmd) = handleCommand env e now ready cmd"
| "engine_Run_step env e (UnitsPrepared k) =
     (case slice_get (eg_preparing e) k of
        None \<Rightarrow> Some (e, [])
      | Some (errCh, r) \<Rightarrow>
          (let e = e\<lparr> eg_preparing := take k (eg_preparing e) @ drop (Suc k) (eg_preparing e) \<rparr>
           in case r of
                Inl ShardingPanic \<Rightarrow> None
              | Inl err \<Rightarrow> Some (e, [(errCh, Some (CannotPrepare err))])
              | Inr units \<Rightarrow>
                  (case eg_broadcast e units of
                     Inl EnginePanic \<Rightarrow> None
                   | Inl err \<Rightarrow> Some (e, [(errCh, Some err)])
                   | Inr _ \<Rightarrow> Some (e, [(errCh, None)]))))"

fun engine_Run ::
  "('sk, 'p::linorder) engine_env \<Rightarrow> ('sk, 'p) engine \<Rightarrow> 'p engine_event list \<Rightarrow> (('sk, 'p) engine \<times> 'p reply list) option" where
  "engine_Run env e [] = Some (e, [])"
| "engine_Run env e (ev # evs) =
     (case engine_Run_step env e ev of
        None \<Rightarrow> None
      | Some (e, out) \<Rightarrow> map_option (\<lambda>(e, out'). (e, out @ out')) (engine_Run env e evs))"

section \<open>The service\<close>

text \<open>The bytes of a stream, cut at the limit, are decoded by \<open>unmarshal\<close> into a batch of wire units; an error while reading or
  decoding is logged only, so the batch is whatever was decoded. The commands are sent by value.\<close>

fun send_batch :: "proto_unit list \<Rightarrow> uint8 list \<Rightarrow> uint8 list engine_command list option" where
  "send_batch [] sender = Some []"
| "send_batch (pu # batch) sender =
     (case UnitFromProto pu of
        Inl ProtoPanic \<Rightarrow> None
      | Inl UnequalShards \<Rightarrow> send_batch batch sender
      | Inr u \<Rightarrow> map_option (\<lambda>cmds. ProcessUnitValue u sender # cmds) (send_batch batch sender))"

definition receiveUnits ::
  "nat \<Rightarrow> (uint8 list \<Rightarrow> proto_unit list) \<Rightarrow> uint8 list \<Rightarrow> uint8 list \<Rightarrow> uint8 list engine_command list option" where
  "receiveUnits maxWireMessageSize unmarshal stream sender = send_batch (unmarshal (take maxWireMessageSize stream)) sender"

text \<open>Sending stops the program at the first peer that cannot be reached. \<open>messageRecv\<close> is never created, so a finalized message is sent on a
  nil channel, which blocks for ever.\<close>

datatype service_event = MessageFinalized "uint8 list" | BroadcastUnit "uint8 list prop_unit" "uint8 list list"
  | BroadcastMessage "uint8 list prop_unit list"

datatype service_outcome = Handled | BlockedForEver | ServicePanic

fun service_broadcastUnit ::
  "(uint8 list \<Rightarrow> uint8 list \<Rightarrow> bool) \<Rightarrow> uint8 list \<Rightarrow> uint8 list list \<Rightarrow> (uint8 list \<times> uint8 list) list \<times> service_outcome" where
  "service_broadcastUnit sendToPeer data [] = ([], Handled)"
| "service_broadcastUnit sendToPeer data (p # ps) =
     (if sendToPeer p data then (let (sent, r) = service_broadcastUnit sendToPeer data ps in ((p, data) # sent, r))
      else ([], ServicePanic))"

fun handleEvent ::
  "(proto_unit list \<Rightarrow> string + uint8 list) \<Rightarrow> (uint8 list \<Rightarrow> uint8 list \<Rightarrow> bool) \<Rightarrow> service_event \<Rightarrow>
   (uint8 list \<times> uint8 list) list \<times> service_outcome" where
  "handleEvent marshal sendToPeer (MessageFinalized message) = ([], BlockedForEver)"
| "handleEvent marshal sendToPeer (BroadcastUnit u ps) =
     (case marshal [ToProto u] of
        Inl err \<Rightarrow> ([], ServicePanic)
      | Inr data \<Rightarrow> service_broadcastUnit sendToPeer data ps)"
| "handleEvent marshal sendToPeer (BroadcastMessage us) = ([], Handled)"

section \<open>Creating the units of a broadcast\<close>

lemma CreatePropellerUnits_ok:
  assumes "rs_laws rs d p" and "0 < d" and "length m + 10 + 2 * d < 2 ^ 61" and "idOf sk = Inr i" and "\<And>x. \<exists>sg. sign sk x = Inr sg"
  shows "\<exists>us. CreatePropellerUnits rs idOf sign sk c nonce m d p = Inr us \<and> length us = d + p \<and> (\<forall>u \<in> set us. u_CommitteeID u = c)"
proof -
  have small: "length m + length ([] :: uint8 list) < 2 ^ 62" "d < 2 ^ 60" using assms(3) by simp_all
  obtain padded where pad: "PadMessage m d = Inr padded" "length padded mod (2 * d) = 0" "UnpadMessage (padded @ []) = Inr m"
    using unpad_PadMessage [OF small(1) assms(2) small(2)] by (elim exE conjE) (rule that)
  have "UnpadMessage [] \<noteq> Inr m" by (simp add: UnpadMessage_def Uvarint_def)
  then have ne: "padded \<noteq> []" using pad(3) by auto
  obtain es where es: "EncodeData rs padded d p = Inr es" "encodes rs d p es (length padded div d)"
    using EncodeData_laws [OF assms(1) ne mod_double [OF pad(2)]] by (elim exE conjE) (rule that)
  then have len: "length es = d + p" by (simp add: encodes_def)
  then have "es \<noteq> []" using assms(2) by auto
  then obtain root tree where tree: "merkle_New es = Some (root, tree)" "length tree = length es"
    using New_tree [of es] by simp
  obtain sg where "SignMessage sign sk root c nonce = Inr sg" using assms(5) by (auto simp: SignMessage_def)
  then show ?thesis using assms(4) pad(1) es(1) tree len by (simp add: CreatePropellerUnits_def)
qed

section \<open>Runs of the engine\<close>

fun uses :: "nat \<Rightarrow> 'p engine_event \<Rightarrow> bool" where
  "uses ch (Command now ready (RegisterCommittee c nodes errCh)) \<longleftrightarrow> errCh = ch"
| "uses ch (Command now ready (Broadcast c m errCh)) \<longleftrightarrow> errCh = ch"
| "uses ch ev \<longleftrightarrow> False"

fun unregisters :: "uint8 list \<Rightarrow> 'p engine_event \<Rightarrow> bool" where
  "unregisters c (Command now ready (UnregisterCommittee c')) \<longleftrightarrow> c' = c"
| "unregisters c ev \<longleftrightarrow> False"

definition on_channel :: "nat \<Rightarrow> (nat \<times> 'a) list \<Rightarrow> (nat \<times> 'a) list" where
  "on_channel ch xs = filter (\<lambda>x. fst x = ch) xs"

lemma on_channel_simps [simp]: "on_channel ch [] = []" "on_channel ch (xs @ ys) = on_channel ch xs @ on_channel ch ys"
  "on_channel ch (x # xs) = (if fst x = ch then x # on_channel ch xs else on_channel ch xs)"
  by (simp_all add: on_channel_def)

text \<open>Every committee has a scheduler of \<open>NewScheduler\<close>.\<close>

definition engine_inv :: "('sk, 'p::linorder) engine \<Rightarrow> bool" where
  "engine_inv e \<longleftrightarrow> (\<forall>c cs. eg_committees e c = Some cs \<longrightarrow> sched_inv (cs_scheduler cs))"

text \<open>What a turn does to the engine.\<close>

lemma Run_step_cases:
  assumes "engine_Run_step env e ev = Some (e', out)"
  obtains (register) now ready c nodes ch where "ev = Command now ready (RegisterCommittee c nodes ch)"
      "e' = e \<or> eg_committees e c = None \<and> (\<exists>s. NewScheduler (eg_localPeer e) nodes = Inr s \<and>
         e' = e\<lparr> eg_committees := (eg_committees e)(c \<mapsto> \<lparr> cs_scheduler = s \<rparr>) \<rparr>)" "(\<exists>r. out = [(ch, r)])"
  | (unregister) now ready c where "ev = Command now ready (UnregisterCommittee c)"
      "e' = e\<lparr> eg_committees := (eg_committees e)(c := None) \<rparr>" "out = []"
  | (broadcast) now ready c m ch r where "ev = Command now ready (Broadcast c m ch)"
      "e' = e \<and> (\<exists>r. out = [(ch, r)]) \<or> e' = e\<lparr> eg_preparing := eg_preparing e @ [(ch, r)] \<rparr> \<and> out = []"
  | (unit) p where "e' = e\<lparr> eg_processor := p \<rparr>" "out = []"
  | (prepared) k where "ev = UnitsPrepared k" "k < length (eg_preparing e)"
      "e' = e\<lparr> eg_preparing := take k (eg_preparing e) @ drop (Suc k) (eg_preparing e) \<rparr>"
      "\<exists>r. out = [(fst (eg_preparing e ! k), r)] \<and> (\<forall>us. snd (eg_preparing e ! k) = Inr us \<longrightarrow> eg_broadcast e' us = Inr () \<longrightarrow> r = None)"
proof (cases ev)
  case (Command now ready cmd)
  note cmd = Command
  show ?thesis
  proof (cases cmd)
    case (RegisterCommittee c nodes ch)
    then show ?thesis using assms cmd
      by (intro register [of now ready c nodes ch]) (auto simp: eg_registerCommittee_def bindE_Inr split: option.splits sum.splits elim!: mapErr.elims)
  next
    case (UnregisterCommittee c)
    then show ?thesis using assms cmd by (intro unregister [of now ready c]) (auto simp: eg_unregisterCommittee_def)
  next
    case (Broadcast c m ch)
    then show ?thesis using assms cmd broadcast [of now ready c m ch]
      by (auto simp: prepareUnitsForBroadcast_def split: option.splits)
  next
    case (ProcessUnit u sender)
    then show ?thesis using assms cmd unit [of "eg_processor e"] unit
      by (auto simp: eg_processUnit_def split: option.splits prod.splits sum.splits proc_error.splits)
  next
    case (ProcessUnitValue u sender)
    then show ?thesis using assms cmd unit [of "eg_processor e"] by simp
  qed
next
  case (UnitsPrepared k)
  show ?thesis
  proof (cases "k < length (eg_preparing e)")
    case True
    then show ?thesis using assms UnitsPrepared
      by (intro prepared [of k])
        (auto simp: Let_def split: prod.splits sum.splits shard_error.splits engine_error.splits)
  next
    case False
    then show ?thesis using assms UnitsPrepared unit [of "eg_processor e"] by (simp add: slice_get_def)
  qed
qed

lemma Run_step_committee:
  assumes "engine_Run_step env e ev = Some (e', out)"
  shows "eg_privKey e' = eg_privKey e \<and> (eg_committees e c = Some cs \<longrightarrow> \<not> unregisters c ev \<longrightarrow> eg_committees e' c = Some cs)"
  using assms by (cases rule: Run_step_cases) auto

lemma Run_step_inv:
  assumes "engine_Run_step env e ev = Some (e', out)" and "engine_inv e"
  shows "engine_inv e'"
  using assms(1)
proof (cases rule: Run_step_cases)
  case (register now ready c nodes ch)
  then show ?thesis using assms(2) NewScheduler_inv(1) [of "eg_localPeer e" nodes] by (auto simp: engine_inv_def split: if_splits)
next
  case (broadcast now ready c m ch r)
  then show ?thesis using assms(2) by (auto simp: engine_inv_def)
qed (use assms(2) in \<open>simp_all add: engine_inv_def\<close>)

lemma Run_step_idle:
  assumes "engine_Run_step env e ev = Some (e', out)" and "on_channel ch (eg_preparing e) = []" and "\<not> uses ch ev"
  shows "on_channel ch (eg_preparing e') = [] \<and> on_channel ch out = []"
  using assms(1)
proof (cases rule: Run_step_cases)
  case (prepared k)
  have ne: "fst x \<noteq> ch" if "x \<in> set (eg_preparing e)" for x using assms(2) that by (auto simp: on_channel_def filter_empty_conv)
  have "set (eg_preparing e') \<subseteq> set (eg_preparing e)" using prepared(3) by (auto dest: in_set_takeD in_set_dropD)
  then have "on_channel ch (eg_preparing e') = []" using ne unfolding on_channel_def filter_empty_conv by blast
  then show ?thesis using prepared(4) ne [OF nth_mem [OF prepared(2)]] by auto
qed (use assms(2,3) in \<open>auto simp: on_channel_def filter_empty_conv\<close>)

lemma singleton_split: "[x] = xs @ y # ys \<Longrightarrow> xs = [] \<and> y = x \<and> ys = []"
  by (cases xs) auto

lemma Run_step_pending:
  assumes "engine_Run_step env e ev = Some (e', out)" and "on_channel ch (eg_preparing e) = [(ch, Inr us)]" and "\<not> uses ch ev"
    and "eg_broadcast e us = Inr ()"
  shows "on_channel ch (eg_preparing e') = [(ch, Inr us)] \<and> on_channel ch out = [] \<or>
    on_channel ch (eg_preparing e') = [] \<and> on_channel ch out = [(ch, None)]"
  using assms(1)
proof (cases rule: Run_step_cases)
  case (prepared k)
  let ?p = "eg_preparing e"
  have split: "?p = take k ?p @ ?p ! k # drop (Suc k) ?p" using prepared(2) by (rule id_take_nth_drop)
  obtain r where out: "out = [(fst (?p ! k), r)]" "\<And>us. snd (?p ! k) = Inr us \<Longrightarrow> eg_broadcast e' us = Inr () \<Longrightarrow> r = None"
    using prepared(4) by blast
  have same: "eg_broadcast e' us = eg_broadcast e us" by (simp add: prepared(3) eg_broadcast_def cong: option.case_cong)
  have p': "eg_preparing e' = take k ?p @ drop (Suc k) ?p" by (simp add: prepared(3))
  have o: "on_channel ch ?p = on_channel ch (take k ?p) @ on_channel ch [?p ! k] @ on_channel ch (drop (Suc k) ?p)"
    using arg_cong [OF split, of "on_channel ch"] by simp
  show ?thesis
  proof (cases "fst (?p ! k) = ch")
    case True
    then have "[(ch, Inr us)] = on_channel ch (take k ?p) @ ?p ! k # on_channel ch (drop (Suc k) ?p)" using o assms(2) by simp
    from singleton_split [OF this] show ?thesis using out same assms(4) p' by simp
  next
    case False
    then show ?thesis using out(1) p' o assms(2) by simp
  qed
qed (use assms(2,3) in \<open>auto simp: on_channel_def filter_empty_conv\<close>)

lemma eg_broadcast_ok:
  assumes "eg_committees e c = Some cs" and "sched_inv (cs_scheduler cs)" and "length us = length (peers (cs_scheduler cs)) - 1"
    and "\<forall>u \<in> set us. u_CommitteeID u = c"
  shows "eg_broadcast e us = Inr ()"
proof -
  have "us \<noteq> []" using assms(2,3) by (auto simp: sched_inv_def)
  then have "slice_get us 0 = Some (us ! 0)" "u_CommitteeID (us ! 0) = c" using assms(4) by simp_all
  then show ?thesis using assms(1,3) BroadcastTargets_at(1) [OF assms(2)] by (simp add: eg_broadcast_def)
qed

lemma Run_Cons: "engine_Run env e (ev # evs) = Some (e', out) \<longleftrightarrow>
    (\<exists>e1 out1 out2. engine_Run_step env e ev = Some (e1, out1) \<and> engine_Run env e1 evs = Some (e', out2) \<and> out = out1 @ out2)"
  by (auto split: option.splits)

lemma Run_append: "engine_Run env e evs = Some (e1, out1) \<Longrightarrow>
    engine_Run env e (evs @ evs') = map_option (\<lambda>(e', out). (e', out1 @ out)) (engine_Run env e1 evs')"
proof (induction evs arbitrary: e out1)
  case Nil
  then show ?case by (cases "engine_Run env e evs'") auto
next
  case (Cons ev evs)
  then obtain e2 o1 o2 where "engine_Run_step env e ev = Some (e2, o1)" "engine_Run env e2 evs = Some (e1, o2)" "out1 = o1 @ o2"
    unfolding Run_Cons by blast
  then show ?case using Cons.IH [of e2 o2] by (cases "engine_Run env e1 evs'") auto
qed

lemma Run_inv:
  assumes "engine_Run env e evs = Some (e', out)"
  shows "engine_inv e \<Longrightarrow> engine_inv e'" and "eg_privKey e' = eg_privKey e"
    and "eg_committees e c = Some cs \<Longrightarrow> \<forall>ev \<in> set evs. \<not> unregisters c ev \<Longrightarrow> eg_committees e' c = Some cs"
    and "on_channel ch (eg_preparing e) = [] \<Longrightarrow> \<forall>ev \<in> set evs. \<not> uses ch ev \<Longrightarrow>
      on_channel ch (eg_preparing e') = [] \<and> on_channel ch out = []"
  using assms
proof (induction evs arbitrary: e out)
  case (Cons ev evs)
  {
    case 1
    then show ?case using Cons.IH(1) Run_step_inv unfolding Run_Cons by blast
  next
    case 2
    then show ?case using Cons.IH(2) Run_step_committee unfolding Run_Cons by metis
  next
    case 3
    then obtain e1 out1 out2 where s: "engine_Run_step env e ev = Some (e1, out1)" "engine_Run env e1 evs = Some (e', out2)"
      unfolding Run_Cons by blast
    then show ?case using Cons.IH(3) [of e1 out2] Run_step_committee [OF s(1), of c cs] 3 by simp
  next
    case 4
    then obtain e1 out1 out2 where s: "engine_Run_step env e ev = Some (e1, out1)" "engine_Run env e1 evs = Some (e', out2)" "out = out1 @ out2"
      unfolding Run_Cons by blast
    then show ?case using Cons.IH(4) [of e1 out2] Run_step_idle [OF s(1), of ch] 4 by simp
  }
qed simp_all

lemma Run_pending:
  assumes "engine_Run env e evs = Some (e', out)" and "on_channel ch (eg_preparing e) = [(ch, Inr us)]"
    and "\<forall>ev \<in> set evs. \<not> uses ch ev \<and> \<not> unregisters c ev"
    and "eg_committees e c = Some cs" and "sched_inv (cs_scheduler cs)" and "length us = length (peers (cs_scheduler cs)) - 1"
    and "\<forall>u \<in> set us. u_CommitteeID u = c"
  shows "on_channel ch (eg_preparing e') = [(ch, Inr us)] \<and> on_channel ch out = [] \<or>
    on_channel ch (eg_preparing e') = [] \<and> on_channel ch out = [(ch, None)]"
  using assms(1-4)
proof (induction evs arbitrary: e out)
  case (Cons ev evs)
  from Cons.prems(1) obtain e1 out1 out2
    where s: "engine_Run_step env e ev = Some (e1, out1)" "engine_Run env e1 evs = Some (e', out2)" "out = out1 @ out2"
    unfolding Run_Cons by blast
  have c1: "eg_committees e1 c = Some cs" using Run_step_committee [OF s(1), of c cs] Cons.prems(3,4) by simp
  from Run_step_pending [OF s(1) Cons.prems(2) _ eg_broadcast_ok [OF Cons.prems(4) assms(5-7)]] Cons.prems(3)
  consider "on_channel ch (eg_preparing e1) = [(ch, Inr us)]" "on_channel ch out1 = []"
    | "on_channel ch (eg_preparing e1) = []" "on_channel ch out1 = [(ch, None)]" by auto
  then show ?case
  proof cases
    case 1
    then show ?thesis using Cons.IH [OF s(2) 1(1) _ c1] Cons.prems(3) s(3) by simp
  next
    case 2
    then show ?thesis using Run_inv(4) [OF s(2) 2(1)] Cons.prems(3) s(3) by simp
  qed
qed simp

section \<open>An example\<close>

abbreviation ex_engine_env :: "(unit, nat) engine_env" where
  "ex_engine_env \<equiv> \<lparr> ee_rs = copies, ee_idOf = (\<lambda>_. Inr 3), ee_sign = (\<lambda>_ _. Inr [1]) \<rparr>"

abbreviation ex_wire :: proto_unit where
  "ex_wire \<equiv> \<lparr> pb_Shards = Some [[1]], pb_Index = 0, pb_MerkleRoot = Some (replicate 32 0), pb_MerkleProof = None,
     pb_Publisher = Some [7], pb_Signature = [1], pb_CommitteeId = None, pb_Nonce = 0 \<rparr>"

section \<open>Properties\<close>

text \<open>C11: A broadcast to a registered committee succeeds. Whatever commands and results the engine handles before and after, as long
  as the committee is not unregistered, nothing but nil is ever sent to the caller, at most once; and as long as it has not been
  sent, the engine has a turn that sends it. This needs a key that signs, an erasure code that keeps its documented promises, a
  message that fits, and an error channel of the call's own.\<close>

theorem broadcast_replies:
  assumes "NewEngine env z sk timeout = Some e0" and "engine_Run env e0 evs1 = Some (e1, out1)"
    and "engine_Run env e0 (evs1 @ Command now ready (Broadcast c msg ch) # evs2) = Some (e, out)"
    and "eg_committees e1 c = Some cs"
    and "\<forall>ev \<in> set evs1. \<not> uses ch ev" and "\<forall>ev \<in> set evs2. \<not> uses ch ev \<and> \<not> unregisters c ev"
    and "rs_laws (ee_rs env) (numDataShards (cs_scheduler cs)) (numCodingShards (cs_scheduler cs))"
    and "length msg + 10 + 2 * numDataShards (cs_scheduler cs) < 2 ^ 61" and "\<forall>x. \<exists>sg. ee_sign env sk x = Inr sg"
  shows "on_channel ch out = [(ch, None)] \<or>
    on_channel ch out = [] \<and> (\<exists>k e'. engine_Run_step env e (UnitsPrepared k) = Some (e', [(ch, None)]))"
proof -
  let ?s = "cs_scheduler cs"
  obtain l where e0: "ee_idOf env sk = Inr l" "eg_privKey e0 = sk" "engine_inv e0" "eg_preparing e0 = []"
    using assms(1) by (auto simp: NewEngine_def engine_inv_def split: sum.splits)
  have e1: "engine_inv e1" "eg_privKey e1 = sk" "on_channel ch (eg_preparing e1) = []" "on_channel ch out1 = []"
    using Run_inv [OF assms(2)] e0 assms(5) by simp_all
  have s: "sched_inv ?s" using e1(1) assms(4) by (simp add: engine_inv_def)
  have d: "0 < numDataShards ?s" "numDataShards ?s + numCodingShards ?s = length (peers ?s) - 1"
    using s by (auto simp: sched_inv_def max_def)
  obtain us where us: "CreatePropellerUnits (ee_rs env) (ee_idOf env) (ee_sign env) sk c (of_int now) msg (numDataShards ?s) (numCodingShards ?s) = Inr us"
    "length us = length (peers ?s) - 1" "\<forall>u \<in> set us. u_CommitteeID u = c"
    using CreatePropellerUnits_ok [OF assms(7) d(1) assms(8), of "ee_idOf env" sk l "ee_sign env" c "of_int now"] e0(1) assms(9) d(2) by auto
  let ?e2 = "e1\<lparr> eg_preparing := eg_preparing e1 @ [(ch, Inr us)] \<rparr>"
  have "engine_Run_step env e1 (Command now ready (Broadcast c msg ch)) = Some (?e2, [])"
    using us(1) e1(2) assms(4) by (simp add: prepareUnitsForBroadcast_def)
  then obtain out2 where run: "engine_Run env ?e2 evs2 = Some (e, out2)" and out: "out = out1 @ out2"
    using assms(3) unfolding Run_append [OF assms(2)] by (auto split: option.splits)
  have own: "on_channel ch (eg_preparing ?e2) = [(ch, Inr us)]" and com: "eg_committees ?e2 c = Some cs"
    using e1(3) assms(4) by simp_all
  have "eg_committees e c = Some cs" using Run_inv(3) [OF run com] assms(6) by simp
  then have ok: "eg_broadcast e us = Inr ()" by (rule eg_broadcast_ok [OF _ s us(2,3)])
  consider "on_channel ch (eg_preparing e) = [(ch, Inr us)]" "on_channel ch out2 = []" | "on_channel ch out2 = [(ch, None)]"
    using Run_pending [OF run own assms(6) com s us(2,3)] by blast
  then show ?thesis
  proof cases
    case 1
    then have "(ch, Inr us) \<in> set (on_channel ch (eg_preparing e))" by simp
    then have "(ch, Inr us) \<in> set (eg_preparing e)" by (simp add: on_channel_def)
    then obtain k where k: "k < length (eg_preparing e)" "eg_preparing e ! k = (ch, Inr us)" by (auto simp: in_set_conv_nth)
    let ?e = "e\<lparr> eg_preparing := take k (eg_preparing e) @ drop (Suc k) (eg_preparing e) \<rparr>"
    have "eg_broadcast ?e us = Inr ()" using ok by (simp add: eg_broadcast_def cong: option.case_cong)
    then have "engine_Run_step env e (UnitsPrepared k) = Some (?e, [(ch, None)])" using k by simp
    then show ?thesis using 1(2) e1(4) out by auto
  next
    case 2
    then show ?thesis using e1(4) out by simp
  qed
qed

theorem broadcast_replies_witness:
  "\<exists>e0 e out. NewEngine ex_engine_env ex_zero () 100 = Some e0 \<and>
    engine_Run ex_engine_env e0 [Command 0 True (RegisterCommittee [] ex_nodes 0), Command 0 True (Broadcast [] [1, 2, 3] 1)] = Some (e, out) \<and>
    out = [(0, None)] \<and> (\<exists>k e'. engine_Run_step ex_engine_env e (UnitsPrepared k) = Some (e', [(1, None)]))"
proof -
  let ?reg = "Command 0 True (RegisterCommittee [] ex_nodes 0)" and ?bc = "Command 0 True (Broadcast [] [1, 2, 3] 1)"
  obtain e0 where e0: "NewEngine ex_engine_env ex_zero () 100 = Some e0" "eg_committees e0 = Map.empty" "eg_localPeer e0 = 3"
    by (simp add: NewEngine_def)
  let ?cs = "\<lparr> cs_scheduler = ex_scheduler \<rparr>"
  let ?e1 = "e0\<lparr> eg_committees := [[] \<mapsto> ?cs] \<rparr>"
  have reg: "engine_Run ex_engine_env e0 [?reg] = Some (?e1, [(0, None)])"
    using e0 ex_NewScheduler by (simp add: eg_registerCommittee_def)
  obtain e where run: "engine_Run ex_engine_env e0 ([?reg] @ ?bc # []) = Some (e, [(0, None)])"
    unfolding Run_append [OF reg] by (simp add: prepareUnitsForBroadcast_def)
  have sh: "numDataShards ex_scheduler = 1" "numCodingShards ex_scheduler = 1" by (simp_all add: ex_scheduler_def)
  have "on_channel 1 [(0, None :: nat engine_error option)] = [(1, None)] \<or> on_channel 1 [(0, None :: nat engine_error option)] = [] \<and>
      (\<exists>k e'. engine_Run_step ex_engine_env e (UnitsPrepared k) = Some (e', [(1, None)]))"
    by (rule broadcast_replies [OF e0(1) reg run, of ?cs]) (simp_all add: sh copies_laws [unfolded One_nat_def])
  then show ?thesis using e0(1) run by auto
qed

text \<open>C38: No unit received from a peer reaches the processor. The service sends the units of a stream to the engine by value,
  while the engine handles a pointer only: handling the commands of any stream leaves the engine as it was, with no reply.\<close>

theorem received_units_dropped:
  assumes "receiveUnits maxSize unmarshal stream sender = Some cmds"
  shows "length cmds = length (filter (\<lambda>pu. case UnitFromProto pu of Inr _ \<Rightarrow> True | Inl _ \<Rightarrow> False) (unmarshal (take maxSize stream))) \<and>
    engine_Run env e (map (Command now ready) cmds) = Some (e, [])"
proof -
  have "send_batch batch sender = Some cmds \<Longrightarrow>
      length cmds = length (filter (\<lambda>pu. case UnitFromProto pu of Inr _ \<Rightarrow> True | Inl _ \<Rightarrow> False) batch) \<and>
      engine_Run env e (map (Command now ready) cmds) = Some (e, [])" for batch
    by (induction batch sender arbitrary: cmds rule: send_batch.induct) (auto split: sum.splits proto_error.splits)
  then show ?thesis using assms by (simp add: receiveUnits_def)
qed

theorem received_units_dropped_witness:
  "\<exists>cmds e. receiveUnits 1024 (\<lambda>_. [ex_wire, ex_wire]) [] [9] = Some cmds \<and> length cmds = 2 \<and>
    NewEngine \<lparr> ee_rs = copies, ee_idOf = (\<lambda>_. Inr [3]), ee_sign = (\<lambda>_ _. Inr [1]) \<rparr>
      \<lparr> mk_CommitteeID = [], mk_Publisher = [], mk_Root = [], mk_Nonce = 0 \<rparr> () 100 = Some e \<and>
    engine_Run \<lparr> ee_rs = copies, ee_idOf = (\<lambda>_. Inr [3]), ee_sign = (\<lambda>_ _. Inr [1]) \<rparr> e (map (Command 0 True) cmds) = Some (e, [])"
proof -
  obtain u where u: "UnitFromProto ex_wire = Inr u" by (simp add: UnitFromProto_def)
  then have r: "receiveUnits 1024 (\<lambda>_. [ex_wire, ex_wire]) [] [9] = Some [ProcessUnitValue u [9], ProcessUnitValue u [9]]"
    by (simp add: receiveUnits_def)
  show ?thesis using received_units_dropped [OF r] r by (auto simp: NewEngine_def)
qed

end
