(* ===== verification/Propeller_Workers.thy ===== *)
theory Propeller_Workers
  imports Propeller_Processor "HOL-Library.Multiset"
begin

text \<open>
  The bounds of the Propeller processor (\<open>consensus/propeller/processor.go\<close>) in every interleaving of its goroutines. The invariant
  says which messages hold a slot, that the counters count them, and how they relate to the map of workers; the engine, the workers
  and \<open>Run\<close> keep it, one lemma for each.
\<close>

section \<open>What the counters count\<close>

text \<open>The messages that hold a slot: those of the workers whose end has not been received, that of an end which is received but not
  yet subtracted, and that of a worker which is counted but not yet launched.\<close>

definition live_keys :: "'p processor \<Rightarrow> 'p message_key list" where
  "live_keys p = map wk_key (filter (\<lambda>w. \<not> wk_received w) (pr_workers p))"

fun run_keys :: "'p run_phase \<Rightarrow> 'p message_key list" where
  "run_keys (AtDecrease key) = [key]"
| "run_keys _ = []"

fun call_keys :: "'p pm_phase \<Rightarrow> 'p message_key list" where
  "call_keys (AtLaunch c i) = [call_key c]"
| "call_keys _ = []"

definition held :: "'p proc_state \<Rightarrow> 'p message_key list" where
  "held s = live_keys (ps_proc s) @ run_keys (ps_run s) @ call_keys (ps_call s)"

abbreviation of_publisher :: "'p \<Rightarrow> 'p message_key list \<Rightarrow> 'p message_key list" where
  "of_publisher q ks \<equiv> filter (\<lambda>k. mk_Publisher k = q) ks"

definition counts :: "'p processor \<Rightarrow> 'p message_key list \<Rightarrow> bool" where
  "counts p ks \<longleftrightarrow> pr_maxWorkers p = 1000 \<and> pr_maxWorkersPerPublisher p = 250 \<and> pr_tasks p = of_nat (length ks) \<and> length ks \<le> 1000 \<and>
     (\<forall>q. tasks_of p q = of_nat (length (of_publisher q ks)) \<and> length (of_publisher q ks) \<le> 250)"

lemma counts_mset:
  assumes "mset ks = mset ks'"
  shows "counts p ks = counts p ks'"
proof -
  have "length ks = length ks'" using assms by (rule mset_eq_length)
  moreover have "length (of_publisher q ks) = length (of_publisher q ks')" for q
    using arg_cong [OF assms, of "\<lambda>m. size (filter_mset (\<lambda>k. mk_Publisher k = q) m)"] by (simp flip: mset_filter)
  ultimately show ?thesis by (simp add: counts_def)
qed

lemma counts_increase:
  assumes "counts p ks" and "increaseTasks p (mk_Publisher k) = Inr p'"
  shows "counts p' (ks @ [k])"
proof -
  let ?q = "mk_Publisher k"
  have c: "pr_tasks p = of_nat (length ks)" "length ks \<le> 1000" "\<And>q. tasks_of p q = of_nat (length (of_publisher q ks))"
    "\<And>q. length (of_publisher q ks) \<le> 250" using assms(1) by (simp_all add: counts_def)
  have g: "tasks_of p ?q \<noteq> 250" "pr_tasks p \<noteq> 1000"
    and p': "p' = p\<lparr> pr_publisherTasks := (pr_publisherTasks p)(?q \<mapsto> tasks_of p ?q + 1), pr_tasks := pr_tasks p + 1 \<rparr>"
    using assms by (auto simp: increaseTasks_def counts_def split: if_splits)
  have "length (of_publisher ?q ks) \<noteq> 250" "length ks \<noteq> 1000" using g c(1) c(3) [of ?q] by auto
  then have lt: "length (of_publisher ?q ks) < 250" "length ks < 1000" using c(2) c(4) [of ?q] by linarith+
  have tk: "tasks_of p' q = (if q = ?q then tasks_of p q + 1 else tasks_of p q)" for q by (simp add: p' tasks_of_def)
  have "tasks_of p' q = of_nat (length (of_publisher q (ks @ [k]))) \<and> length (of_publisher q (ks @ [k])) \<le> 250" for q
    using c(3,4) [of q] lt(1) by (auto simp: tk)
  then show ?thesis using assms(1) lt(2) unfolding counts_def by (simp add: p')
qed

lemma counts_decrease:
  assumes "counts p (xs @ k # ys)"
  shows "counts (decreaseTask p (mk_Publisher k)) (xs @ ys)"
proof -
  let ?q = "mk_Publisher k" and ?p = "decreaseTask p (mk_Publisher k)"
  have c: "\<And>q. tasks_of p q = of_nat (length (of_publisher q (xs @ k # ys)))" "\<And>q. length (of_publisher q (xs @ k # ys)) \<le> 250"
    using assms unfolding counts_def by blast+
  have tk: "tasks_of ?p q = (if q = ?q then tasks_of p q - 1 else tasks_of p q)" for q by (simp add: decreaseTask_def tasks_of_def)
  have "tasks_of ?p q = of_nat (length (of_publisher q (xs @ ys))) \<and> length (of_publisher q (xs @ ys)) \<le> 250" for q
    using c [of q] by (auto simp: tk)
  then show ?thesis using assms unfolding counts_def by (simp add: decreaseTask_def)
qed

lemma counts_cong:
  "pr_tasks p' = pr_tasks p \<Longrightarrow> pr_publisherTasks p' = pr_publisherTasks p \<Longrightarrow> pr_maxWorkers p' = pr_maxWorkers p \<Longrightarrow>
   pr_maxWorkersPerPublisher p' = pr_maxWorkersPerPublisher p \<Longrightarrow> counts p' ks = counts p ks"
  by (simp add: counts_def tasks_of_def)

lemma counts_frame [simp]: "counts (p\<lparr> pr_finalized := tc \<rparr>) ks = counts p ks" "counts (p\<lparr> pr_subs := m \<rparr>) ks = counts p ks"
  by (rule counts_cong; simp)+

section \<open>The invariant\<close>

fun creating :: "'p pm_phase \<Rightarrow> 'p message_key set" where
  "creating (AtCreate c) = {call_key c}"
| "creating (AtLaunch c i) = {call_key c}"
| "creating _ = {}"

fun deleting :: "'p run_phase \<Rightarrow> 'p message_key set" where
  "deleting (AtDelete key) = {key}"
| "deleting _ = {}"

text \<open>The counters count what is held, a message at most once. The messages of workers are in the map until \<open>Run\<close> deletes them, and a
  message for which a worker is being created is not.\<close>

definition proc_inv :: "'p proc_state \<Rightarrow> bool" where
  "proc_inv s \<longleftrightarrow> counts (ps_proc s) (held s) \<and> distinct (held s) \<and> ring_inv (pr_finalized (ps_proc s)) \<and>
     set (live_keys (ps_proc s)) \<union> set (run_keys (ps_run s)) \<union> deleting (ps_run s) \<subseteq> dom (pr_subs (ps_proc s)) \<and>
     creating (ps_call s) \<inter> dom (pr_subs (ps_proc s)) = {} \<and> deleting (ps_run s) \<inter> set (held s) = {}"

lemma live_keys_simps [simp]:
  "live_keys (p\<lparr> pr_finalized := tc \<rparr>) = live_keys p" "live_keys (p\<lparr> pr_subs := m \<rparr>) = live_keys p"
  "live_keys (decreaseTask p q) = live_keys p"
  by (simp_all add: live_keys_def decreaseTask_def)

lemma live_keys_increase: "increaseTasks p q = Inr p' \<Longrightarrow> live_keys p' = live_keys p \<and> pr_subs p' = pr_subs p \<and> pr_finalized p' = pr_finalized p"
  by (auto simp: increaseTasks_def live_keys_def split: if_splits)

lemma live_keys_update:
  assumes "c < length (pr_workers p)" and "wk_key w = wk_key (pr_workers p ! c)" and "wk_received w = wk_received (pr_workers p ! c)"
  shows "live_keys (p\<lparr> pr_workers := (pr_workers p)[c := w] \<rparr>) = live_keys p"
proof -
  let ?ws = "pr_workers p"
  have "filter (\<lambda>w. \<not> wk_received w) ?ws = filter (\<lambda>w. \<not> wk_received w) (take c ?ws @ ?ws ! c # drop (Suc c) ?ws)"
    using id_take_nth_drop [OF assms(1)] by simp
  then show ?thesis using assms unfolding live_keys_def by (simp add: upd_conv_take_nth_drop)
qed

lemma live_keys_received:
  assumes "c < length (pr_workers p)" and "\<not> wk_received (pr_workers p ! c)"
  shows "mset (live_keys p) = add_mset (wk_key (pr_workers p ! c))
    (mset (live_keys (p\<lparr> pr_workers := (pr_workers p)[c := (pr_workers p ! c)\<lparr> wk_received := True \<rparr>] \<rparr>)))"
proof -
  let ?ws = "pr_workers p"
  have "filter (\<lambda>w. \<not> wk_received w) ?ws = filter (\<lambda>w. \<not> wk_received w) (take c ?ws @ ?ws ! c # drop (Suc c) ?ws)"
    using id_take_nth_drop [OF assms(1)] by simp
  then show ?thesis using assms unfolding live_keys_def by (simp add: upd_conv_take_nth_drop)
qed

lemma proc_inv_start: "proc_inv (start ((NewProcessor z l timeout)\<lparr> pr_logger := lg \<rparr>))"
  by (simp add: proc_inv_def start_def held_def live_keys_def NewProcessor_def counts_def tasks_of_def ring_inv_def timecache_New_def)

lemma proc_inv_worker:
  assumes "proc_inv s" and "c < length (pr_workers (ps_proc s))" and "\<And>w. wk_key (f w) = wk_key w" and "\<And>w. wk_received (f w) = wk_received w"
  shows "proc_inv (set_worker c f s)"
proof -
  let ?p = "(ps_proc s)\<lparr> pr_workers := (pr_workers (ps_proc s))[c := f (pr_workers (ps_proc s) ! c)] \<rparr>"
  have k: "live_keys ?p = live_keys (ps_proc s)" using assms(2-4) by (intro live_keys_update) auto
  have "counts ?p ks = counts (ps_proc s) ks" for ks by (rule counts_cong) simp_all
  then show ?thesis using assms(1) k by (simp add: proc_inv_def held_def set_worker_def)
qed

lemma pm_step_inv:
  assumes "proc_inv s" and "pm_step ready now (ps_proc s) (ps_call s) = Some (p, ph)"
    and "\<And>c unitChan. ready \<Longrightarrow> ps_call s = AtSend c unitChan \<Longrightarrow> unitChan < length (pr_workers (ps_proc s))"
  shows "proc_inv (s\<lparr> ps_proc := p, ps_call := ph \<rparr>)"
proof (cases "ps_call s")
  case (AtExpiry c e)
  then show ?thesis using assms removeExpired_ring [of "pr_finalized (ps_proc s)" now]
    by (auto simp: proc_inv_def held_def split: if_splits)
next
  case (AtCreate c)
  show ?thesis
  proof (cases "\<exists>i. ph = AtLaunch c i")
    case True
    then obtain i where ph: "ph = AtLaunch c i" and inc: "increaseTasks (ps_proc s) (mk_Publisher (call_key c)) = Inr p"
      using assms(2) AtCreate by (auto split: sum.splits)
    have new: "call_key c \<notin> set (held s)" "call_key c \<notin> deleting (ps_run s)"
      using assms(1) AtCreate by (auto simp: proc_inv_def held_def)
    have "counts p (held s @ [call_key c])" using counts_increase [OF _ inc] assms(1) by (simp add: proc_inv_def)
    then show ?thesis using assms(1) new live_keys_increase [OF inc] AtCreate ph by (auto simp: proc_inv_def held_def)
  next
    case False
    then have "p = ps_proc s" "creating ph = {}" "call_keys ph = []" using assms(2) AtCreate by (auto split: sum.splits)
    then show ?thesis using assms(1) AtCreate by (simp add: proc_inv_def held_def)
  qed
next
  case (AtLaunch c i)
  let ?p = "ps_proc s"
  have p: "p = snd (launch ?p (call_key c) (snd (snd c)) i)" "creating ph = {}" "call_keys ph = []" using assms(2) AtLaunch by (auto simp: launch_def)
  have l: "live_keys p = live_keys ?p @ [call_key c]" "dom (pr_subs p) = insert (call_key c) (dom (pr_subs ?p))"
    "pr_finalized p = pr_finalized ?p" "counts p ks = counts ?p ks" for ks
    by (simp_all add: p launch_def live_keys_def counts_def tasks_of_def)
  have "mset (live_keys p @ run_keys (ps_run s)) = mset (held s)" using l(1) AtLaunch by (simp add: held_def)
  then have "counts p (live_keys p @ run_keys (ps_run s))" "distinct (live_keys p @ run_keys (ps_run s))"
    "set (live_keys p @ run_keys (ps_run s)) = set (held s)"
    using counts_mset l(4) assms(1) mset_eq_imp_distinct_iff mset_eq_setD unfolding proc_inv_def by blast+
  then show ?thesis using assms(1) AtLaunch p(2,3) l by (auto simp: proc_inv_def held_def)
next
  case (AtSend c ch)
  show ?thesis
  proof (cases ready)
    case True
    have "p = ps_proc (set_worker ch (\<lambda>w. w\<lparr> wk_inputs := wk_inputs w @ [Incoming (fst c) (fst (snd c))] \<rparr>) s)"
      using assms(2) AtSend True by (auto simp: send_unit_def set_worker_def)
    moreover have "proc_inv (set_worker ch (\<lambda>w. w\<lparr> wk_inputs := wk_inputs w @ [Incoming (fst c) (fst (snd c))] \<rparr>) s)"
      using proc_inv_worker [OF assms(1) assms(3) [OF True AtSend]] by simp
    ultimately show ?thesis using assms(2) AtSend True by (auto simp: proc_inv_def held_def set_worker_def)
  next
    case False
    then show ?thesis using assms AtSend by (auto simp: proc_inv_def held_def)
  qed
qed (use assms in \<open>auto simp: proc_inv_def held_def domIff split: option.splits\<close>)

lemma finalize_step_inv:
  assumes "proc_inv s" and "finalize_step z now (ps_proc s) (ps_run s) = Some (p, ph)"
  shows "proc_inv (s\<lparr> ps_proc := p, ps_run := ph \<rparr>)"
proof (cases "ps_run s")
  case RunIdle
  then show ?thesis using assms by (auto simp: proc_inv_def held_def)
next
  case (AtDecrease key)
  then have p: "p = decreaseTask (ps_proc s) (mk_Publisher key)" "ph = AtDelete key" using assms(2) by auto
  have "counts p (live_keys (ps_proc s) @ call_keys (ps_call s))"
    using assms(1) AtDecrease p(1) counts_decrease [of "ps_proc s" "live_keys (ps_proc s)" key "call_keys (ps_call s)"]
    by (simp add: proc_inv_def held_def)
  moreover have "pr_subs p = pr_subs (ps_proc s)" "pr_finalized p = pr_finalized (ps_proc s)" by (simp_all add: p decreaseTask_def)
  ultimately show ?thesis using assms(1) AtDecrease p by (auto simp: proc_inv_def held_def)
next
  case (AtDelete key)
  then have p: "p = (ps_proc s)\<lparr> pr_subs := (pr_subs (ps_proc s))(key := None) \<rparr>" "ph = AtAdd key" using assms(2) by auto
  have "counts p ks = counts (ps_proc s) ks" for ks by (rule counts_cong) (simp_all add: p)
  then show ?thesis using assms(1) AtDelete p by (auto simp: proc_inv_def held_def)
next
  case (AtAdd key)
  then show ?thesis using assms Add_ring [of "pr_finalized (ps_proc s)" z key now] by (auto simp: proc_inv_def held_def)
qed

lemma finalized_inv:
  assumes "proc_inv s" and "ps_run s = RunIdle" and "c < length (pr_workers (ps_proc s))" and "\<not> wk_received (pr_workers (ps_proc s) ! c)"
  shows "proc_inv ((set_worker c (\<lambda>w. w\<lparr> wk_received := True \<rparr>) s)\<lparr> ps_run := AtDecrease (wk_key (pr_workers (ps_proc s) ! c)) \<rparr>)"
    (is "proc_inv ?s")
proof -
  have m: "mset (held ?s) = mset (held s)"
    using live_keys_received [OF assms(3,4)] assms(2) by (simp add: held_def set_worker_def)
  have "counts (ps_proc ?s) ks = counts (ps_proc s) ks" for ks by (rule counts_cong) (simp_all add: set_worker_def)
  then have "counts (ps_proc ?s) (held ?s)" "distinct (held ?s)"
    using assms(1) counts_mset [OF m] mset_eq_imp_distinct_iff [OF m] by (simp_all add: proc_inv_def)
  moreover have "set (live_keys (ps_proc s)) = set (live_keys (ps_proc ?s)) \<union> set (run_keys (ps_run ?s))"
    using arg_cong [OF live_keys_received [OF assms(3,4)], of set_mset] by (auto simp: set_worker_def)
  ultimately show ?thesis using assms(1,2) by (auto simp: proc_inv_def set_worker_def)
qed

lemma alive_iff: "alive r = Alive s \<longleftrightarrow> r = Some s" "Alive s = alive r \<longleftrightarrow> r = Some s"
  by (auto simp: alive_def split: option.splits)

lemma proc_step_inv:
  assumes "proc_step env pubKeyOf z (Alive s) (Alive s')" and "proc_inv s"
  shows "proc_inv s'"
  using assms(1)
proof (cases rule: proc_step.cases)
  case (call c)
  then show ?thesis using assms(2) by (simp add: proc_inv_def held_def)
next
  case (engine ready now)
  then show ?thesis using assms(2) by (auto simp: alive_iff worker_at_def intro!: pm_step_inv)
next
  case (ctx_done c)
  then show ?thesis using assms(2) by (auto simp: worker_at_def intro!: proc_inv_worker)
next
  case (finalized c out)
  then show ?thesis using assms(2) by (auto simp: alive_iff worker_at_def intro!: finalized_inv split: if_splits)
next
  case (invalid c w key sender err)
  have "proc_inv (set_worker c (\<lambda>w. w\<lparr> wk_reported := wk_reported w + 1 \<rparr>) s)" using assms(2) invalid by (intro proc_inv_worker) auto
  then show ?thesis using invalid by (auto simp: alive_iff proc_inv_def held_def set_worker_def split: if_splits)
next
  case (run now)
  then show ?thesis using assms(2) by (auto simp: alive_iff intro!: finalize_step_inv)
qed

lemma no_step_Crashed: "\<not> proc_step env pubKeyOf z Crashed w"
  by (auto elim: proc_step.cases)

lemma reachable_induct [consumes 1, case_names start step]:
  assumes "(proc_step env pubKeyOf z)\<^sup>*\<^sup>* (Alive s0) (Alive s)" and "P s0"
    and "\<And>s s'. P s \<Longrightarrow> proc_step env pubKeyOf z (Alive s) (Alive s') \<Longrightarrow> P s'"
  shows "P s"
proof -
  have "\<forall>s. w = Alive s \<longrightarrow> P s" if "(proc_step env pubKeyOf z)\<^sup>*\<^sup>* (Alive s0) w" for w
    using that
  proof (induction rule: rtranclp_induct)
    case (step y w)
    then show ?case using assms(3) by (cases y) (auto simp: no_step_Crashed)
  qed (use assms(2) in simp)
  then show ?thesis using assms(1) by blast
qed

section \<open>A processor as it is created\<close>

text \<open>Without a logger, nothing that \<open>Run\<close> receives survives, so no worker is released and the cache stays empty.\<close>

definition unlogged :: "'p proc_state \<Rightarrow> bool" where
  "unlogged s \<longleftrightarrow> \<not> pr_logger (ps_proc s) \<and> ps_run s = RunIdle \<and> tc_values (pr_finalized (ps_proc s)) = Map.empty \<and>
     (\<forall>c e. ps_call s \<noteq> AtExpiry c e) \<and> (\<forall>w \<in> set (pr_workers (ps_proc s)). \<not> wk_received w)"

lemma unlogged_pm_step:
  assumes "unlogged s" and "pm_step ready now (ps_proc s) (ps_call s) = Some (p, ph)"
    and "\<And>c unitChan. ready \<Longrightarrow> ps_call s = AtSend c unitChan \<Longrightarrow> unitChan < length (pr_workers (ps_proc s))"
  shows "unlogged (s\<lparr> ps_proc := p, ps_call := ph \<rparr>)"
  using assms by (cases "ps_call s")
    (auto simp: unlogged_def increaseTasks_def launch_def send_unit_def dest!: set_update_subset_insert [THEN subsetD]
      split: option.splits sum.splits if_splits)

lemma unlogged_step:
  assumes "proc_step env pubKeyOf z (Alive s) (Alive s')" and "unlogged s"
  shows "unlogged s'"
  using assms(1)
proof (cases rule: proc_step.cases)
  case (call c)
  then show ?thesis using assms(2) by (simp add: unlogged_def)
next
  case (engine ready now)
  then show ?thesis using assms(2) by (auto simp: alive_iff worker_at_def intro!: unlogged_pm_step)
next
  case (ctx_done c)
  then show ?thesis using assms(2)
    by (auto simp: unlogged_def set_worker_def worker_at_def dest!: set_update_subset_insert [THEN subsetD])
qed (use assms(2) in \<open>auto simp: unlogged_def alive_iff\<close>)

section \<open>Examples\<close>

abbreviation ex_proc :: "bool \<Rightarrow> nat processor" where
  "ex_proc lg \<equiv> (NewProcessor ex_zero 3 100)\<lparr> pr_logger := lg \<rparr>"

abbreviation ex_step :: "nat proc_world \<Rightarrow> nat proc_world \<Rightarrow> bool" where
  "ex_step \<equiv> proc_step ex_env (\<lambda>_. Inr ()) ex_zero"

lemma engine_turn: "pm_step False now p ph = Some (p', ph') \<Longrightarrow>
    ex_step (Alive \<lparr> ps_proc = p, ps_call = ph, ps_run = r \<rparr>) (Alive \<lparr> ps_proc = p', ps_call = ph', ps_run = r \<rparr>)"
  using engine [of False "\<lparr> ps_proc = p, ps_call = ph, ps_run = r \<rparr>" ex_env "\<lambda>_. Inr ()" ex_zero now] by (simp add: alive_def)

definition ex_worker :: "nat worker" where
  "ex_worker = \<lparr> wk_key = extractKey ex_unit, wk_scheduler = ex_scheduler, wk_localShardIndex = 1, wk_inputs = [], wk_reported = 0, wk_received = False \<rparr>"

definition ex_started :: "bool \<Rightarrow> nat processor" where
  "ex_started lg = (ex_proc lg)\<lparr> pr_publisherTasks := [1 \<mapsto> 1], pr_tasks := 1, pr_subs := [extractKey ex_unit \<mapsto> 0], pr_workers := [ex_worker] \<rparr>"

lemma ex_launched: "ex_step\<^sup>*\<^sup>* (Alive (start (ex_proc lg))) (Alive (start (ex_started lg)))"
proof -
  let ?c = "(ex_unit, 2, ex_scheduler)" and ?p = "ex_proc lg"
  let ?q = "?p\<lparr> pr_publisherTasks := [1 \<mapsto> 1], pr_tasks := 1 \<rparr>"
  have pub: "mk_Publisher (extractKey ex_unit) = 1" by (simp add: extractKey_def ex_unit_def)
  have idx: "ShardIndexForPublisher ex_scheduler 1 = Inr 1"
    by (simp add: ex_scheduler_def ShardIndexForPublisher_def publisherIndex_def BinarySearchFunc_def binary_search_loop.simps)
  have "ex_step (Alive (start ?p)) (Alive \<lparr> ps_proc = ?p, ps_call = AtGet ?c, ps_run = RunIdle \<rparr>)"
    using call [of "start ?p" ex_env "\<lambda>_. Inr ()" ex_zero ?c] by (simp add: start_def)
  moreover have "ex_step (Alive \<lparr> ps_proc = ?p, ps_call = AtGet ?c, ps_run = RunIdle \<rparr>) (Alive \<lparr> ps_proc = ?p, ps_call = AtLookup ?c, ps_run = RunIdle \<rparr>)"
    by (rule engine_turn) (simp add: NewProcessor_def timecache_New_def)
  moreover have "ex_step (Alive \<lparr> ps_proc = ?p, ps_call = AtLookup ?c, ps_run = RunIdle \<rparr>) (Alive \<lparr> ps_proc = ?p, ps_call = AtCreate ?c, ps_run = RunIdle \<rparr>)"
    by (rule engine_turn) (simp add: NewProcessor_def)
  moreover have "ex_step (Alive \<lparr> ps_proc = ?p, ps_call = AtCreate ?c, ps_run = RunIdle \<rparr>) (Alive \<lparr> ps_proc = ?q, ps_call = AtLaunch ?c 1, ps_run = RunIdle \<rparr>)"
    by (rule engine_turn) (use pub idx in \<open>simp add: increaseTasks_def tasks_of_def NewProcessor_def\<close>)
  moreover have "ex_step (Alive \<lparr> ps_proc = ?q, ps_call = AtLaunch ?c 1, ps_run = RunIdle \<rparr>) (Alive \<lparr> ps_proc = ex_started lg, ps_call = AtSend ?c 0, ps_run = RunIdle \<rparr>)"
    by (rule engine_turn) (simp add: launch_def ex_started_def ex_worker_def NewProcessor_def)
  moreover have "ex_step (Alive \<lparr> ps_proc = ex_started lg, ps_call = AtSend ?c 0, ps_run = RunIdle \<rparr>)
      (Alive \<lparr> ps_proc = ex_started lg, ps_call = Returned (Inl ChannelFull), ps_run = RunIdle \<rparr>)"
    by (rule engine_turn) simp
  moreover have "ex_step (Alive \<lparr> ps_proc = ex_started lg, ps_call = Returned (Inl ChannelFull), ps_run = RunIdle \<rparr>) (Alive (start (ex_started lg)))"
    unfolding start_def by (rule engine_turn) simp
  ultimately show ?thesis by (meson rtranclp.rtrancl_refl rtranclp.rtrancl_into_rtrancl)
qed

text \<open>With a logger the worker ends by its timeout and is released.\<close>

definition ex_released :: "nat proc_state" where
  "ex_released = \<lparr> ps_proc = decreaseTask ((ex_started True)\<lparr> pr_workers := [ex_worker\<lparr> wk_inputs := [CtxDone], wk_received := True \<rparr>] \<rparr>) 1,
     ps_call = NoCall, ps_run = AtDelete (extractKey ex_unit) \<rparr>"

lemma ex_worker_run:
  "worker_run ex_env (\<lambda>_. Inr ()) p ex_worker = ([], Blocked)"
  "worker_run ex_env (\<lambda>_. Inr ()) p (ex_worker\<lparr> wk_inputs := [CtxDone] \<rparr>) = ([], Failed CtxErr)"
proof -
  have "BuildThreshold ex_scheduler = 1" by (simp add: ex_scheduler_def BuildThreshold_def)
  then show "worker_run ex_env (\<lambda>_. Inr ()) p ex_worker = ([], Blocked)"
    "worker_run ex_env (\<lambda>_. Inr ()) p (ex_worker\<lparr> wk_inputs := [CtxDone] \<rparr>) = ([], Failed CtxErr)"
    by (simp_all add: worker_run_def ex_worker_def newSubprocessor_def NewValidator_def sub_Run_def beforeMessageBuiltStage_def build_loop.simps)
qed

lemma ex_release: "ex_step\<^sup>*\<^sup>* (Alive (start (ex_proc True))) (Alive ex_released)"
proof -
  let ?k = "extractKey ex_unit"
  let ?s1 = "start ((ex_started True)\<lparr> pr_workers := [ex_worker\<lparr> wk_inputs := [CtxDone] \<rparr>] \<rparr>)"
  let ?s2 = "\<lparr> ps_proc = (ex_started True)\<lparr> pr_workers := [ex_worker\<lparr> wk_inputs := [CtxDone], wk_received := True \<rparr>] \<rparr>, ps_call = NoCall, ps_run = AtDecrease ?k \<rparr>"
  have w: "worker_at ex_env (\<lambda>_. Inr ()) (ps_proc (start (ex_started True))) 0 Blocked"
    by (simp add: worker_at_def reports_def start_def ex_started_def ex_worker_run) (simp add: ex_worker_def)
  have "ex_step (Alive (start (ex_started True))) (Alive ?s1)"
    using ctx_done [OF w] by (simp add: set_worker_def start_def ex_started_def ex_worker_def)
  moreover have e: "worker_at ex_env (\<lambda>_. Inr ()) (ps_proc ?s1) 0 (Failed CtxErr)"
    by (simp add: worker_at_def reports_def start_def ex_worker_run) (simp add: ex_worker_def)
  have "ex_step (Alive ?s1) (Alive ?s2)"
    using finalized [OF _ e, of ex_zero] by (simp add: set_worker_def start_def ex_started_def ex_worker_def alive_def)
  moreover have "ex_step (Alive ?s2) (Alive ex_released)"
    using run [of ex_env "\<lambda>_. Inr ()" ex_zero ?s2] by (simp add: ex_released_def alive_def extractKey_def ex_unit_def)
  ultimately show ?thesis using ex_launched [of True] by (meson rtranclp.rtrancl_into_rtrancl)
qed

section \<open>Properties\<close>

text \<open>C13: Bounds of the processor, in every interleaving of the calls of \<open>ProcessMessage\<close>, the workers and \<open>Run\<close>, and whether or not a
  logger is set: the total counter is the number of messages that hold a slot, at most 1000, the counter of a publisher is the
  number of its messages that do, at most 250, and no message holds two, so no two workers for a message run at a time. The cache of
  finished messages never panics, even when an interleaving adds a message twice.\<close>

theorem processor_bounds:
  assumes "(proc_step env pubKeyOf z)\<^sup>*\<^sup>* (Alive (start ((NewProcessor z l timeout)\<lparr> pr_logger := lg \<rparr>))) (Alive s)"
  shows "unat (pr_tasks (ps_proc s)) = length (held s) \<and> length (held s) \<le> 1000 \<and>
    unat (tasks_of (ps_proc s) q) = length (of_publisher q (held s)) \<and> length (of_publisher q (held s)) \<le> 250 \<and> distinct (held s) \<and>
    pm_step ready now (ps_proc s) (ps_call s) \<noteq> None \<and> finalize_step z now (ps_proc s) (ps_run s) \<noteq> None"
proof -
  have inv: "proc_inv s" using assms
    by (induction rule: reachable_induct) (auto intro: proc_inv_start proc_step_inv)
  then have c: "pr_tasks (ps_proc s) = of_nat (length (held s))" "length (held s) \<le> 1000"
    "tasks_of (ps_proc s) q = of_nat (length (of_publisher q (held s)))" "length (of_publisher q (held s)) \<le> 250" "distinct (held s)"
    by (simp_all add: proc_inv_def counts_def)
  have ring: "ring_inv (pr_finalized (ps_proc s))" using inv by (simp add: proc_inv_def)
  have "pm_step ready now (ps_proc s) (ps_call s) \<noteq> None"
    using removeExpired_ring [OF ring, of now] by (cases "ps_call s") (auto split: option.split sum.split prod.split)
  moreover have "finalize_step z now (ps_proc s) (ps_run s) \<noteq> None"
    using Add_ring [OF ring, of z] by (cases "ps_run s") (auto dest: spec)
  ultimately show ?thesis using c by (simp add: unat_nat64)
qed

theorem processor_bounds_witness:
  "ex_step\<^sup>*\<^sup>* (Alive (start (ex_proc True))) (Alive (start (ex_started True))) \<and> unat (pr_tasks (ex_started True)) = 1 \<and>
   ex_step\<^sup>*\<^sup>* (Alive (start (ex_proc True))) (Alive ex_released) \<and> unat (tasks_of (ps_proc ex_released) 1) = 0 \<and>
   finalize_step ex_zero 7 (ps_proc ex_released) (ps_run ex_released) \<noteq> None"
proof -
  have "held (start (ex_started True)) = [extractKey ex_unit]" "held ex_released = []"
    by (simp_all add: held_def live_keys_def start_def ex_started_def ex_released_def ex_worker_def decreaseTask_def)
  then show ?thesis
    using processor_bounds [OF ex_launched, of True 1 False 0] processor_bounds [OF ex_release, of 1 False 7] ex_launched ex_release
    by (simp add: start_def)
qed

text \<open>C12: A processor as \<open>NewProcessor\<close> makes it never gets a slot back. It has no logger, so the process ends as soon as \<open>Run\<close>
  receives the end of a worker. While the process lives, in every interleaving, no end of a worker has been received and no message is
  marked as finished; a message gets at most one worker, and over its whole life the processor starts at most 250 workers for the
  messages of a publisher and at most 1000 in all.\<close>

theorem workers_never_released:
  assumes "(proc_step env pubKeyOf z)\<^sup>*\<^sup>* (Alive (start (NewProcessor z l timeout))) (Alive s)"
  shows "filter wk_received (pr_workers (ps_proc s)) = [] \<and> tc_values (pr_finalized (ps_proc s)) = Map.empty \<and>
    distinct (map wk_key (pr_workers (ps_proc s))) \<and> length (pr_workers (ps_proc s)) \<le> 1000 \<and>
    length (of_publisher q (map wk_key (pr_workers (ps_proc s)))) \<le> 250"
proof -
  have eq: "NewProcessor z l timeout = (NewProcessor z l timeout)\<lparr> pr_logger := False \<rparr>" by (simp add: NewProcessor_def)
  have u0: "unlogged (start (NewProcessor z l timeout))" by (simp add: unlogged_def start_def NewProcessor_def timecache_New_def)
  have u: "unlogged s" using assms by (induction rule: reachable_induct) (auto intro: u0 unlogged_step)
  have i0: "proc_inv (start (NewProcessor z l timeout))" using proc_inv_start [of False z l timeout] eq by simp
  have inv: "proc_inv s" using assms by (induction rule: reachable_induct) (auto intro: i0 proc_step_inv)
  have "live_keys (ps_proc s) = map wk_key (pr_workers (ps_proc s))" using u by (simp add: live_keys_def unlogged_def)
  then have h: "held s = map wk_key (pr_workers (ps_proc s)) @ call_keys (ps_call s)" using u by (simp add: held_def unlogged_def)
  have "length (held s) \<le> 1000" "length (of_publisher q (held s)) \<le> 250" "distinct (held s)"
    using inv by (simp_all add: proc_inv_def counts_def)
  then show ?thesis using u unfolding h by (auto simp: unlogged_def)
qed

theorem workers_never_released_witness:
  "ex_step\<^sup>*\<^sup>* (Alive (start (NewProcessor ex_zero 3 100))) (Alive (start (ex_started False))) \<and>
   map wk_key (pr_workers (ex_started False)) = [extractKey ex_unit] \<and> tc_values (pr_finalized (ex_started False)) = Map.empty"
proof -
  have "NewProcessor ex_zero 3 100 = ex_proc False" by (simp add: NewProcessor_def)
  then have r: "ex_step\<^sup>*\<^sup>* (Alive (start (NewProcessor ex_zero 3 100))) (Alive (start (ex_started False)))" using ex_launched [of False] by simp
  show ?thesis using workers_never_released [OF r] r by (simp add: start_def) (simp add: ex_started_def ex_worker_def)
qed

end
