(* ===== verification/Wal_Codec.thy ===== *)
theory Wal_Codec
  imports Consensus_Types Propeller_Codec
begin

text \<open>
  The records of the consensus write-ahead log and their byte formats (\<open>consensus/walstore/record.go\<close>, \<open>codec.go\<close>). Values,
  hashes and addresses are arrays of four 64-bit words, and a value may be nil. A decoder is the list of bytes that remain; a
  slice that is appended to is the list of its bytes. The batch format belongs to Pebble: the code writes it by hand and reads it
  with the library, which is the parameter \<open>batch_lib\<close>; \<open>batch_laws\<close> states its documented layout.
\<close>

unbundle bit_operations_syntax

section \<open>Little- and big-endian integers\<close>

definition le_bytes8 :: "uint64 \<Rightarrow> uint8 list" where
  "le_bytes8 w = map (\<lambda>i. ucast (drop_bit (8 * i) w)) [0..<8]"

definition le_bytes4 :: "uint32 \<Rightarrow> uint8 list" where
  "le_bytes4 w = map (\<lambda>i. ucast (drop_bit (8 * i) w)) [0..<4]"

definition be_bytes4 :: "uint32 \<Rightarrow> uint8 list" where
  "be_bytes4 w = map (\<lambda>i. ucast (drop_bit (24 - 8 * i) w)) [0..<4]"

definition le_word :: "uint8 list \<Rightarrow> 'w::len word" where
  "le_word bs = foldr (\<lambda>b acc. ucast b OR push_bit 8 acc) bs 0"

definition be_word :: "uint8 list \<Rightarrow> 'w::len word" where
  "be_word bs = foldl (\<lambda>acc b. push_bit 8 acc OR ucast b) 0 bs"

section \<open>Records\<close>

type_synonym limbs = "uint64 \<times> uint64 \<times> uint64 \<times> uint64"
type_synonym walentry = "(limbs option, limbs, limbs) wal_entry"

definition walRecordEntry :: uint8 where "walRecordEntry = 1"
definition walRecordPruneUpToHeight :: uint8 where "walRecordPruneUpToHeight = 2"

definition walEntryStart :: uint8 where "walEntryStart = 1"
definition walEntryProposal :: uint8 where "walEntryProposal = 2"
definition walEntryPrevote :: uint8 where "walEntryPrevote = 3"
definition walEntryPrecommit :: uint8 where "walEntryPrecommit = 4"
definition walEntryTimeout :: uint8 where "walEntryTimeout = 5"

lemmas kind_defs = walRecordEntry_def walRecordPruneUpToHeight_def walEntryStart_def walEntryProposal_def walEntryPrevote_def
  walEntryPrecommit_def walEntryTimeout_def

record walRecordEnvelope =
  wr_Kind :: uint8
  wr_EntryKind :: uint8
  wr_StartHeight :: height
  wr_ProposalEntry :: "(limbs option, limbs) proposal option"
  wr_PrevoteEntry :: "(limbs, limbs) vote option"
  wr_PrecommitEntry :: "(limbs, limbs) vote option"
  wr_TimeoutEntry :: "timeout option"
  wr_Height :: height

definition new_record :: "uint8 \<Rightarrow> walRecordEnvelope" where
  "new_record kind = \<lparr> wr_Kind = kind, wr_EntryKind = 0, wr_StartHeight = 0, wr_ProposalEntry = None, wr_PrevoteEntry = None,
     wr_PrecommitEntry = None, wr_TimeoutEntry = None, wr_Height = 0 \<rparr>"

fun setEntry :: "walRecordEnvelope \<Rightarrow> walentry \<Rightarrow> walRecordEnvelope" where
  "setEntry e (WalStart h) = e\<lparr> wr_EntryKind := walEntryStart, wr_StartHeight := h \<rparr>"
| "setEntry e (WalProposal p) = e\<lparr> wr_EntryKind := walEntryProposal, wr_ProposalEntry := Some p \<rparr>"
| "setEntry e (WalPrevote v) = e\<lparr> wr_EntryKind := walEntryPrevote, wr_PrevoteEntry := Some v \<rparr>"
| "setEntry e (WalPrecommit v) = e\<lparr> wr_EntryKind := walEntryPrecommit, wr_PrecommitEntry := Some v \<rparr>"
| "setEntry e (WalTimeout t) = e\<lparr> wr_EntryKind := walEntryTimeout, wr_TimeoutEntry := Some t \<rparr>"

text \<open>\<open>None\<close>: the panic on an unknown kind, or a nil entry.\<close>

definition record_entry :: "walRecordEnvelope \<Rightarrow> walentry option" where
  "record_entry e =
     (if wr_EntryKind e = walEntryStart then Some (WalStart (wr_StartHeight e))
      else if wr_EntryKind e = walEntryProposal then map_option WalProposal (wr_ProposalEntry e)
      else if wr_EntryKind e = walEntryPrevote then map_option WalPrevote (wr_PrevoteEntry e)
      else if wr_EntryKind e = walEntryPrecommit then map_option WalPrecommit (wr_PrecommitEntry e)
      else if wr_EntryKind e = walEntryTimeout then map_option WalTimeout (wr_TimeoutEntry e)
      else None)"

datatype wal_error =
    UnexpectedEOF
  | InvalidPresence uint8
  | UnknownRecordKind uint8
  | UnknownEntryKind uint8
  | RemainingBytes nat
  | MissingHeader
  | BatchIter string
  | CountMismatch uint32 nat
  | UnexpectedKeyKind uint8
  | TooManyRecords
  | WalPanic

section \<open>Encoding a record\<close>

definition appendUint64 :: "uint8 list \<Rightarrow> uint64 \<Rightarrow> uint8 list" where
  "appendUint64 payload v = payload @ le_bytes8 v"

definition appendInt64 :: "uint8 list \<Rightarrow> int \<Rightarrow> uint8 list" where
  "appendInt64 payload v = appendUint64 payload (of_int v)"

fun appendUint64Array :: "uint8 list \<Rightarrow> limbs \<Rightarrow> uint8 list" where
  "appendUint64Array payload (a, b, c, d) = appendUint64 (appendUint64 (appendUint64 (appendUint64 payload a) b) c) d"

definition appendMessageHeader :: "uint8 list \<Rightarrow> (limbs, 'x) message_header_scheme \<Rightarrow> uint8 list" where
  "appendMessageHeader payload h =
     (let payload = appendUint64 payload (Height h); payload = appendInt64 payload (Round h) in appendUint64Array payload (Sender h))"

definition appendVotePayload :: "uint8 list \<Rightarrow> (limbs, limbs) vote \<Rightarrow> uint8 list" where
  "appendVotePayload payload v =
     (let payload = appendMessageHeader payload v
      in case ID v of None \<Rightarrow> payload @ [0] | Some h \<Rightarrow> appendUint64Array (payload @ [1]) h)"

definition appendWALRecordPayload :: "uint8 list \<Rightarrow> walRecordEnvelope \<Rightarrow> wal_error + uint8 list" where
  "appendWALRecordPayload payload r =
     (let payload = payload @ [wr_Kind r]
      in if wr_Kind r = walRecordEntry then
           (let payload = payload @ [wr_EntryKind r]
            in if wr_EntryKind r = walEntryStart then Inr (appendUint64 payload (wr_StartHeight r))
               else if wr_EntryKind r = walEntryProposal then
                 (case wr_ProposalEntry r of None \<Rightarrow> Inl WalPanic
                  | Some p \<Rightarrow>
                      (let payload = appendMessageHeader payload p; payload = appendInt64 payload (ValidRound p)
                       in case Value p of None \<Rightarrow> Inr (payload @ [0]) | Some v \<Rightarrow> Inr (appendUint64Array (payload @ [1]) v)))
               else if wr_EntryKind r = walEntryPrevote then
                 (case wr_PrevoteEntry r of None \<Rightarrow> Inl WalPanic | Some v \<Rightarrow> Inr (appendVotePayload payload v))
               else if wr_EntryKind r = walEntryPrecommit then
                 (case wr_PrecommitEntry r of None \<Rightarrow> Inl WalPanic | Some v \<Rightarrow> Inr (appendVotePayload payload v))
               else if wr_EntryKind r = walEntryTimeout then
                 (case wr_TimeoutEntry r of None \<Rightarrow> Inl WalPanic
                  | Some t \<Rightarrow> Inr (appendInt64 (appendUint64 (payload @ [of_nat (step_num (tm_Step t))]) (tm_Height t)) (tm_Round t)))
               else Inl (UnknownEntryKind (wr_EntryKind r)))
         else if wr_Kind r = walRecordPruneUpToHeight then Inr (appendUint64 payload (wr_Height r))
         else Inl (UnknownRecordKind (wr_Kind r)))"

section \<open>Decoding a record\<close>

type_synonym 'a reader = "uint8 list \<Rightarrow> wal_error + 'a \<times> uint8 list"

fun readByte :: "uint8 reader" where
  "readByte [] = Inl UnexpectedEOF"
| "readByte (b # d) = Inr (b, d)"

definition readPresenceByte :: "bool reader" where
  "readPresenceByte d = bindE (readByte d) (\<lambda>(v, d). if v = 0 then Inr (False, d) else if v = 1 then Inr (True, d) else Inl (InvalidPresence v))"

definition readUint64 :: "uint64 reader" where
  "readUint64 d = (if length d < 8 then Inl UnexpectedEOF else Inr (le_word (take 8 d), drop 8 d))"

definition readHeight :: "height reader" where
  "readHeight d = readUint64 d"

definition readRound :: "round reader" where
  "readRound d = bindE (readUint64 d) (\<lambda>(v, d). Inr (sint v, d))"

definition readUint64Array :: "limbs reader" where
  "readUint64Array d =
     bindE (readUint64 d) (\<lambda>(a, d). bindE (readUint64 d) (\<lambda>(b, d). bindE (readUint64 d) (\<lambda>(c, d). bindE (readUint64 d) (\<lambda>(e, d).
     Inr ((a, b, c, e), d)))))"

definition readMessageHeader :: "limbs message_header reader" where
  "readMessageHeader d =
     bindE (readHeight d) (\<lambda>(height, d). bindE (readRound d) (\<lambda>(round, d). bindE (readUint64Array d) (\<lambda>(sender, d).
     Inr (\<lparr> Height = height, Round = round, Sender = sender \<rparr>, d))))"

definition decodeProposalRecord :: "(limbs option, limbs) proposal reader" where
  "decodeProposalRecord d =
     bindE (readMessageHeader d) (\<lambda>(header, d). bindE (readRound d) (\<lambda>(validRound, d). bindE (readPresenceByte d) (\<lambda>(hasValue, d).
     let p = \<lparr> Height = Height header, Round = Round header, Sender = Sender header, ValidRound = validRound, Value = None \<rparr>
     in if hasValue then bindE (readUint64Array d) (\<lambda>(v, d). Inr (p\<lparr> Value := Some v \<rparr>, d)) else Inr (p, d))))"

definition decodeVotePayload :: "(limbs, limbs) vote reader" where
  "decodeVotePayload d =
     bindE (readMessageHeader d) (\<lambda>(header, d). bindE (readPresenceByte d) (\<lambda>(hasID, d).
     let v = \<lparr> Height = Height header, Round = Round header, Sender = Sender header, ID = None \<rparr>
     in if hasID then bindE (readUint64Array d) (\<lambda>(h, d). Inr (v\<lparr> ID := Some h \<rparr>, d)) else Inr (v, d)))"

fun step_of_num :: "nat \<Rightarrow> step" where
  "step_of_num 0 = StepPropose"
| "step_of_num (Suc 0) = StepPrevote"
| "step_of_num (Suc (Suc 0)) = StepPrecommit"
| "step_of_num (Suc (Suc (Suc n))) = StepOther n"

definition decodeTimeoutRecord :: "timeout reader" where
  "decodeTimeoutRecord d =
     bindE (readByte d) (\<lambda>(step, d). bindE (readHeight d) (\<lambda>(height, d). bindE (readRound d) (\<lambda>(round, d).
     Inr (\<lparr> tm_Step = step_of_num (unat step), tm_Height = height, tm_Round = round \<rparr>, d))))"

definition decodeWALEntryRecord :: "walRecordEnvelope \<Rightarrow> walRecordEnvelope reader" where
  "decodeWALEntryRecord r d =
     bindE (readByte d) (\<lambda>(entryKind, d).
     let r = r\<lparr> wr_EntryKind := entryKind \<rparr>
     in if entryKind = walEntryStart then bindE (readHeight d) (\<lambda>(h, d). Inr (r\<lparr> wr_StartHeight := h \<rparr>, d))
        else if entryKind = walEntryProposal then bindE (decodeProposalRecord d) (\<lambda>(p, d). Inr (r\<lparr> wr_ProposalEntry := Some p \<rparr>, d))
        else if entryKind = walEntryPrevote then bindE (decodeVotePayload d) (\<lambda>(v, d). Inr (r\<lparr> wr_PrevoteEntry := Some v \<rparr>, d))
        else if entryKind = walEntryPrecommit then bindE (decodeVotePayload d) (\<lambda>(v, d). Inr (r\<lparr> wr_PrecommitEntry := Some v \<rparr>, d))
        else if entryKind = walEntryTimeout then bindE (decodeTimeoutRecord d) (\<lambda>(t, d). Inr (r\<lparr> wr_TimeoutEntry := Some t \<rparr>, d))
        else Inl (UnknownEntryKind entryKind))"

definition decodeWALRecord :: "uint8 list \<Rightarrow> wal_error + walRecordEnvelope" where
  "decodeWALRecord payload =
     bindE (readByte payload) (\<lambda>(kind, d).
     bindE (if kind = walRecordEntry then decodeWALEntryRecord (new_record kind) d
            else if kind = walRecordPruneUpToHeight then
              bindE (readHeight d) (\<lambda>(h, d). Inr ((new_record kind)\<lparr> wr_Height := h \<rparr>, d))
            else Inl (UnknownRecordKind kind)) (\<lambda>(r, d).
     if d \<noteq> [] then Inl (RemainingBytes (length d)) else Inr r))"

section \<open>Batches\<close>

text \<open>What the code uses of Pebble's package \<open>batchrepr\<close>: the kind of a \<open>Set\<close> entry, \<open>ReadHeader\<close>, and the entries (kind, key,
  value) that the calls of \<open>Reader.Next\<close> return one after the other, with the error that ends them, if any.\<close>

record batch_lib =
  bl_KindSet :: uint8
  bl_ReadHeader :: "uint8 list \<Rightarrow> (uint64 \<times> uint32) option"
  bl_Entries :: "uint8 list \<Rightarrow> (uint8 \<times> uint8 list \<times> uint8 list) list \<times> string option"

definition putFixedUvarint32 :: "uint32 \<Rightarrow> uint8 list" where
  "putFixedUvarint32 v = (ucast v OR 0x80) # map (\<lambda>i. ucast (drop_bit (7 * i) v) OR 0x80) [1..<4] @ [ucast (drop_bit 28 v)]"

text \<open>The loop over the records: the length of a value is reserved and filled in after the payload.\<close>

fun encode_records :: "batch_lib \<Rightarrow> nat \<Rightarrow> uint8 list \<Rightarrow> walRecordEnvelope list \<Rightarrow> wal_error + uint8 list" where
  "encode_records lib i buf [] = Inr buf"
| "encode_records lib i buf (r # rs) =
     (let valueLenStart = length buf + 6;
          buf1 = buf @ [bl_KindSet lib, 4] @ be_bytes4 (of_nat i) @ replicate 5 0
      in bindE (appendWALRecordPayload buf1 r) (\<lambda>buf2.
         encode_records lib (Suc i) (copy_at valueLenStart buf2 (putFixedUvarint32 (of_nat (length buf2 - length buf1)))) rs))"

definition encodeBatch :: "batch_lib \<Rightarrow> walRecordEnvelope list \<Rightarrow> uint64 \<Rightarrow> wal_error + uint8 list" where
  "encodeBatch lib records seqNum =
     (if length records > 2 ^ 32 - 1 then Inl TooManyRecords
      else encode_records lib 0 (le_bytes8 seqNum @ le_bytes4 (of_nat (length records))) records)"

section \<open>Round trips\<close>

lemma le_word_Cons: "le_word (b # bs) = ucast b OR push_bit 8 (le_word bs)"
  by (simp add: le_word_def)

lemma bit_le_word: "bit (le_word bs :: 'w::len word) n \<longleftrightarrow> n < LENGTH('w) \<and> n div 8 < length bs \<and> bit (bs ! (n div 8)) (n mod 8)"
proof (induction bs arbitrary: n)
  case Nil
  then show ?case by (simp add: le_word_def)
next
  case (Cons b bs)
  show ?case
  proof (cases "n < 8")
    case True
    then show ?thesis by (auto simp: le_word_Cons bit_simps)
  next
    case False
    then obtain m where n: "n = m + 8" using le_Suc_ex [of 8 n] by (auto simp: not_less add.commute)
    have "\<not> bit b n" using False by (auto dest: bit_imp_le_length)
    moreover have "(m + 8) div 8 = Suc (m div 8)" "(m + 8) mod 8 = m mod 8" by simp_all
    ultimately show ?thesis using Cons.IH [of m] n by (auto simp: le_word_Cons bit_simps)
  qed
qed

lemma le_word_bytes8 [simp]: "le_word (le_bytes8 w) = w"
proof (rule bit_word_eqI)
  fix n assume "n < LENGTH(64)"
  then have n: "n < 64" "n div 8 < 8" by simp_all
  then have "bit (le_bytes8 w ! (n div 8)) (n mod 8) \<longleftrightarrow> bit w n"
    by (simp add: le_bytes8_def bit_simps del: upt_conv_Cons_Cons upt_rec_numeral)
  then show "bit (le_word (le_bytes8 w) :: uint64) n \<longleftrightarrow> bit w n" using n by (simp add: bit_le_word le_bytes8_def)
qed

lemma length_le_bytes8 [simp]: "length (le_bytes8 w) = 8"
  by (simp add: le_bytes8_def)

lemma le_bytes8_word: "length bs = 8 \<Longrightarrow> le_bytes8 (le_word bs) = bs"
proof (rule nth_equalityI)
  fix i assume l: "length bs = 8" and "i < length (le_bytes8 (le_word bs))"
  then have i: "i < 8" by simp
  have "le_bytes8 (le_word bs) ! i = ucast (drop_bit (8 * i) (le_word bs :: uint64))"
    using i by (simp add: le_bytes8_def del: upt_conv_Cons_Cons upt_rec_numeral)
  also have "\<dots> = bs ! i"
  proof (rule bit_word_eqI)
    fix k assume "k < LENGTH(8)"
    then show "bit (ucast (drop_bit (8 * i) (le_word bs :: uint64)) :: uint8) k \<longleftrightarrow> bit (bs ! i) k"
      using i l by (simp add: bit_simps bit_le_word)
  qed
  finally show "le_bytes8 (le_word bs) ! i = bs ! i" .
qed simp

lemma readUint64_le: "readUint64 (le_bytes8 v @ r) = Inr (v, r)"
  by (simp add: readUint64_def)

lemma readUint64_Inr: "readUint64 d = Inr (v, r) \<Longrightarrow> d = le_bytes8 v @ r"
  by (auto simp: readUint64_def le_bytes8_word split: if_splits)

text \<open>The integers of Go that a round holds.\<close>

abbreviation int64_range :: "int \<Rightarrow> bool" where
  "int64_range r \<equiv> - (2 ^ 63) \<le> r \<and> r < 2 ^ 63"

lemma sint_of_int64: "int64_range r \<Longrightarrow> sint (of_int r :: uint64) = r"
  using signed_take_bit_int_eq_self [of 63 r] by (simp add: sint_sbintrunc')

lemma int64_sint: "int64_range (sint (v :: uint64))"
  using sint_greater_eq [of v] sint_less [of v] by simp

lemma readRound_le: "int64_range v \<Longrightarrow> readRound (le_bytes8 (of_int v) @ r) = Inr (v, r)"
  by (simp add: readRound_def readUint64_le sint_of_int64)

lemma readRound_Inr: "readRound d = Inr (v, r) \<Longrightarrow> d = le_bytes8 (of_int v) @ r \<and> int64_range v"
  using int64_sint by (auto simp: readRound_def bindE_Inr dest!: readUint64_Inr)

lemma appendUint64Array_append: "appendUint64Array p v = p @ appendUint64Array [] v"
  by (cases v) (simp add: appendUint64_def)

lemma readUint64Array_le: "readUint64Array (appendUint64Array [] v @ r) = Inr (v, r)"
  by (cases v) (simp add: readUint64Array_def appendUint64_def readUint64_le)

lemma readUint64Array_Inr: "readUint64Array d = Inr (v, r) \<Longrightarrow> d = appendUint64Array [] v @ r"
  by (auto simp: readUint64Array_def appendUint64_def bindE_Inr dest!: readUint64_Inr)

text \<open>The bytes of a header, and of an optional array.\<close>

definition header_bytes :: "(limbs, 'x) message_header_scheme \<Rightarrow> uint8 list" where
  "header_bytes h = le_bytes8 (Height h) @ le_bytes8 (of_int (Round h)) @ appendUint64Array [] (Sender h)"

definition option_bytes :: "limbs option \<Rightarrow> uint8 list" where
  "option_bytes v = (case v of None \<Rightarrow> [0] | Some v \<Rightarrow> 1 # appendUint64Array [] v)"

lemma appendMessageHeader_bytes: "appendMessageHeader p h = p @ header_bytes h"
  using appendUint64Array_append [of "p @ le_bytes8 (Height h) @ le_bytes8 (of_int (Round h))" "Sender h"]
  by (simp add: appendMessageHeader_def header_bytes_def appendUint64_def appendInt64_def Let_def)

lemma option_append: "(case v of None \<Rightarrow> p @ [0] | Some v \<Rightarrow> appendUint64Array (p @ [1]) v) = p @ option_bytes v"
  using appendUint64Array_append [of "p @ [1]" "the v"] by (auto simp: option_bytes_def split: option.splits)

lemma readMessageHeader_le:
  "int64_range (Round h) \<Longrightarrow> readMessageHeader (header_bytes h @ r) = Inr (message_header.truncate h, r)"
  by (simp add: readMessageHeader_def header_bytes_def readHeight_def readUint64_le readRound_le readUint64Array_le message_header.defs)

lemma readMessageHeader_Inr: "readMessageHeader d = Inr (h, r) \<Longrightarrow> d = header_bytes h @ r \<and> int64_range (Round h)"
  by (auto simp: readMessageHeader_def header_bytes_def readHeight_def bindE_Inr dest!: readUint64_Inr readRound_Inr readUint64Array_Inr)

lemma readPresence_simps [simp]: "readPresenceByte (0 # d) = Inr (False, d)" "readPresenceByte (1 # d) = Inr (True, d)"
  by (simp_all add: readPresenceByte_def)

lemma readByte_Inr: "readByte d = Inr (b, r) \<longleftrightarrow> d = b # r"
  by (cases d) auto

lemma readPresence_Inr: "readPresenceByte d = Inr (b, r) \<Longrightarrow> d = (if b then 1 else 0) # r"
  by (auto simp: readPresenceByte_def bindE_Inr readByte_Inr split: if_splits)

lemma header_bytes_truncate: "header_bytes (message_header.truncate h) = header_bytes h"
  by (simp add: header_bytes_def message_header.defs)

definition vote_bytes :: "(limbs, limbs) vote \<Rightarrow> uint8 list" where
  "vote_bytes v = header_bytes v @ option_bytes (ID v)"

definition proposal_bytes :: "(limbs option, limbs) proposal \<Rightarrow> uint8 list" where
  "proposal_bytes p = header_bytes p @ le_bytes8 (of_int (ValidRound p)) @ option_bytes (Value p)"

definition timeout_bytes :: "timeout \<Rightarrow> uint8 list" where
  "timeout_bytes t = of_nat (step_num (tm_Step t)) # le_bytes8 (tm_Height t) @ le_bytes8 (of_int (tm_Round t))"

lemma decodeVote_le: "int64_range (Round v) \<Longrightarrow> decodeVotePayload (vote_bytes v @ r) = Inr (v, r)"
  by (cases "ID v") (simp_all add: decodeVotePayload_def vote_bytes_def readMessageHeader_le option_bytes_def readUint64Array_le
    message_header.defs)

lemma decodeVote_Inr: "decodeVotePayload d = Inr (v, r) \<Longrightarrow> d = vote_bytes v @ r \<and> int64_range (Round v)"
  by (auto simp: decodeVotePayload_def vote_bytes_def bindE_Inr Let_def option_bytes_def header_bytes_def
    dest!: readMessageHeader_Inr readPresence_Inr readUint64Array_Inr split: if_splits)

lemma decodeProposal_le:
  "int64_range (Round p) \<Longrightarrow> int64_range (ValidRound p) \<Longrightarrow> decodeProposalRecord (proposal_bytes p @ r) = Inr (p, r)"
  by (cases "Value p") (simp_all add: decodeProposalRecord_def proposal_bytes_def readMessageHeader_le readRound_le option_bytes_def
    readUint64Array_le message_header.defs)

lemma decodeProposal_Inr:
  "decodeProposalRecord d = Inr (p, r) \<Longrightarrow> d = proposal_bytes p @ r \<and> int64_range (Round p) \<and> int64_range (ValidRound p)"
  by (auto simp: decodeProposalRecord_def proposal_bytes_def bindE_Inr Let_def option_bytes_def header_bytes_def
    dest!: readMessageHeader_Inr readRound_Inr readPresence_Inr readUint64Array_Inr split: if_splits)

lemma step_of_step_num [simp]: "step_of_num (step_num s) = s"
  by (cases s) (simp_all add: numeral_2_eq_2 numeral_3_eq_3)

lemma step_num_of_num [simp]: "step_num (step_of_num n) = n"
  by (cases n rule: step_of_num.cases) simp_all

lemma decodeTimeout_le: "step_num (tm_Step t) < 256 \<Longrightarrow> int64_range (tm_Round t) \<Longrightarrow> decodeTimeoutRecord (timeout_bytes t @ r) = Inr (t, r)"
  by (simp add: decodeTimeoutRecord_def timeout_bytes_def readHeight_def readUint64_le readRound_le unat_of_nat)

lemma decodeTimeout_Inr: "decodeTimeoutRecord d = Inr (t, r) \<Longrightarrow>
    d = timeout_bytes t @ r \<and> step_num (tm_Step t) < 256 \<and> int64_range (tm_Round t)"
  using unsigned_less [where 'b = 8]
  by (auto simp: decodeTimeoutRecord_def timeout_bytes_def readHeight_def readByte_Inr bindE_Inr dest!: readUint64_Inr readRound_Inr)

text \<open>The payload of a record, in one piece.\<close>

fun entry_ok :: "walentry \<Rightarrow> bool" where
  "entry_ok (WalStart h) \<longleftrightarrow> True"
| "entry_ok (WalProposal p) \<longleftrightarrow> int64_range (Round p) \<and> int64_range (ValidRound p)"
| "entry_ok (WalPrevote v) \<longleftrightarrow> int64_range (Round v)"
| "entry_ok (WalPrecommit v) \<longleftrightarrow> int64_range (Round v)"
| "entry_ok (WalTimeout t) \<longleftrightarrow> step_num (tm_Step t) < 256 \<and> int64_range (tm_Round t)"

fun entry_bytes :: "walentry \<Rightarrow> uint8 list" where
  "entry_bytes (WalStart h) = walEntryStart # le_bytes8 h"
| "entry_bytes (WalProposal p) = walEntryProposal # proposal_bytes p"
| "entry_bytes (WalPrevote v) = walEntryPrevote # vote_bytes v"
| "entry_bytes (WalPrecommit v) = walEntryPrecommit # vote_bytes v"
| "entry_bytes (WalTimeout t) = walEntryTimeout # timeout_bytes t"

definition entry_record :: "walentry \<Rightarrow> walRecordEnvelope" where
  "entry_record e = setEntry (new_record walRecordEntry) e"

definition prune_record :: "height \<Rightarrow> walRecordEnvelope" where
  "prune_record h = (new_record walRecordPruneUpToHeight)\<lparr> wr_Height := h \<rparr>"

lemma entry_record_simps [simp]: "wr_Kind (entry_record e) = walRecordEntry" "record_entry (entry_record e) = Some e"
  by (cases e; simp add: entry_record_def new_record_def record_entry_def kind_defs)+

lemma prune_record_simps [simp]: "wr_Kind (prune_record h) = walRecordPruneUpToHeight" "wr_Height (prune_record h) = h"
  by (simp_all add: prune_record_def new_record_def)

lemma appendVotePayload_bytes: "appendVotePayload p v = p @ vote_bytes v"
  using option_append [of "p @ header_bytes v" "ID v"] by (simp add: appendVotePayload_def vote_bytes_def appendMessageHeader_bytes)

lemma payload_entry: "appendWALRecordPayload p (entry_record e) = Inr (p @ walRecordEntry # entry_bytes e)"
proof (cases e)
  case (WalProposal q)
  show ?thesis
  proof (cases "Value q")
    case None
    then show ?thesis using WalProposal
      by (simp add: appendWALRecordPayload_def entry_record_def new_record_def kind_defs appendMessageHeader_bytes appendInt64_def
        appendUint64_def proposal_bytes_def option_bytes_def)
  next
    case (Some v)
    then show ?thesis using WalProposal
        appendUint64Array_append [of "p @ 1 # 2 # header_bytes q @ le_bytes8 (of_int (ValidRound q)) @ [1]" v]
      by (simp add: appendWALRecordPayload_def entry_record_def new_record_def kind_defs appendMessageHeader_bytes appendInt64_def
        appendUint64_def proposal_bytes_def option_bytes_def)
  qed
qed (simp_all add: appendWALRecordPayload_def entry_record_def new_record_def kind_defs appendUint64_def appendInt64_def
  appendVotePayload_bytes timeout_bytes_def)

lemma payload_prune: "appendWALRecordPayload p (prune_record h) = Inr (p @ walRecordPruneUpToHeight # le_bytes8 h)"
  by (simp add: appendWALRecordPayload_def prune_record_def new_record_def kind_defs appendUint64_def)

lemma decode_entry:
  assumes "entry_ok e"
  shows "decodeWALRecord (walRecordEntry # entry_bytes e) = Inr (entry_record e)"
proof -
  have "decodeWALEntryRecord (new_record walRecordEntry) (entry_bytes e @ []) = Inr (entry_record e, [])"
    using assms readUint64_le [of _ "[]"] decodeProposal_le [of _ "[]"] decodeVote_le [of _ "[]"] decodeTimeout_le [of _ "[]"]
    by (cases e) (simp_all add: decodeWALEntryRecord_def entry_record_def kind_defs readHeight_def)
  then show ?thesis by (simp add: decodeWALRecord_def)
qed

lemma decode_prune: "decodeWALRecord (walRecordPruneUpToHeight # le_bytes8 h) = Inr (prune_record h)"
  using readUint64_le [of h "[]"] by (simp add: decodeWALRecord_def prune_record_def readHeight_def kind_defs)

lemma decodeEntry_Inr:
  assumes "decodeWALEntryRecord (new_record walRecordEntry) d = Inr (r, rest)"
  shows "\<exists>e. r = entry_record e \<and> d = entry_bytes e @ rest \<and> entry_ok e"
proof -
  obtain k d1 where d: "d = k # d1"
    using assms by (cases d) (auto simp: decodeWALEntryRecord_def)
  note dec = assms [unfolded decodeWALEntryRecord_def d readByte.simps bindE.simps prod.case Let_def]
  consider (start) h where "k = walEntryStart" "readHeight d1 = Inr (h, rest)" "r = entry_record (WalStart h)"
    | (proposal) p where "k = walEntryProposal" "decodeProposalRecord d1 = Inr (p, rest)" "r = entry_record (WalProposal p)"
    | (prevote) v where "k = walEntryPrevote" "decodeVotePayload d1 = Inr (v, rest)" "r = entry_record (WalPrevote v)"
    | (precommit) v where "k = walEntryPrecommit" "decodeVotePayload d1 = Inr (v, rest)" "r = entry_record (WalPrecommit v)"
    | (timeout) t where "k = walEntryTimeout" "decodeTimeoutRecord d1 = Inr (t, rest)" "r = entry_record (WalTimeout t)"
    using dec by (auto simp: bindE_Inr entry_record_def split: if_splits)
  then show ?thesis
  proof cases
    case start
    then show ?thesis using d readUint64_Inr [of d1 h rest] by (intro exI [of _ "WalStart h"]) (simp add: readHeight_def)
  next
    case proposal
    then show ?thesis using d decodeProposal_Inr by (intro exI [of _ "WalProposal p"]) simp
  next
    case prevote
    then show ?thesis using d decodeVote_Inr by (intro exI [of _ "WalPrevote v"]) simp
  next
    case precommit
    then show ?thesis using d decodeVote_Inr by (intro exI [of _ "WalPrecommit v"]) simp
  next
    case timeout
    then show ?thesis using d decodeTimeout_Inr by (intro exI [of _ "WalTimeout t"]) simp
  qed
qed

lemma decode_cases:
  assumes "decodeWALRecord bs = Inr r"
  obtains (entry) e where "r = entry_record e" "bs = walRecordEntry # entry_bytes e" "entry_ok e"
  | (prune) h where "r = prune_record h" "bs = walRecordPruneUpToHeight # le_bytes8 h"
proof -
  obtain k d where bs: "bs = k # d" using assms by (cases bs) (auto simp: decodeWALRecord_def)
  note dec = assms [unfolded decodeWALRecord_def bs readByte.simps bindE.simps prod.case]
  consider "k = walRecordEntry" "decodeWALEntryRecord (new_record walRecordEntry) d = Inr (r, [])"
    | h where "k = walRecordPruneUpToHeight" "readHeight d = Inr (h, [])" "r = prune_record h"
    using dec by (auto simp: bindE_Inr prune_record_def split: if_splits)
  then show ?thesis
  proof cases
    case 1
    then show ?thesis using entry decodeEntry_Inr [OF 1(2)] bs by auto
  next
    case 2
    then show ?thesis using prune [of h] readUint64_Inr [of d h "[]"] bs by (simp add: readHeight_def)
  qed
qed

section \<open>Batches, read by the library\<close>

text \<open>The documented layout: a header of 12 bytes, then for each entry its kind and two strings, each after its length as a
  variable-length integer of at most five bytes.\<close>

definition length_prefix :: "uint8 list \<Rightarrow> nat \<Rightarrow> bool" where
  "length_prefix e n \<longleftrightarrow> length e \<le> 5 \<and> (\<forall>r. Uvarint (e @ r) = (of_nat n, int (length e)))"

definition entry_layout :: "batch_lib \<Rightarrow> uint8 list \<Rightarrow> uint8 \<times> uint8 list \<times> uint8 list \<Rightarrow> bool" where
  "entry_layout lib bs en \<longleftrightarrow> (\<exists>key value e1 e2. en = (bl_KindSet lib, key, value) \<and> length key < 2 ^ 32 \<and> length value < 2 ^ 32 \<and>
     length_prefix e1 (length key) \<and> length_prefix e2 (length value) \<and> bs = bl_KindSet lib # e1 @ key @ e2 @ value)"

definition batch_laws :: "batch_lib \<Rightarrow> bool" where
  "batch_laws lib \<longleftrightarrow> (\<forall>seq count rest. bl_ReadHeader lib (le_bytes8 seq @ le_bytes4 count @ rest) = Some (seq, count)) \<and>
     (\<forall>header bss es. length header = 12 \<longrightarrow> list_all2 (entry_layout lib) bss es \<longrightarrow> bl_Entries lib (header @ concat bss) = (es, None))"

lemma Uvarint_step: "i < 9 \<Longrightarrow> Uvarint_loop i s x ((ucast (w :: uint64) OR 0x80) # bs) =
    Uvarint_loop (Suc i) (s + 7) (x OR push_bit s (ucast ((ucast w OR 0x80 :: uint8) AND 0x7F))) bs"
  using more_byte [of w] by simp

lemma Uvarint_last: "i < 9 \<Longrightarrow> b < 0x80 \<Longrightarrow> Uvarint_loop i s x (b # bs) = (x OR push_bit s (ucast b), int i + 1)"
  by simp

lemma Uvarint_putFixed: "length_prefix (putFixedUvarint32 v) (unat v)"
proof -
  define w :: uint64 where "w = ucast v"
  have b: "ucast (drop_bit n v) = (ucast (drop_bit n w) :: uint8)" for n
    by (rule bit_word_eqI) (auto simp: w_def bit_simps dest: bit_imp_le_length)
  have sp: "push_bit s (ucast ((ucast (drop_bit n w) OR 0x80 :: uint8) AND 0x7F)) OR push_bit (s + 7) (drop_bit (n + 7) w) =
      push_bit s (drop_bit n w)" for s n using split_byte [of s "drop_bit n w"] by (simp add: add.commute)
  have v: "unat v < 2 ^ 32" using unsigned_less [of v] by simp
  then have uw: "unat w = unat v" by (simp add: w_def unsigned_ucast_eq take_bit_nat_eq_self)
  have small: "drop_bit 28 w < 0x80" using v by (simp add: word_less_nat_alt drop_bit_eq_div unat_div uw)
  then have last: "(ucast (drop_bit 28 w) :: uint8) < 0x80" "ucast (ucast (drop_bit 28 w) :: uint8) = drop_bit 28 w"
    using low_byte by (simp_all add: word_less_nat_alt unsigned_ucast_eq take_bit_eq_mod unat_mod)
  have "putFixedUvarint32 v = [ucast (drop_bit 0 w) OR 0x80, ucast (drop_bit 7 w) OR 0x80, ucast (drop_bit 14 w) OR 0x80,
      ucast (drop_bit 21 w) OR 0x80, ucast (drop_bit 28 w)]"
    using b [of 0] by (simp add: putFixedUvarint32_def b upt_rec)
  then show ?thesis unfolding length_prefix_def Uvarint_def
    using sp [of 0 0] sp [of 7 7] sp [of 14 14] sp [of 21 21] last
    by (simp add: Uvarint_step Uvarint_last or.assoc w_def [symmetric] del: Uvarint_loop.simps(2))
qed

lemma length_putFixed [simp]: "length (putFixedUvarint32 v) = 5"
  by (simp add: putFixedUvarint32_def)

lemma length_be_bytes4 [simp]: "length (be_bytes4 w) = 4" and length_le_bytes4 [simp]: "length (le_bytes4 u) = 4"
  by (simp_all add: be_bytes4_def le_bytes4_def)

text \<open>The records the store writes.\<close>

definition good_record :: "walRecordEnvelope \<Rightarrow> bool" where
  "good_record r \<longleftrightarrow> (\<exists>e. r = entry_record e \<and> entry_ok e) \<or> (\<exists>h. r = prune_record h)"

lemma length_array [simp]: "length (appendUint64Array [] v) = 32"
  by (cases v) (simp add: appendUint64_def)

lemma length_option_bytes: "length (option_bytes v) \<le> 33"
  by (simp add: option_bytes_def split: option.splits)

lemma length_entry_bytes: "length (entry_bytes e) \<le> 100"
proof (cases e)
  case (WalProposal p)
  then show ?thesis using length_option_bytes [of "Value p"] by (simp add: proposal_bytes_def header_bytes_def)
next
  case (WalPrevote v)
  then show ?thesis using length_option_bytes [of "ID v"] by (simp add: vote_bytes_def header_bytes_def)
next
  case (WalPrecommit v)
  then show ?thesis using length_option_bytes [of "ID v"] by (simp add: vote_bytes_def header_bytes_def)
qed (simp_all add: timeout_bytes_def)

lemma good_payload:
  assumes "good_record r"
  obtains pl where "\<And>p. appendWALRecordPayload p r = Inr (p @ pl)" "decodeWALRecord pl = Inr r" "length pl < 2 ^ 32"
  using assms unfolding good_record_def
proof (elim disjE exE conjE)
  fix e assume e: "r = entry_record e" "entry_ok e"
  show thesis using that [of "walRecordEntry # entry_bytes e"] payload_entry decode_entry [OF e(2)] length_entry_bytes [of e] e(1) by simp
next
  fix h assume "r = prune_record h"
  then show thesis using that [of "walRecordPruneUpToHeight # le_bytes8 h"] payload_prune decode_prune by simp
qed

definition decodes_to :: "batch_lib \<Rightarrow> uint8 \<times> uint8 list \<times> uint8 list \<Rightarrow> walRecordEnvelope \<Rightarrow> bool" where
  "decodes_to lib en r \<longleftrightarrow> (case en of (kind, key, value) \<Rightarrow> kind = bl_KindSet lib \<and> decodeWALRecord value = Inr r)"

lemma length_prefix_4: "length_prefix [4] 4"
  by (simp add: length_prefix_def Uvarint_def)

lemma encode_records_layout:
  assumes "list_all good_record rs"
  shows "\<exists>bss es. encode_records lib i buf rs = Inr (buf @ concat bss) \<and> list_all2 (entry_layout lib) bss es \<and> list_all2 (decodes_to lib) es rs"
  using assms
proof (induction rs arbitrary: i buf)
  case Nil
  have "encode_records lib i buf [] = Inr (buf @ concat [])" by simp
  then show ?case by blast
next
  case (Cons r rs)
  then obtain pl where pl: "\<And>p. appendWALRecordPayload p r = Inr (p @ pl)" "decodeWALRecord pl = Inr r" "length pl < 2 ^ 32"
    using good_payload [of r] by auto
  let ?key = "be_bytes4 (of_nat i)" and ?len = "putFixedUvarint32 (of_nat (length pl))"
  let ?b = "bl_KindSet lib # [4] @ ?key @ ?len @ pl" and ?e = "(bl_KindSet lib, ?key, pl)"
  have "list_all good_record rs" using Cons.prems by simp
  from Cons.IH [OF this, of "Suc i" "buf @ ?b"] obtain bss es
    where IH: "encode_records lib (Suc i) (buf @ ?b) rs = Inr ((buf @ ?b) @ concat bss)"
    "list_all2 (entry_layout lib) bss es" "list_all2 (decodes_to lib) es rs" by (elim exE conjE) (rule that)
  have "copy_at (length buf + 6) (buf @ [bl_KindSet lib, 4] @ ?key @ replicate 5 0 @ pl) ?len = buf @ ?b"
    by (simp add: copy_at_def)
  then have "encode_records lib i buf (r # rs) = Inr (buf @ concat (?b # bss))"
    using IH(1) pl(1) by (simp add: Let_def)
  moreover have "length_prefix ?len (length pl)" using Uvarint_putFixed [of "of_nat (length pl)"] pl(3) by (simp add: unat_nat32)
  then have "entry_layout lib ?b ?e" unfolding entry_layout_def using length_prefix_4 pl(3)
    by (intro exI [of _ ?key] exI [of _ pl] exI [of _ "[4]"] exI [of _ ?len]) simp
  moreover have "decodes_to lib ?e r" using pl(2) by (simp add: decodes_to_def)
  ultimately show ?case using IH(2,3) by (intro exI [of _ "?b # bss"] exI [of _ "?e # es"]) simp
qed

lemma encodeBatch_read:
  assumes "batch_laws lib" and "list_all good_record rs" and "length rs < 2 ^ 32"
  shows "\<exists>bs es. encodeBatch lib rs seq = Inr bs \<and> bl_ReadHeader lib bs = Some (seq, of_nat (length rs)) \<and>
    bl_Entries lib bs = (es, None) \<and> list_all2 (decodes_to lib) es rs"
proof -
  let ?h = "le_bytes8 seq @ le_bytes4 (of_nat (length rs))"
  obtain bss es where e: "encode_records lib 0 ?h rs = Inr (?h @ concat bss)"
    "list_all2 (entry_layout lib) bss es" "list_all2 (decodes_to lib) es rs"
    using encode_records_layout [OF assms(2), of lib 0 ?h] by blast
  have "bl_ReadHeader lib (le_bytes8 seq @ le_bytes4 (of_nat (length rs)) @ concat bss) = Some (seq, of_nat (length rs))"
    using assms(1) unfolding batch_laws_def by blast
  moreover have "bl_Entries lib (?h @ concat bss) = (es, None)"
    by (rule assms(1) [unfolded batch_laws_def, THEN conjunct2, rule_format, OF _ e(2)]) simp
  moreover have "encodeBatch lib rs seq = Inr (?h @ concat bss)" using assms(3) e(1) by (simp add: encodeBatch_def)
  ultimately show ?thesis using e(3) by auto
qed

section \<open>A library that keeps the laws\<close>

text \<open>A reader of the layout, to show that the laws can hold.\<close>

fun parse_entries :: "nat \<Rightarrow> uint8 list \<Rightarrow> (uint8 \<times> uint8 list \<times> uint8 list) list \<times> string option" where
  "parse_entries fuel [] = ([], None)"
| "parse_entries 0 (k # bs) = ([], Some ''fuel'')"
| "parse_entries (Suc fuel) (k # bs) =
     (let (l1, c1) = Uvarint bs; r1 = drop (nat c1) bs; (l2, c2) = Uvarint (drop (unat l1) r1); r2 = drop (nat c2) (drop (unat l1) r1)
      in apfst ((#) (k, take (unat l1) r1, take (unat l2) r2)) (parse_entries fuel (drop (unat l2) r2)))"

definition plain_batch :: batch_lib where
  "plain_batch = \<lparr> bl_KindSet = 1,
     bl_ReadHeader = (\<lambda>bs. if length bs < 12 then None else Some (le_word (take 8 bs), le_word (take 4 (drop 8 bs)))),
     bl_Entries = (\<lambda>bs. parse_entries (length bs) (drop 12 bs)) \<rparr>"

lemma le_word_bytes4 [simp]: "le_word (le_bytes4 w) = w"
proof (rule bit_word_eqI)
  fix n assume "n < LENGTH(32)"
  then have n: "n < 32" "n div 8 < 4" by simp_all
  then have "bit (le_bytes4 w ! (n div 8)) (n mod 8) \<longleftrightarrow> bit w n"
    by (simp add: le_bytes4_def bit_simps del: upt_conv_Cons_Cons upt_rec_numeral)
  then show "bit (le_word (le_bytes4 w) :: uint32) n \<longleftrightarrow> bit w n" using n by (simp add: bit_le_word le_bytes4_def)
qed

lemma parse_entry:
  assumes "entry_layout lib b en"
  shows "parse_entries (Suc fuel) (b @ rest) = apfst ((#) en) (parse_entries fuel rest)"
proof -
  obtain key v e1 e2 where en: "en = (bl_KindSet lib, key, v)" "length key < 2 ^ 32" "length v < 2 ^ 32"
    "length_prefix e1 (length key)" "length_prefix e2 (length v)" "b = bl_KindSet lib # e1 @ key @ e2 @ v"
    using assms unfolding entry_layout_def by blast
  have "unat (of_nat (length key) :: uint64) = length key" "unat (of_nat (length v) :: uint64) = length v"
    using en(2,3) by (simp_all add: unat_nat64)
  moreover have "Uvarint (e1 @ r) = (of_nat (length key), int (length e1))" "Uvarint (e2 @ r) = (of_nat (length v), int (length e2))" for r
    using en(4,5) by (simp_all add: length_prefix_def)
  ultimately show ?thesis by (simp add: en(1,6))
qed

lemma parse_all: "list_all2 (entry_layout lib) bss es \<Longrightarrow> length bss \<le> fuel \<Longrightarrow> parse_entries fuel (concat bss) = (es, None)"
proof (induction bss es arbitrary: fuel rule: list_all2_induct)
  case (Cons b bss en es)
  then obtain f where "fuel = Suc f" "length bss \<le> f" by (cases fuel) auto
  then show ?case using parse_entry [OF Cons.hyps(1), of f "concat bss"] Cons.IH [of f] by simp
qed simp

lemma plain_batch_laws: "batch_laws plain_batch"
  unfolding batch_laws_def
proof (intro conjI allI impI)
  fix header :: "uint8 list" and bss es assume a: "length header = 12" "list_all2 (entry_layout plain_batch) bss es"
  have "entry_layout plain_batch b en \<Longrightarrow> 1 \<le> length b" for b en by (auto simp: entry_layout_def)
  with a(2) have "length bss \<le> length (concat bss)" by (induction bss es rule: list_all2_induct) fastforce+
  then show "bl_Entries plain_batch (header @ concat bss) = (es, None)" using parse_all [OF a(2)] a(1) by (simp add: plain_batch_def)
qed (simp add: plain_batch_def)

section \<open>Properties\<close>

text \<open>C24: Encoding and decoding of a log entry. The record made of any entry, whose rounds are 64-bit integers and whose step is a
  byte, is encoded without an error, its encoding decodes to the same record, and the record gives back the entry.\<close>

theorem wal_record_roundtrip:
  assumes "entry_ok e"
  shows "\<exists>bs. appendWALRecordPayload [] (setEntry (new_record walRecordEntry) e) = Inr bs \<and>
    decodeWALRecord bs = Inr (setEntry (new_record walRecordEntry) e) \<and> record_entry (setEntry (new_record walRecordEntry) e) = Some e"
  using payload_entry [of "[]" e] decode_entry [OF assms] entry_record_simps(2) [of e] by (simp add: entry_record_def)

theorem wal_record_roundtrip_witness:
  "let e = WalPrecommit \<lparr> Height = 7, Round = - 1, Sender = (1, 2, 3, 4), ID = Some (5, 6, 7, 8) \<rparr>
   in \<exists>bs. appendWALRecordPayload [] (setEntry (new_record walRecordEntry) e) = Inr bs \<and>
     decodeWALRecord bs = Inr (setEntry (new_record walRecordEntry) e)"
  using wal_record_roundtrip [of "WalPrecommit \<lparr> Height = 7, Round = - 1, Sender = (1, 2, 3, 4), ID = Some (5, 6, 7, 8) \<rparr>"]
  by (simp only: Let_def entry_ok.simps vote.simps message_header.simps) auto

text \<open>C25: The encoding of records is canonical: bytes that decode to a record are the encoding of that record, so no two byte
  strings decode to the same record, and every decoded record holds an entry or is a prune record.\<close>

theorem wal_decode_canonical:
  assumes "decodeWALRecord bs = Inr r"
  shows "appendWALRecordPayload [] r = Inr bs \<and> (wr_Kind r = walRecordEntry \<and> record_entry r \<noteq> None \<or> wr_Kind r = walRecordPruneUpToHeight)"
  using assms
proof (cases rule: decode_cases)
  case (entry e)
  then show ?thesis using payload_entry [of "[]" e] by simp
next
  case (prune h)
  then show ?thesis using payload_prune [of "[]" h] by simp
qed

theorem wal_decode_canonical_witness:
  "\<exists>r. decodeWALRecord [2, 5, 0, 0, 0, 0, 0, 0, 0] = Inr r \<and> appendWALRecordPayload [] r = Inr [2, 5, 0, 0, 0, 0, 0, 0, 0]"
proof -
  have "decodeWALRecord [2, 5, 0, 0, 0, 0, 0, 0, 0] = Inr ((new_record 2)\<lparr> wr_Height := 5 \<rparr>)"
    by (simp add: decodeWALRecord_def kind_defs readHeight_def readUint64_def le_word_def)
  from wal_decode_canonical [OF this] this show ?thesis by blast
qed

end
