(* ===== verification/Wal_Store.thy ===== *)
theory Wal_Store
  imports Wal_Codec
begin

text \<open>
  The store of the consensus write-ahead log (\<open>consensus/walstore/wal_store.go\<close>, \<open>wal_writer.go\<close>, \<open>wal_index.go\<close>, \<open>replay.go\<close>,
  \<open>prune_watermark.go\<close>). The disk holds the log files, each as the list of the complete batches Pebble's reader finds in it, and
  the file of the prune watermark; an offset in a log file is a number of batches. Whether the file system and Pebble's writer
  succeed at each step of a write is an argument of the operation. What follows the last complete batch of a file is not part of the
  model: reopening truncates it (\<open>recoverLatestWALTail\<close>), and replay ignores it in the newest file; an older file has no such tail,
  since a writer whose repair failed creates no new file. Reading the files of the disk, and \<open>Init\<close> and \<open>Close\<close> of Pebble's manager,
  are taken to succeed. \<open>wal_step\<close> has the operations of the store and its reopening from the disk, at any moment.
\<close>

unbundle bit_operations_syntax

section \<open>State\<close>

record walNumSet =
  wn_first :: nat
  wn_rest :: "nat list"

record walWriter =
  ww_nextWALNum :: nat
  ww_current :: "nat option"
  ww_syncedOffset :: nat
  ww_repairRequired :: bool

record wal_disk =
  dk_logs :: "(nat \<times> uint8 list list) list"
  dk_watermark :: "uint8 list option"

record wal_store =
  ws_closed :: bool
  ws_wal :: walWriter
  ws_nextBatchSeqNum :: uint64
  ws_entriesByHeight :: "height \<rightharpoonup> walentry list"
  ws_walFilesByHeight :: "height \<rightharpoonup> walNumSet"
  ws_walHeightRefs :: "nat \<rightharpoonup> int"
  ws_prunedUpToHeight :: height
  ws_pendingRecords :: "walRecordEnvelope list"
  ws_pruneRecordsSinceCleanup :: uint64

datatype store_error =
    WalClosed
  | EncodeError wal_error
  | TailRepairFailed
  | CreateWriter
  | WriteRecord
  | CloseWriter
  | RepairTail
  | WriteWatermark
  | RemoveObsolete
  | WatermarkSize nat
  | WatermarkHeader
  | ReplayError wal_error
  | StorePanic

section \<open>The prune watermark\<close>

definition pruneWatermarkHeader :: "uint8 list" where
  "pruneWatermarkHeader = string_bytes ''juno-wal-prune-watermark-v1''"

definition loadPruneWatermark :: "uint8 list option \<Rightarrow> store_error + height" where
  "loadPruneWatermark file =
     (case file of
        None \<Rightarrow> Inr 0
      | Some data \<Rightarrow>
          if length data \<noteq> length pruneWatermarkHeader + 8 then Inl (WatermarkSize (length data))
          else if take (length pruneWatermarkHeader) data \<noteq> pruneWatermarkHeader then Inl WatermarkHeader
          else Inr (be_word (drop (length pruneWatermarkHeader) data)))"

text \<open>The file is replaced by a rename; \<open>replaced\<close> says whether the rename happened, \<open>ok\<close> whether everything succeeded.\<close>

definition writePruneWatermark :: "wal_disk \<Rightarrow> height \<Rightarrow> bool \<Rightarrow> bool \<Rightarrow> store_error list \<times> wal_disk" where
  "writePruneWatermark d height replaced ok =
     (let data = copy_at (length pruneWatermarkHeader) (copy_at 0 (replicate (length pruneWatermarkHeader + 8) 0) pruneWatermarkHeader)
                   (be_bytes8 height)
      in (if ok then [] else [WriteWatermark], if ok \<or> replaced then d\<lparr> dk_watermark := Some data \<rparr> else d))"

section \<open>The writer\<close>

definition nextWALNum :: "(nat \<times> uint8 list list) list \<Rightarrow> nat" where
  "nextWALNum logs = fold (\<lambda>log next. if fst log + 1 > next then fst log + 1 else next) logs 1"

definition newWALWriter :: "nat \<Rightarrow> walWriter" where
  "newWALWriter nextNum = \<lparr> ww_nextWALNum = nextNum, ww_current = None, ww_syncedOffset = 0, ww_repairRequired = False \<rparr>"

definition ensureWriter :: "walWriter \<Rightarrow> wal_disk \<Rightarrow> bool \<Rightarrow> store_error + nat \<times> walWriter \<times> wal_disk" where
  "ensureWriter w d createOk =
     (if ww_repairRequired w then Inl TailRepairFailed
      else case ww_current w of
             Some n \<Rightarrow> Inr (n, w, d)
           | None \<Rightarrow>
               if \<not> createOk then Inl CreateWriter
               else Inr (ww_nextWALNum w,
                 w\<lparr> ww_current := Some (ww_nextWALNum w), ww_nextWALNum := ww_nextWALNum w + 1, ww_syncedOffset := 0 \<rparr>,
                 d\<lparr> dk_logs := dk_logs d @ [(ww_nextWALNum w, [])] \<rparr>))"

definition closeCurrent :: "walWriter \<Rightarrow> bool \<Rightarrow> store_error list \<times> walWriter" where
  "closeCurrent w closeOk =
     (case ww_current w of
        None \<Rightarrow> ([], w)
      | Some _ \<Rightarrow> (if closeOk then [] else [CloseWriter], w\<lparr> ww_current := None, ww_syncedOffset := 0 \<rparr>))"

text \<open>Truncation of one log file.\<close>

definition repairWALTail :: "wal_disk \<Rightarrow> nat \<Rightarrow> nat \<Rightarrow> wal_disk" where
  "repairWALTail d num offset = d\<lparr> dk_logs := map (\<lambda>(n, bs). (n, if n = num then take offset bs else bs)) (dk_logs d) \<rparr>"

definition closeAndRepairCurrent ::
  "walWriter \<Rightarrow> wal_disk \<Rightarrow> nat \<Rightarrow> bool \<Rightarrow> bool \<Rightarrow> bool \<Rightarrow> store_error list \<times> walWriter \<times> wal_disk" where
  "closeAndRepairCurrent w d repairOffset forceRepair closeOk repairOk =
     (case ww_current w of
        None \<Rightarrow> ([], w, d)
      | Some num \<Rightarrow>
          (case closeCurrent w closeOk of
             (closeErr, w) \<Rightarrow>
               if closeErr = [] \<and> \<not> forceRepair then ([], w\<lparr> ww_repairRequired := False \<rparr>, d)
               else if \<not> repairOk then (closeErr @ [RepairTail], w\<lparr> ww_repairRequired := True \<rparr>, d)
               else (closeErr, w\<lparr> ww_repairRequired := False \<rparr>, repairWALTail d num repairOffset)))"

text \<open>What happens to a write: the record is written and synced, or it fails, and then its bytes may be in the file all the same.\<close>

record append_env =
  ae_createOk :: bool
  ae_written :: bool
  ae_survives :: bool
  ae_closeOk :: bool
  ae_repairOk :: bool

definition log_append :: "wal_disk \<Rightarrow> nat \<Rightarrow> uint8 list \<Rightarrow> wal_disk" where
  "log_append d num b = d\<lparr> dk_logs := map (\<lambda>(n, bs). (n, if n = num then bs @ [b] else bs)) (dk_logs d) \<rparr>"

definition appendSync :: "append_env \<Rightarrow> walWriter \<Rightarrow> wal_disk \<Rightarrow> uint8 list \<Rightarrow> (store_error list + nat) \<times> walWriter \<times> wal_disk" where
  "appendSync env w d encodedBatch =
     (case ensureWriter w d (ae_createOk env) of
        Inl err \<Rightarrow> (Inl [err], w, d)
      | Inr (walNum, w, d) \<Rightarrow>
          if ae_written env then (Inr walNum, w\<lparr> ww_syncedOffset := ww_syncedOffset w + 1 \<rparr>, log_append d walNum encodedBatch)
          else
            (let d = (if ae_survives env then log_append d walNum encodedBatch else d)
             in case closeAndRepairCurrent w d (ww_syncedOffset w) True (ae_closeOk env) (ae_repairOk env) of
                  (abortErr, w, d) \<Rightarrow> (Inl (WriteRecord # abortErr), w, d)))"

definition minLiveWALNum :: "walWriter \<Rightarrow> nat" where
  "minLiveWALNum w = (case ww_current w of Some n \<Rightarrow> if n < ww_nextWALNum w then n else ww_nextWALNum w | None \<Rightarrow> ww_nextWALNum w)"

section \<open>The index\<close>

definition addIfMissing :: "walNumSet \<Rightarrow> nat \<Rightarrow> bool \<times> walNumSet" where
  "addIfMissing s walNum =
     (if wn_first s = 0 then (True, s\<lparr> wn_first := walNum \<rparr>)
      else if wn_first s = walNum \<or> walNum \<in> set (wn_rest s) then (False, s)
      else (True, s\<lparr> wn_rest := wn_rest s @ [walNum] \<rparr>))"

definition rangeOver :: "walNumSet \<Rightarrow> nat list" where
  "rangeOver s = (if wn_first s = 0 then [] else wn_first s # wn_rest s)"

definition empty_set :: walNumSet where
  "empty_set = \<lparr> wn_first = 0, wn_rest = [] \<rparr>"

text \<open>Reading a map of Go: the zero value where there is no entry.\<close>

definition files_of :: "wal_store \<Rightarrow> height \<Rightarrow> walNumSet" where
  "files_of s h = (case ws_walFilesByHeight s h of None \<Rightarrow> empty_set | Some x \<Rightarrow> x)"

definition refs_of :: "(nat \<rightharpoonup> int) \<Rightarrow> nat \<Rightarrow> int" where
  "refs_of m n = (case m n of None \<Rightarrow> 0 | Some k \<Rightarrow> k)"

definition addLiveEntry :: "wal_store \<Rightarrow> nat \<Rightarrow> walentry \<Rightarrow> wal_store" where
  "addLiveEntry s walNum entry =
     (let height = GetHeight entry;
          old = (case ws_entriesByHeight s height of None \<Rightarrow> [] | Some es \<Rightarrow> es);
          s = s\<lparr> ws_entriesByHeight := (ws_entriesByHeight s)(height \<mapsto> old @ [entry]) \<rparr>
      in case addIfMissing (files_of s height) walNum of
           (True, files) \<Rightarrow>
             s\<lparr> ws_walFilesByHeight := (ws_walFilesByHeight s)(height \<mapsto> files),
                ws_walHeightRefs := (ws_walHeightRefs s)(walNum \<mapsto> refs_of (ws_walHeightRefs s) walNum + 1) \<rparr>
         | (False, files) \<Rightarrow> s)"

definition drop_ref :: "(nat \<rightharpoonup> int) \<Rightarrow> nat \<Rightarrow> nat \<rightharpoonup> int" where
  "drop_ref m walNum = (let m = m(walNum \<mapsto> refs_of m walNum - 1) in if refs_of m walNum = 0 then m(walNum := None) else m)"

definition deleteLiveHeight :: "height \<Rightarrow> wal_store \<Rightarrow> wal_store" where
  "deleteLiveHeight height s =
     s\<lparr> ws_entriesByHeight := (ws_entriesByHeight s)(height := None),
        ws_walFilesByHeight := (ws_walFilesByHeight s)(height := None),
        ws_walHeightRefs := foldl drop_ref (ws_walHeightRefs s) (rangeOver (files_of s height)) \<rparr>"

text \<open>The loop runs over the keys of a map; here they are taken in increasing order.\<close>

definition pruneLiveEntriesUpTo :: "wal_store \<Rightarrow> height \<Rightarrow> wal_store" where
  "pruneLiveEntriesUpTo s height =
     (if height \<le> ws_prunedUpToHeight s then s
      else fold deleteLiveHeight (filter (\<lambda>h. h \<le> height) (sorted_list_of_set (dom (ws_entriesByHeight s))))
             (s\<lparr> ws_prunedUpToHeight := height \<rparr>))"

text \<open>One record, committed or replayed. \<open>None\<close> is the panic of \<open>entry\<close>.\<close>

definition index_record :: "nat \<Rightarrow> wal_store \<Rightarrow> walRecordEnvelope \<Rightarrow> wal_store option" where
  "index_record walNum s r =
     (if wr_Kind r = walRecordEntry then
        (case record_entry r of
           None \<Rightarrow> None
         | Some entry \<Rightarrow> Some (if GetHeight entry \<le> ws_prunedUpToHeight s then s else addLiveEntry s walNum entry))
      else if wr_Kind r = walRecordPruneUpToHeight then Some (pruneLiveEntriesUpTo s (wr_Height r))
      else Some s)"

fun updateIndexesFromCommittedRecords :: "nat \<Rightarrow> wal_store \<Rightarrow> walRecordEnvelope list \<Rightarrow> wal_store option" where
  "updateIndexesFromCommittedRecords walNum s [] = Some s"
| "updateIndexesFromCommittedRecords walNum s (r # rs) =
     (case index_record walNum s r of None \<Rightarrow> None | Some s \<Rightarrow> updateIndexesFromCommittedRecords walNum s rs)"

section \<open>Replay\<close>

definition applyEncodedRecord :: "nat \<Rightarrow> wal_store \<Rightarrow> uint8 list \<Rightarrow> wal_error + wal_store" where
  "applyEncodedRecord walNum s value =
     bindE (decodeWALRecord value) (\<lambda>r.
     if wr_Kind r = walRecordEntry \<or> wr_Kind r = walRecordPruneUpToHeight then
       (case index_record walNum s r of None \<Rightarrow> Inl WalPanic | Some s \<Rightarrow> Inr s)
     else Inl (UnknownRecordKind (wr_Kind r)))"

fun apply_entries :: "batch_lib \<Rightarrow> nat \<Rightarrow> wal_store \<Rightarrow> nat \<Rightarrow> (uint8 \<times> uint8 list \<times> uint8 list) list \<Rightarrow> wal_error + nat \<times> wal_store" where
  "apply_entries lib walNum s seen [] = Inr (seen, s)"
| "apply_entries lib walNum s seen ((kind, key, value) # es) =
     (if kind \<noteq> bl_KindSet lib then Inl (UnexpectedKeyKind kind)
      else bindE (applyEncodedRecord walNum s value) (\<lambda>s. apply_entries lib walNum s (seen + 1) es))"

definition applyEncodedBatch :: "batch_lib \<Rightarrow> nat \<Rightarrow> wal_store \<Rightarrow> uint8 list \<Rightarrow> wal_error + wal_store" where
  "applyEncodedBatch lib walNum s encodedBatch =
     (case bl_ReadHeader lib encodedBatch of
        None \<Rightarrow> Inl MissingHeader
      | Some (seqNum, count) \<Rightarrow>
          (let nextSeq = seqNum + ucast count;
               s = (if nextSeq > ws_nextBatchSeqNum s then s\<lparr> ws_nextBatchSeqNum := nextSeq \<rparr> else s);
               (es, err) = bl_Entries lib encodedBatch
           in bindE (apply_entries lib walNum s 0 es) (\<lambda>(seen, s).
              case err of
                Some e \<Rightarrow> Inl (BatchIter e)
              | None \<Rightarrow> if of_nat seen \<noteq> count then Inl (CountMismatch count seen) else Inr s)))"

fun loadLogicalLog :: "batch_lib \<Rightarrow> nat \<Rightarrow> wal_store \<Rightarrow> uint8 list list \<Rightarrow> wal_error + wal_store" where
  "loadLogicalLog lib walNum s [] = Inr s"
| "loadLogicalLog lib walNum s (b # bs) = bindE (applyEncodedBatch lib walNum s b) (\<lambda>s. loadLogicalLog lib walNum s bs)"

fun loadExistingEntries :: "batch_lib \<Rightarrow> wal_store \<Rightarrow> (nat \<times> uint8 list list) list \<Rightarrow> wal_error + wal_store" where
  "loadExistingEntries lib s [] = Inr s"
| "loadExistingEntries lib s ((num, bs) # logs) = bindE (loadLogicalLog lib num s bs) (\<lambda>s. loadExistingEntries lib s logs)"

section \<open>The store\<close>

definition empty_store :: "walWriter \<Rightarrow> height \<Rightarrow> wal_store" where
  "empty_store w pruned =
     \<lparr> ws_closed = False, ws_wal = w, ws_nextBatchSeqNum = 1, ws_entriesByHeight = Map.empty, ws_walFilesByHeight = Map.empty,
       ws_walHeightRefs = Map.empty, ws_prunedUpToHeight = pruned, ws_pendingRecords = [], ws_pruneRecordsSinceCleanup = 0 \<rparr>"

definition NewTendermintWALStore :: "batch_lib \<Rightarrow> wal_disk \<Rightarrow> store_error + wal_store" where
  "NewTendermintWALStore lib d =
     bindE (loadPruneWatermark (dk_watermark d)) (\<lambda>pruned.
     mapErr ReplayError (loadExistingEntries lib (empty_store (newWALWriter (nextWALNum (dk_logs d))) pruned) (dk_logs d)))"

definition SetWALEntry :: "wal_store \<Rightarrow> walentry \<Rightarrow> store_error + wal_store" where
  "SetWALEntry s entry =
     (if ws_closed s then Inl WalClosed
      else let r = setEntry (new_record walRecordEntry) entry
           in if GetHeight entry \<le> ws_prunedUpToHeight s then Inr s
              else Inr (s\<lparr> ws_pendingRecords := ws_pendingRecords s @ [r] \<rparr>))"

text \<open>The loop over the pending records stops at the first prune record and raises its height.\<close>

fun raise_prune :: "height \<Rightarrow> walRecordEnvelope list \<Rightarrow> walRecordEnvelope list option" where
  "raise_prune height [] = None"
| "raise_prune height (r # rs) =
     (if wr_Kind r = walRecordPruneUpToHeight then Some (r\<lparr> wr_Height := max (wr_Height r) height \<rparr> # rs)
      else map_option ((#) r) (raise_prune height rs))"

definition DeleteWALEntries :: "wal_store \<Rightarrow> height \<Rightarrow> store_error + wal_store" where
  "DeleteWALEntries s height =
     (if ws_closed s then Inl WalClosed
      else if height \<le> ws_prunedUpToHeight s then Inr s
      else case raise_prune height (ws_pendingRecords s) of
             Some rs \<Rightarrow> Inr (s\<lparr> ws_pendingRecords := rs \<rparr>)
           | None \<Rightarrow> Inr (s\<lparr> ws_pendingRecords := ws_pendingRecords s @ [(new_record walRecordPruneUpToHeight)\<lparr> wr_Height := height \<rparr>] \<rparr>))"

definition LoadAllEntries :: "wal_store \<Rightarrow> walentry list" where
  "LoadAllEntries s =
     concat (map (\<lambda>h. case ws_entriesByHeight s h of None \<Rightarrow> [] | Some es \<Rightarrow> es) (sorted_list_of_set (dom (ws_entriesByHeight s))))"

definition countPruneRecords :: "walRecordEnvelope list \<Rightarrow> uint64" where
  "countPruneRecords rs = of_nat (length (filter (\<lambda>r. wr_Kind r = walRecordPruneUpToHeight) rs))"

text \<open>What happens during a clean-up: \<open>ce_removed\<close> says which of the obsolete files are removed.\<close>

record cleanup_env =
  ce_watermarkReplaced :: bool
  ce_watermarkOk :: bool
  ce_closeOk :: bool
  ce_repairOk :: bool
  ce_removed :: "nat \<Rightarrow> bool"
  ce_removeOk :: bool

definition cleanupObsoleteWALs :: "cleanup_env \<Rightarrow> wal_store \<Rightarrow> wal_disk \<Rightarrow> store_error list \<times> wal_disk" where
  "cleanupObsoleteWALs env s d =
     (let minLive = Min (insert (minLiveWALNum (ws_wal s)) (dom (ws_walHeightRefs s)))
      in (if ce_removeOk env then [] else [RemoveObsolete],
          d\<lparr> dk_logs := filter (\<lambda>(n, _). \<not> (n < minLive \<and> ce_removed env n)) (dk_logs d) \<rparr>))"

definition removeObsoleteWALFiles :: "cleanup_env \<Rightarrow> wal_store \<Rightarrow> wal_disk \<Rightarrow> uint64 \<Rightarrow> store_error list \<times> wal_store \<times> wal_disk" where
  "removeObsoleteWALFiles env s d pruneRecordCount =
     (if pruneRecordCount = 0 then ([], s, d)
      else let s = s\<lparr> ws_pruneRecordsSinceCleanup := ws_pruneRecordsSinceCleanup s + pruneRecordCount \<rparr>
           in if ws_pruneRecordsSinceCleanup s < 256 then ([], s, d)
              else case writePruneWatermark d (ws_prunedUpToHeight s) (ce_watermarkReplaced env) (ce_watermarkOk env) of
                     (watermarkErr, d) \<Rightarrow>
                       if watermarkErr \<noteq> [] then (watermarkErr, s, d)
                       else case closeAndRepairCurrent (ws_wal s) d (ww_syncedOffset (ws_wal s)) False (ce_closeOk env) (ce_repairOk env) of
                              (rotateErr, w, d) \<Rightarrow>
                                (let s = s\<lparr> ws_wal := w \<rparr>; (cleanupErr, d) = cleanupObsoleteWALs env s d
                                 in (rotateErr @ cleanupErr,
                                     if rotateErr = [] \<and> cleanupErr = [] then s\<lparr> ws_pruneRecordsSinceCleanup := 0 \<rparr> else s, d)))"

definition Flush :: "batch_lib \<Rightarrow> append_env \<Rightarrow> cleanup_env \<Rightarrow> wal_store \<Rightarrow> wal_disk \<Rightarrow> store_error list \<times> wal_store \<times> wal_disk" where
  "Flush lib ae ce s d =
     (if ws_closed s then ([WalClosed], s, d)
      else if ws_pendingRecords s = [] then ([], s, d)
      else case encodeBatch lib (ws_pendingRecords s) (ws_nextBatchSeqNum s) of
             Inl err \<Rightarrow> ([EncodeError err], s, d)
           | Inr encodedBatch \<Rightarrow>
               (case appendSync ae (ws_wal s) d encodedBatch of
                  (Inl err, w, d) \<Rightarrow> (err, s\<lparr> ws_wal := w \<rparr>, d)
                | (Inr walNum, w, d) \<Rightarrow>
                    (let records = ws_pendingRecords s;
                         s = s\<lparr> ws_wal := w, ws_nextBatchSeqNum := ws_nextBatchSeqNum s + of_nat (length records) \<rparr>
                     in case updateIndexesFromCommittedRecords walNum s records of
                          None \<Rightarrow> ([StorePanic], s, d)
                        | Some s \<Rightarrow>
                            (case removeObsoleteWALFiles ce s d (countPruneRecords records) of
                               (err, s, d) \<Rightarrow> (err, s\<lparr> ws_pendingRecords := [] \<rparr>, d)))))"

definition Close :: "batch_lib \<Rightarrow> append_env \<Rightarrow> cleanup_env \<Rightarrow> wal_store \<Rightarrow> wal_disk \<Rightarrow> store_error list \<times> wal_store \<times> wal_disk" where
  "Close lib ae ce s d =
     (if ws_closed s then ([], s, d)
      else case Flush lib ae ce s d of
             (flushErr, s, d) \<Rightarrow>
               (case closeAndRepairCurrent (ws_wal s) d (ww_syncedOffset (ws_wal s)) False (ae_closeOk ae) (ae_repairOk ae) of
                  (closeErr, w, d) \<Rightarrow> (flushErr @ closeErr, s\<lparr> ws_closed := True, ws_wal := w \<rparr>, d)))"

section \<open>Runs\<close>

inductive wal_step :: "batch_lib \<Rightarrow> wal_store \<times> wal_disk \<Rightarrow> wal_store \<times> wal_disk \<Rightarrow> bool" for lib where
  set: "entry_ok e \<Longrightarrow> SetWALEntry s e = Inr s' \<Longrightarrow> wal_step lib (s, d) (s', d)"
| delete: "DeleteWALEntries s h = Inr s' \<Longrightarrow> wal_step lib (s, d) (s', d)"
| flush: "Flush lib ae ce s d = (err, s', d') \<Longrightarrow> wal_step lib (s, d) (s', d')"
| close: "Close lib ae ce s d = (err, s', d') \<Longrightarrow> wal_step lib (s, d) (s', d')"
| reopen: "NewTendermintWALStore lib d = Inr s' \<Longrightarrow> wal_step lib (s, d) (s', d)"

section \<open>What the index holds\<close>

text \<open>An item is a record with the number of its log file. The index is determined by the watermark and the items in their order:
  the prune height is the greatest recorded one, and above it each height has its entries.\<close>

type_synonym item = "nat \<times> walRecordEnvelope"

definition pruned_by :: "height \<Rightarrow> item list \<Rightarrow> height" where
  "pruned_by W its = fold (\<lambda>(n, r) p. if wr_Kind r = walRecordPruneUpToHeight then max p (wr_Height r) else p) its W"

definition item_entry :: "item \<Rightarrow> walentry option" where
  "item_entry it = (if wr_Kind (snd it) = walRecordEntry then record_entry (snd it) else None)"

definition live_at :: "item list \<Rightarrow> height \<Rightarrow> walentry list" where
  "live_at its h = filter (\<lambda>e. GetHeight e = h) (List.map_filter item_entry its)"

definition in_files :: "item list \<Rightarrow> height \<Rightarrow> nat set" where
  "in_files its h = {n. \<exists>r e. (n, r) \<in> set its \<and> item_entry (n, r) = Some e \<and> GetHeight e = h}"

abbreviation files :: "wal_store \<Rightarrow> height \<Rightarrow> nat set" where
  "files s h \<equiv> set (rangeOver (files_of s h))"

text \<open>The counter of a file is the number of heights that refer to it.\<close>

definition refs_inv :: "wal_store \<Rightarrow> bool" where
  "refs_inv s \<longleftrightarrow> finite (dom (ws_walFilesByHeight s)) \<and>
     (\<forall>h. distinct (rangeOver (files_of s h)) \<and> (wn_first (files_of s h) = 0 \<longrightarrow> wn_rest (files_of s h) = [])) \<and>
     (\<forall>n. ws_walHeightRefs s n = (let c = card {h. n \<in> files s h} in if c = 0 then None else Some (int c)))"

definition idx_inv :: "height \<Rightarrow> item list \<Rightarrow> wal_store \<Rightarrow> bool" where
  "idx_inv W its s \<longleftrightarrow> ws_prunedUpToHeight s = pruned_by W its \<and>
     (\<forall>h. ws_entriesByHeight s h = (if h \<le> ws_prunedUpToHeight s \<or> live_at its h = [] then None else Some (live_at its h))) \<and>
     (\<forall>h. files s h = (if h \<le> ws_prunedUpToHeight s then {} else in_files its h)) \<and>
     refs_inv s \<and> (\<forall>it \<in> set its. 0 < fst it \<and> good_record (snd it))"

lemma drop_refs: "distinct ns \<Longrightarrow>
    foldl drop_ref m ns n = (if n \<in> set ns then (if refs_of m n = 1 then None else Some (refs_of m n - 1)) else m n)"
proof (induction ns arbitrary: m)
  case (Cons k ns)
  have "drop_ref m k n = (if n = k then (if refs_of m k = 1 then None else Some (refs_of m k - 1)) else m n)"
    by (auto simp: drop_ref_def refs_of_def Let_def)
  moreover have "refs_of (drop_ref m k) n = (if n = k then refs_of m k - 1 else refs_of m n)"
    by (auto simp: drop_ref_def refs_of_def Let_def)
  ultimately show ?case using Cons by auto
qed simp

lemma files_finite: "refs_inv s \<Longrightarrow> finite {h. n \<in> files s h}"
  unfolding refs_inv_def
  by (rule finite_subset [of _ "dom (ws_walFilesByHeight s)"]) (auto simp: files_of_def rangeOver_def empty_set_def split: option.splits)

lemma refs_of_card: "refs_inv s \<Longrightarrow> refs_of (ws_walHeightRefs s) n = int (card {h. n \<in> files s h})"
  by (simp add: refs_inv_def refs_of_def Let_def)

lemma files_of_delete [simp]: "files_of (deleteLiveHeight h s) h' = (if h' = h then empty_set else files_of s h')"
  by (simp add: deleteLiveHeight_def files_of_def)

lemma rangeOver_empty [simp]: "rangeOver empty_set = []"
  by (simp add: rangeOver_def empty_set_def)

lemma empty_set_rest: "wn_rest empty_set = []"
  by (simp add: empty_set_def)

lemma deleteLiveHeight_refs:
  assumes "refs_inv s"
  shows "refs_inv (deleteLiveHeight h s)"
proof -
  let ?s = "deleteLiveHeight h s"
  have d: "distinct (rangeOver (files_of s h))" using assms by (simp add: refs_inv_def)
  have refs: "ws_walHeightRefs ?s n = (let c = card {h'. n \<in> files ?s h'} in if c = 0 then None else Some (int c))" for n
  proof (cases "n \<in> files s h")
    case True
    have "{h'. n \<in> files ?s h'} = {h'. n \<in> files s h'} - {h}" by auto
    then have c: "card {h'. n \<in> files s h'} = Suc (card {h'. n \<in> files ?s h'})"
      using True card.remove [OF files_finite [OF assms], of h n] by simp
    have "ws_walHeightRefs ?s n = foldl drop_ref (ws_walHeightRefs s) (rangeOver (files_of s h)) n" by (simp add: deleteLiveHeight_def)
    then show ?thesis using True c by (simp add: drop_refs [OF d] refs_of_card [OF assms] Let_def)
  next
    case False
    then have "{h'. n \<in> files ?s h'} = {h'. n \<in> files s h'}" by auto
    moreover have "ws_walHeightRefs ?s n = ws_walHeightRefs s n" using False by (simp add: deleteLiveHeight_def drop_refs [OF d])
    ultimately show ?thesis using assms by (simp add: refs_inv_def)
  qed
  have "finite (dom (ws_walFilesByHeight ?s))" using assms by (simp add: refs_inv_def deleteLiveHeight_def)
  moreover have "distinct (rangeOver (files_of ?s h')) \<and> (wn_first (files_of ?s h') = 0 \<longrightarrow> wn_rest (files_of ?s h') = [])" for h'
    using assms by (simp add: refs_inv_def empty_set_rest)
  ultimately show ?thesis using refs unfolding refs_inv_def by blast
qed

lemma deleteLiveHeight_fields [simp]:
  "ws_entriesByHeight (deleteLiveHeight h s) = (ws_entriesByHeight s)(h := None)"
  "ws_prunedUpToHeight (deleteLiveHeight h s) = ws_prunedUpToHeight s" "ws_wal (deleteLiveHeight h s) = ws_wal s"
  "ws_closed (deleteLiveHeight h s) = ws_closed s" "ws_pendingRecords (deleteLiveHeight h s) = ws_pendingRecords s"
  "ws_nextBatchSeqNum (deleteLiveHeight h s) = ws_nextBatchSeqNum s"
  by (simp_all add: deleteLiveHeight_def)

lemma delete_all:
  assumes "refs_inv s"
  shows "refs_inv (fold deleteLiveHeight hs s)"
    and "ws_entriesByHeight (fold deleteLiveHeight hs s) = (\<lambda>h. if h \<in> set hs then None else ws_entriesByHeight s h)"
    and "files (fold deleteLiveHeight hs s) h = (if h \<in> set hs then {} else files s h)"
    and "ws_prunedUpToHeight (fold deleteLiveHeight hs s) = ws_prunedUpToHeight s" and "ws_wal (fold deleteLiveHeight hs s) = ws_wal s"
    and "ws_closed (fold deleteLiveHeight hs s) = ws_closed s" and "ws_pendingRecords (fold deleteLiveHeight hs s) = ws_pendingRecords s"
    and "ws_nextBatchSeqNum (fold deleteLiveHeight hs s) = ws_nextBatchSeqNum s"
  using assms by (induction hs arbitrary: s) (auto simp: deleteLiveHeight_refs fun_eq_iff)

lemma addIfMissing_range:
  assumes "wn_first x = 0 \<longrightarrow> wn_rest x = []" and "0 < n"
  shows "addIfMissing x n = (if n \<in> set (rangeOver x) then (False, x) else (True, snd (addIfMissing x n)))"
    and "n \<notin> set (rangeOver x) \<Longrightarrow> rangeOver (snd (addIfMissing x n)) = rangeOver x @ [n]"
    and "n \<notin> set (rangeOver x) \<Longrightarrow> wn_first (snd (addIfMissing x n)) \<noteq> 0"
  using assms by (auto simp: addIfMissing_def rangeOver_def)

lemma addLiveEntry_fields [simp]:
  "ws_entriesByHeight (addLiveEntry s n e) = (ws_entriesByHeight s)(GetHeight e \<mapsto>
     (case ws_entriesByHeight s (GetHeight e) of None \<Rightarrow> [] | Some es \<Rightarrow> es) @ [e])"
  "ws_prunedUpToHeight (addLiveEntry s n e) = ws_prunedUpToHeight s" "ws_wal (addLiveEntry s n e) = ws_wal s"
  "ws_closed (addLiveEntry s n e) = ws_closed s" "ws_pendingRecords (addLiveEntry s n e) = ws_pendingRecords s"
  "ws_nextBatchSeqNum (addLiveEntry s n e) = ws_nextBatchSeqNum s"
  by (simp_all add: addLiveEntry_def Let_def split: prod.splits bool.splits)

lemma addLiveEntry_refs:
  assumes inv: "refs_inv s" and n: "0 < n"
  shows "refs_inv (addLiveEntry s n e)" and "files (addLiveEntry s n e) h = (if h = GetHeight e then insert n (files s h) else files s h)"
proof -
  let ?h = "GetHeight e" and ?s = "addLiveEntry s n e"
  let ?x = "files_of s ?h"
  have x: "wn_first ?x = 0 \<longrightarrow> wn_rest ?x = []" using inv by (simp add: refs_inv_def)
  have fo: "files_of (s\<lparr> ws_entriesByHeight := m \<rparr>) = files_of s" for m by (simp add: files_of_def fun_eq_iff)
  let ?E = "(ws_entriesByHeight s)(?h \<mapsto> (case ws_entriesByHeight s ?h of None \<Rightarrow> [] | Some es \<Rightarrow> es) @ [e])"
  note add = addIfMissing_range [OF x n]
  have "refs_inv ?s \<and> (\<forall>h. files ?s h = (if h = ?h then insert n (files s h) else files s h))"
  proof (cases "n \<in> files s ?h")
    case True
    then have "addIfMissing ?x n = (False, ?x)" using add(1) by simp
    then have s: "?s = s\<lparr> ws_entriesByHeight := ?E \<rparr>" by (simp add: addLiveEntry_def fo Let_def)
    have "files_of ?s = files_of s" using fo [of ?E] s by simp
    moreover have "ws_walFilesByHeight ?s = ws_walFilesByHeight s" "ws_walHeightRefs ?s = ws_walHeightRefs s" by (subst s, simp)+
    ultimately show ?thesis using inv True by (auto simp: refs_inv_def)
  next
    case False
    obtain y where y: "addIfMissing ?x n = (True, y)" using add(1) False by metis
    then have ry: "rangeOver y = rangeOver ?x @ [n]" "wn_first y \<noteq> 0" using add(2,3) False by simp_all
    have s: "?s = s\<lparr> ws_entriesByHeight := ?E, ws_walFilesByHeight := (ws_walFilesByHeight s)(?h \<mapsto> y),
        ws_walHeightRefs := (ws_walHeightRefs s)(n \<mapsto> refs_of (ws_walHeightRefs s) n + 1) \<rparr>" using y by (simp add: addLiveEntry_def fo Let_def)
    have f: "files_of ?s h = (if h = ?h then y else files_of s h)" for h by (subst s) (simp add: files_of_def)
    have fs: "files ?s h = (if h = ?h then insert n (files s h) else files s h)" for h using f ry by simp
    have refs: "ws_walHeightRefs ?s m = (let c = card {h. m \<in> files ?s h} in if c = 0 then None else Some (int c))" for m
    proof (cases "m = n")
      case True
      have "{h. n \<in> files ?s h} = insert ?h {h. n \<in> files s h}" using fs by auto
      then have "card {h. n \<in> files ?s h} = Suc (card {h. n \<in> files s h})" using False files_finite [OF inv] by simp
      moreover have "ws_walHeightRefs ?s n = Some (int (card {h. n \<in> files s h}) + 1)" by (subst s) (simp add: refs_of_card [OF inv])
      ultimately show ?thesis using True by (simp add: Let_def)
    next
      case other: False
      have "{h. m \<in> files ?s h} = {h. m \<in> files s h}" using fs other by auto
      moreover have "ws_walHeightRefs ?s m = ws_walHeightRefs s m" using other by (subst s) simp
      ultimately show ?thesis using inv by (simp add: refs_inv_def)
    qed
    have "finite (dom (ws_walFilesByHeight ?s))" using inv by (subst s) (simp add: refs_inv_def)
    moreover have "distinct (rangeOver (files_of ?s h)) \<and> (wn_first (files_of ?s h) = 0 \<longrightarrow> wn_rest (files_of ?s h) = [])" for h
      using inv f ry False by (simp add: refs_inv_def)
    ultimately show ?thesis using refs fs unfolding refs_inv_def by blast
  qed
  then show "refs_inv ?s" "files ?s h = (if h = ?h then insert n (files s h) else files s h)" by simp_all
qed

section \<open>Indexing a record\<close>

lemma item_entry_simps [simp]: "item_entry (n, entry_record e) = Some e" "item_entry (n, prune_record h) = None"
  by (simp_all add: item_entry_def kind_defs)

lemma live_at_simps [simp]: "live_at [] h = []" "live_at (xs @ ys) h = live_at xs h @ live_at ys h"
  "live_at [(n, entry_record e)] h = (if GetHeight e = h then [e] else [])" "live_at [(n, prune_record k)] h = []"
  by (simp_all add: live_at_def List.map_filter_def)

lemma in_files_simps [simp]: "in_files [] h = {}" "in_files (xs @ ys) h = in_files xs h \<union> in_files ys h"
  "in_files [(n, entry_record e)] h = (if GetHeight e = h then {n} else {})" "in_files [(n, prune_record k)] h = {}"
  by (auto simp: in_files_def)

lemma pruned_by_simps [simp]: "pruned_by W [] = W" "pruned_by W (xs @ ys) = pruned_by (pruned_by W xs) ys"
  "pruned_by W [(n, entry_record e)] = W" "pruned_by W [(n, prune_record k)] = max W k"
  by (simp_all add: pruned_by_def kind_defs)

lemma live_heights_finite: "idx_inv W its s \<Longrightarrow> finite (dom (ws_entriesByHeight s))"
proof -
  assume inv: "idx_inv W its s"
  have "dom (ws_entriesByHeight s) \<subseteq> GetHeight ` set (List.map_filter item_entry its)"
  proof
    fix h assume "h \<in> dom (ws_entriesByHeight s)"
    then have "live_at its h \<noteq> []" using inv by (auto simp: idx_inv_def split: if_splits)
    then show "h \<in> GetHeight ` set (List.map_filter item_entry its)" by (auto simp: live_at_def filter_empty_conv)
  qed
  then show ?thesis by (rule finite_subset) simp
qed

lemma live_in_files: "live_at its h = [] \<longleftrightarrow> in_files its h = {}"
  by (force simp: live_at_def in_files_def filter_empty_conv List.map_filter_def)

definition same_frame :: "wal_store \<Rightarrow> wal_store \<Rightarrow> bool" where
  "same_frame s s' \<longleftrightarrow> ws_wal s' = ws_wal s \<and> ws_closed s' = ws_closed s \<and> ws_pendingRecords s' = ws_pendingRecords s \<and>
     ws_nextBatchSeqNum s' = ws_nextBatchSeqNum s"

lemma index_entry_inv:
  assumes inv: "idx_inv W its s" and n: "0 < n" and e: "entry_ok e"
  shows "\<exists>s'. index_record n s (entry_record e) = Some s' \<and> idx_inv W (its @ [(n, entry_record e)]) s' \<and> same_frame s s'"
proof (cases "GetHeight e \<le> ws_prunedUpToHeight s")
  case True
  have "good_record (entry_record e)" using e by (auto simp: good_record_def)
  then have "idx_inv W (its @ [(n, entry_record e)]) s" using inv n True by (auto simp: idx_inv_def)
  then show ?thesis using True by (simp add: index_record_def same_frame_def)
next
  case False
  let ?s = "addLiveEntry s n e"
  have "refs_inv s" using inv by (simp add: idx_inv_def)
  note refs = addLiveEntry_refs [OF this n, of e]
  have "good_record (entry_record e)" using e by (auto simp: good_record_def)
  moreover have "ws_entriesByHeight ?s h = (if h \<le> ws_prunedUpToHeight ?s \<or> live_at (its @ [(n, entry_record e)]) h = [] then None
      else Some (live_at (its @ [(n, entry_record e)]) h))" for h using inv False by (auto simp: idx_inv_def)
  moreover have "files ?s h = (if h \<le> ws_prunedUpToHeight ?s then {} else in_files (its @ [(n, entry_record e)]) h)" for h
    using inv False refs(2) by (auto simp: idx_inv_def)
  ultimately have "idx_inv W (its @ [(n, entry_record e)]) ?s" using inv n refs(1) unfolding idx_inv_def by simp
  then show ?thesis using False by (simp add: index_record_def same_frame_def)
qed

lemma index_prune_inv:
  assumes inv: "idx_inv W its s" and n: "0 < n"
  shows "\<exists>s'. index_record n s (prune_record k) = Some s' \<and> idx_inv W (its @ [(n, prune_record k)]) s' \<and> same_frame s s'"
proof -
  let ?P = "ws_prunedUpToHeight s" and ?s = "pruneLiveEntriesUpTo s k"
  have good: "good_record (prune_record k)" by (auto simp: good_record_def)
  have ind: "index_record n s (prune_record k) = Some ?s" by (simp add: index_record_def kind_defs)
  show ?thesis
  proof (cases "k \<le> ?P")
    case True
    then have "?s = s" by (simp add: pruneLiveEntriesUpTo_def)
    moreover have "idx_inv W (its @ [(n, prune_record k)]) s" using inv n True good by (auto simp: idx_inv_def max_def)
    ultimately show ?thesis using ind by (simp add: same_frame_def)
  next
    case False
    define hs where "hs = filter (\<lambda>h. h \<le> k) (sorted_list_of_set (dom (ws_entriesByHeight s)))"
    have hs: "set hs = {h \<in> dom (ws_entriesByHeight s). h \<le> k}" using live_heights_finite [OF inv] by (auto simp: hs_def)
    let ?t = "s\<lparr> ws_prunedUpToHeight := k \<rparr>"
    have s: "?s = fold deleteLiveHeight hs ?t" using False by (simp add: pruneLiveEntriesUpTo_def hs_def)
    have fo: "files_of ?t = files_of s" by (simp add: files_of_def fun_eq_iff)
    have r0: "refs_inv ?t" using inv unfolding idx_inv_def refs_inv_def fo by simp
    note d = delete_all [OF r0, of hs, folded s, unfolded fo]
    have "ws_entriesByHeight ?s h = (if h \<le> k \<or> live_at its h = [] then None else Some (live_at its h))" for h
      using inv False unfolding d(2) by (auto simp: idx_inv_def hs)
    moreover have "files ?s h = (if h \<le> k then {} else in_files its h)" for h
    proof (cases "h \<le> k")
      case True
      have "h \<in> set hs \<or> files s h = {}" using inv True live_in_files [of its h] by (auto simp: idx_inv_def hs)
      then show ?thesis using d(3) [of h] True by auto
    next
      case h: False
      then show ?thesis using d(3) [of h] inv False by (auto simp: idx_inv_def hs)
    qed
    moreover have "ws_prunedUpToHeight ?s = k" "pruned_by W (its @ [(n, prune_record k)]) = k" using d(4) inv False by (simp_all add: idx_inv_def)
    ultimately have "idx_inv W (its @ [(n, prune_record k)]) ?s" using inv n good d(1) unfolding idx_inv_def by simp
    then show ?thesis using ind d(5-8) by (simp add: same_frame_def)
  qed
qed

lemma index_record_inv:
  assumes "idx_inv W its s" and "0 < n" and "good_record r"
  shows "\<exists>s'. index_record n s r = Some s' \<and> idx_inv W (its @ [(n, r)]) s' \<and> same_frame s s'"
  using assms(3) index_entry_inv [OF assms(1,2)] index_prune_inv [OF assms(1,2)] unfolding good_record_def by blast

lemma index_records_inv:
  assumes "idx_inv W its s" and "0 < n" and "list_all good_record rs"
  shows "\<exists>s'. updateIndexesFromCommittedRecords n s rs = Some s' \<and> idx_inv W (its @ map (Pair n) rs) s' \<and> same_frame s s'"
  using assms
proof (induction rs arbitrary: s its)
  case Nil
  then show ?case by (simp add: same_frame_def)
next
  case (Cons r rs)
  obtain s1 where s1: "index_record n s r = Some s1" "idx_inv W (its @ [(n, r)]) s1" "same_frame s s1"
    using index_record_inv [OF Cons.prems(1,2)] Cons.prems(3) by auto
  obtain s2 where "updateIndexesFromCommittedRecords n s1 rs = Some s2" "idx_inv W ((its @ [(n, r)]) @ map (Pair n) rs) s2" "same_frame s1 s2"
    using Cons.IH [OF s1(2) Cons.prems(2)] Cons.prems(3) by auto
  then show ?case using s1 by (auto simp: same_frame_def)
qed

section \<open>Replay of the log files\<close>

lemma files_of_update [simp]:
  "files_of (s\<lparr> ws_wal := w \<rparr>) = files_of s" "files_of (s\<lparr> ws_closed := c \<rparr>) = files_of s"
  "files_of (s\<lparr> ws_nextBatchSeqNum := q \<rparr>) = files_of s" "files_of (s\<lparr> ws_pendingRecords := p \<rparr>) = files_of s"
  "files_of (s\<lparr> ws_pruneRecordsSinceCleanup := k \<rparr>) = files_of s"
  by (simp_all add: files_of_def fun_eq_iff)

lemma refs_inv_update [simp]:
  "refs_inv (s\<lparr> ws_wal := w \<rparr>) = refs_inv s" "refs_inv (s\<lparr> ws_closed := c \<rparr>) = refs_inv s"
  "refs_inv (s\<lparr> ws_nextBatchSeqNum := q \<rparr>) = refs_inv s" "refs_inv (s\<lparr> ws_pendingRecords := p \<rparr>) = refs_inv s"
  "refs_inv (s\<lparr> ws_pruneRecordsSinceCleanup := k \<rparr>) = refs_inv s"
  by (simp_all add: refs_inv_def)

lemma idx_inv_update [simp]:
  "idx_inv W its (s\<lparr> ws_wal := w \<rparr>) = idx_inv W its s" "idx_inv W its (s\<lparr> ws_closed := c \<rparr>) = idx_inv W its s"
  "idx_inv W its (s\<lparr> ws_nextBatchSeqNum := q \<rparr>) = idx_inv W its s" "idx_inv W its (s\<lparr> ws_pendingRecords := p \<rparr>) = idx_inv W its s"
  "idx_inv W its (s\<lparr> ws_pruneRecordsSinceCleanup := k \<rparr>) = idx_inv W its s"
  by (simp_all add: idx_inv_def)

text \<open>A batch that holds records, and the items of the log files.\<close>

definition batch_holds :: "batch_lib \<Rightarrow> uint8 list \<Rightarrow> walRecordEnvelope list \<Rightarrow> bool" where
  "batch_holds lib b rs \<longleftrightarrow> list_all good_record rs \<and>
     (\<exists>seq es. bl_ReadHeader lib b = Some (seq, of_nat (length rs)) \<and> bl_Entries lib b = (es, None) \<and> list_all2 (decodes_to lib) es rs)"

definition logs_hold :: "batch_lib \<Rightarrow> (nat \<times> uint8 list list) list \<Rightarrow> (nat \<times> walRecordEnvelope list list) list \<Rightarrow> bool" where
  "logs_hold lib logs rss \<longleftrightarrow> list_all2 (\<lambda>(n, bs) (m, rsl). n = m \<and> 0 < n \<and> list_all2 (batch_holds lib) bs rsl) logs rss"

definition items :: "(nat \<times> walRecordEnvelope list list) list \<Rightarrow> item list" where
  "items rss = concat (map (\<lambda>(n, rsl). map (Pair n) (concat rsl)) rss)"

lemma items_simps [simp]: "items [] = []" "items ((n, rsl) # rss) = map (Pair n) (concat rsl) @ items rss" "items (xs @ ys) = items xs @ items ys"
  by (simp_all add: items_def)

definition same_wal :: "wal_store \<Rightarrow> wal_store \<Rightarrow> bool" where
  "same_wal s s' \<longleftrightarrow> ws_wal s' = ws_wal s \<and> ws_closed s' = ws_closed s \<and> ws_pendingRecords s' = ws_pendingRecords s"

lemma applyEncodedRecord_inv:
  assumes "decodeWALRecord v = Inr r" and "good_record r" and "idx_inv W its s" and "0 < n"
  shows "\<exists>s'. applyEncodedRecord n s v = Inr s' \<and> idx_inv W (its @ [(n, r)]) s' \<and> same_wal s s'"
proof -
  have "wr_Kind r = walRecordEntry \<or> wr_Kind r = walRecordPruneUpToHeight" using assms(2) by (auto simp: good_record_def)
  then show ?thesis using index_record_inv [OF assms(3,4,2)] assms(1) by (auto simp: applyEncodedRecord_def same_frame_def same_wal_def)
qed

lemma apply_entries_inv:
  assumes "list_all2 (decodes_to lib) es rs" and "list_all good_record rs" and "idx_inv W its s" and "0 < n"
  shows "\<exists>s'. apply_entries lib n s seen es = Inr (seen + length rs, s') \<and> idx_inv W (its @ map (Pair n) rs) s' \<and> same_wal s s'"
  using assms
proof (induction es rs arbitrary: s its seen rule: list_all2_induct)
  case Nil
  then show ?case by (simp add: same_wal_def)
next
  case (Cons en es r rs)
  obtain kind key v where en: "en = (kind, key, v)" by (cases en)
  then have k: "kind = bl_KindSet lib" "decodeWALRecord v = Inr r" using Cons.hyps(1) by (simp_all add: decodes_to_def)
  obtain s1 where s1: "applyEncodedRecord n s v = Inr s1" "idx_inv W (its @ [(n, r)]) s1" "same_wal s s1"
    using applyEncodedRecord_inv [OF k(2) _ Cons.prems(2,3)] Cons.prems(1) by auto
  obtain s2 where "apply_entries lib n s1 (seen + 1) es = Inr (seen + 1 + length rs, s2)"
    "idx_inv W ((its @ [(n, r)]) @ map (Pair n) rs) s2" "same_wal s1 s2"
    using Cons.IH [OF _ s1(2) Cons.prems(3), of "seen + 1"] Cons.prems(1) by auto
  then show ?case using en k(1) s1 by (auto simp: same_wal_def)
qed

lemma applyEncodedBatch_inv:
  assumes "batch_holds lib b rs" and "idx_inv W its s" and "0 < n"
  shows "\<exists>s'. applyEncodedBatch lib n s b = Inr s' \<and> idx_inv W (its @ map (Pair n) rs) s' \<and> same_wal s s'"
proof -
  obtain seq es where b: "list_all good_record rs" "bl_ReadHeader lib b = Some (seq, of_nat (length rs))" "bl_Entries lib b = (es, None)"
    "list_all2 (decodes_to lib) es rs" using assms(1) by (auto simp: batch_holds_def)
  let ?q = "seq + ucast (of_nat (length rs) :: uint32)"
  let ?t = "if ?q > ws_nextBatchSeqNum s then s\<lparr> ws_nextBatchSeqNum := ?q \<rparr> else s"
  have inv: "idx_inv W its ?t" "same_wal s ?t" using assms(2) by (simp_all add: same_wal_def)
  obtain s' where "apply_entries lib n ?t 0 es = Inr (0 + length rs, s')" "idx_inv W (its @ map (Pair n) rs) s'" "same_wal ?t s'"
    using apply_entries_inv [OF b(4,1) inv(1) assms(3), of 0] by blast
  then show ?thesis using b(2,3) inv(2) by (simp add: applyEncodedBatch_def Let_def same_wal_def)
qed

lemma loadLogicalLog_inv:
  assumes "list_all2 (batch_holds lib) bs rsl" and "idx_inv W its s" and "0 < n"
  shows "\<exists>s'. loadLogicalLog lib n s bs = Inr s' \<and> idx_inv W (its @ map (Pair n) (concat rsl)) s' \<and> same_wal s s'"
  using assms
proof (induction bs rsl arbitrary: s its rule: list_all2_induct)
  case Nil
  then show ?case by (simp add: same_wal_def)
next
  case (Cons b bs rs rsl)
  obtain s1 where s1: "applyEncodedBatch lib n s b = Inr s1" "idx_inv W (its @ map (Pair n) rs) s1" "same_wal s s1"
    using applyEncodedBatch_inv [OF Cons.hyps(1) Cons.prems] by blast
  show ?case using Cons.IH [OF s1(2) Cons.prems(2)] s1 by (auto simp: same_wal_def)
qed

lemma loadExistingEntries_inv:
  assumes "logs_hold lib logs rss" and "idx_inv W its s"
  shows "\<exists>s'. loadExistingEntries lib s logs = Inr s' \<and> idx_inv W (its @ items rss) s' \<and> same_wal s s'"
  using assms unfolding logs_hold_def
proof (induction logs rss arbitrary: s its rule: list_all2_induct)
  case Nil
  then show ?case by (simp add: same_wal_def)
next
  case (Cons l logs rl rss)
  obtain n bs rsl where l: "l = (n, bs)" "rl = (n, rsl)" "0 < n" "list_all2 (batch_holds lib) bs rsl" using Cons.hyps(1) by auto
  obtain s1 where s1: "loadLogicalLog lib n s bs = Inr s1" "idx_inv W (its @ map (Pair n) (concat rsl)) s1" "same_wal s s1"
    using loadLogicalLog_inv [OF l(4) Cons.prems l(3)] by blast
  show ?case using Cons.IH [OF s1(2)] s1 l by (auto simp: same_wal_def)
qed

section \<open>The disk\<close>

definition disk_inv :: "batch_lib \<Rightarrow> height \<Rightarrow> item list \<Rightarrow> wal_disk \<Rightarrow> bool" where
  "disk_inv lib W its d \<longleftrightarrow> loadPruneWatermark (dk_watermark d) = Inr W \<and> (\<exists>rss. logs_hold lib (dk_logs d) rss \<and> items rss = its)"

text \<open>The log files are numbered in increasing order, and the open one is the last and fully synced.\<close>

definition writer_inv :: "walWriter \<Rightarrow> (nat \<times> uint8 list list) list \<Rightarrow> bool" where
  "writer_inv w logs \<longleftrightarrow> sorted_wrt (<) (map fst logs) \<and> (\<forall>l \<in> set logs. fst l < ww_nextWALNum w) \<and> 0 < ww_nextWALNum w \<and>
     (\<forall>n. ww_current w = Some n \<longrightarrow> \<not> ww_repairRequired w \<and> 0 < n \<and> (\<exists>ls bs. logs = ls @ [(n, bs)] \<and> length bs = ww_syncedOffset w))"

lemma disk_new_log: "disk_inv lib W its d \<Longrightarrow> 0 < n \<Longrightarrow> disk_inv lib W its (d\<lparr> dk_logs := dk_logs d @ [(n, [])] \<rparr>)"
  unfolding disk_inv_def
proof (elim conjE exE, intro conjI)
  fix rss assume "logs_hold lib (dk_logs d) rss" "items rss = its" "0 < n"
  then show "\<exists>rss. logs_hold lib (dk_logs (d\<lparr> dk_logs := dk_logs d @ [(n, [])] \<rparr>)) rss \<and> items rss = its"
    by (intro exI [of _ "rss @ [(n, [])]"]) (simp add: logs_hold_def list_all2_appendI)
qed simp

lemma last_log_update:
  fixes n :: nat
  assumes "sorted_wrt (<) (map fst (ls @ [(n, bs)]))"
  shows "map (\<lambda>(m, bs). (m, if m = n then f bs else bs)) (ls @ [(n, bs)]) = ls @ [(n, f bs)]"
proof -
  have "(n, b) \<notin> set ls" for b
    using assms bspec [of "set ls" "\<lambda>l. fst l < n" "(n, b)"] by (auto simp: sorted_wrt_append)
  then have "map (\<lambda>(m, bs). (m, if m = n then f bs else bs)) ls = ls" by (intro map_idI) auto
  then show ?thesis by simp
qed

lemma disk_append:
  assumes "disk_inv lib W its d" and "dk_logs d = ls @ [(n, bs)]" and "sorted_wrt (<) (map fst (dk_logs d))" and "batch_holds lib b rs"
  shows "disk_inv lib W (its @ map (Pair n) rs) (log_append d n b)" and "dk_logs (log_append d n b) = ls @ [(n, bs @ [b])]"
proof -
  show logs: "dk_logs (log_append d n b) = ls @ [(n, bs @ [b])]"
    using last_log_update [of ls n bs "\<lambda>bs. bs @ [b]"] assms(2,3) by (simp add: log_append_def)
  obtain rss where r: "logs_hold lib (dk_logs d) rss" "items rss = its" using assms(1) by (auto simp: disk_inv_def)
  then obtain rs0 rsl where s: "rss = rs0 @ [(n, rsl)]" "logs_hold lib ls rs0" "list_all2 (batch_holds lib) bs rsl" "0 < n"
    unfolding logs_hold_def assms(2) list_all2_append1 by (auto simp: list_all2_Cons1)
  have "logs_hold lib (ls @ [(n, bs @ [b])]) (rs0 @ [(n, rsl @ [rs])])"
    using s assms(4) unfolding logs_hold_def by (auto intro!: list_all2_appendI)
  moreover have "items (rs0 @ [(n, rsl @ [rs])]) = its @ map (Pair n) rs" using r(2) s(1) by simp
  moreover have "dk_watermark (log_append d n b) = dk_watermark d" by (simp add: log_append_def)
  ultimately show "disk_inv lib W (its @ map (Pair n) rs) (log_append d n b)" using assms(1) logs unfolding disk_inv_def by auto
qed

lemma repair_last:
  assumes "dk_logs d = ls @ [(n, bs)]" and "sorted_wrt (<) (map fst (dk_logs d))"
  shows "repairWALTail d n k = d\<lparr> dk_logs := ls @ [(n, take k bs)] \<rparr>"
  using last_log_update [of ls n bs "take k"] assms by (simp add: repairWALTail_def)

lemma be_word_bytes8: "be_word (be_bytes8 w) = w"
proof -
  have "be_word bs = (le_word (rev bs) :: uint64)" for bs :: "uint8 list"
    by (simp add: be_word_def le_word_def foldr_conv_foldl or.commute)
  moreover have "rev (be_bytes8 w) = le_bytes8 w" by (simp add: be_bytes8_def le_bytes8_def upt_rec)
  ultimately show ?thesis by simp
qed

lemma watermark_roundtrip: "loadPruneWatermark (dk_watermark (snd (writePruneWatermark d h replaced True))) = Inr h"
proof -
  let ?n = "length pruneWatermarkHeader"
  have "copy_at 0 (replicate (?n + 8) 0) pruneWatermarkHeader = pruneWatermarkHeader @ replicate 8 0" by (simp add: copy_at_def)
  moreover have "length (be_bytes8 h) = 8" by (simp add: be_bytes8_def)
  ultimately have "copy_at ?n (copy_at 0 (replicate (?n + 8) 0) pruneWatermarkHeader) (be_bytes8 h) = pruneWatermarkHeader @ be_bytes8 h"
    by (simp add: copy_at_def)
  then show ?thesis using \<open>length (be_bytes8 h) = 8\<close> by (simp add: writePruneWatermark_def Let_def loadPruneWatermark_def be_word_bytes8)
qed

section \<open>Removing log files\<close>

lemma pruned_by_le: "pruned_by W its \<le> B \<longleftrightarrow> W \<le> B \<and> (\<forall>it \<in> set its. wr_Kind (snd it) = walRecordPruneUpToHeight \<longrightarrow> wr_Height (snd it) \<le> B)"
  unfolding pruned_by_def by (induction its arbitrary: W) (auto split: if_splits)

lemma idx_raise: "idx_inv W its s \<Longrightarrow> idx_inv (ws_prunedUpToHeight s) its s"
proof -
  assume inv: "idx_inv W its s"
  let ?P = "pruned_by W its"
  have "pruned_by ?P its \<le> ?P" using pruned_by_le [of W its ?P] pruned_by_le [of ?P its ?P] by simp
  moreover have "?P \<le> pruned_by ?P its" using pruned_by_le [of ?P its "pruned_by ?P its"] by simp
  ultimately show ?thesis using inv by (simp add: idx_inv_def)
qed

lemma live_at_Cons: "live_at (it # its) h = (case item_entry it of None \<Rightarrow> [] | Some e \<Rightarrow> if GetHeight e = h then [e] else []) @ live_at its h"
  by (simp add: live_at_def List.map_filter_simps split: option.splits)

lemma live_at_filter:
  "\<forall>it \<in> set its. \<not> keep it \<longrightarrow> (\<forall>e. item_entry it = Some e \<longrightarrow> GetHeight e \<noteq> h) \<Longrightarrow> live_at (filter keep its) h = live_at its h"
  by (induction its) (auto simp: live_at_Cons split: option.splits)

lemma idx_filter:
  assumes inv: "idx_inv W its s" and "W = ws_prunedUpToHeight s" and keep: "\<And>n. \<not> keep n \<Longrightarrow> ws_walHeightRefs s n = None"
  shows "idx_inv W (filter (\<lambda>it. keep (fst it)) its) s"
proof -
  let ?its = "filter (\<lambda>it. keep (fst it)) its" and ?P = "ws_prunedUpToHeight s"
  have refs: "refs_inv s" using inv by (simp add: idx_inv_def)
  have dead: "GetHeight e \<noteq> h" if h: "\<not> h \<le> ?P" and it: "it \<in> set its" "\<not> keep (fst it)" "item_entry it = Some e" for h it e
  proof
    assume "GetHeight e = h"
    then have "fst it \<in> in_files its h" using it by (cases it) (auto simp: in_files_def)
    then have "h \<in> {h. fst it \<in> files s h}" using inv h by (simp add: idx_inv_def)
    then have "card {h. fst it \<in> files s h} \<noteq> 0" using files_finite [OF refs] by (metis card_0_eq empty_iff)
    then show False using keep [OF it(2)] refs by (auto simp: refs_inv_def Let_def split: if_splits)
  qed
  have live: "live_at ?its h = live_at its h" if "\<not> h \<le> ?P" for h using dead [OF that] by (intro live_at_filter) auto
  have fls: "in_files ?its h = in_files its h" if "\<not> h \<le> ?P" for h using dead [OF that] by (force simp: in_files_def)
  have pr: "pruned_by W ?its = W"
  proof (rule antisym)
    have "pruned_by W its \<le> W" using inv assms(2) by (simp add: idx_inv_def)
    then show "pruned_by W ?its \<le> W" by (auto simp: pruned_by_le)
    show "W \<le> pruned_by W ?its" using pruned_by_le [of W ?its "pruned_by W ?its"] by simp
  qed
  have e: "ws_entriesByHeight s h = (if h \<le> ?P \<or> live_at ?its h = [] then None else Some (live_at ?its h))" for h
    using inv live [of h] unfolding idx_inv_def by (cases "h \<le> ?P") simp_all
  have f: "files s h = (if h \<le> ?P then {} else in_files ?its h)" for h
    using inv fls [of h] unfolding idx_inv_def by (cases "h \<le> ?P") simp_all
  have g: "\<forall>it \<in> set ?its. 0 < fst it \<and> good_record (snd it)" using inv unfolding idx_inv_def by simp
  show ?thesis unfolding idx_inv_def by (intro conjI allI e f g refs) (use pr assms(2) in simp)
qed

lemma disk_filter:
  assumes "disk_inv lib W its d"
  shows "disk_inv lib W (filter (\<lambda>it. keep (fst it)) its) (d\<lparr> dk_logs := filter (\<lambda>(n, _). keep n) (dk_logs d) \<rparr>)"
proof -
  have "logs_hold lib logs rss \<Longrightarrow>
      logs_hold lib (filter (\<lambda>(n, _). keep n) logs) (filter (\<lambda>(n, _). keep n) rss) \<and>
      items (filter (\<lambda>(n, _). keep n) rss) = filter (\<lambda>it. keep (fst it)) (items rss)" for logs rss
    unfolding logs_hold_def
  proof (induction logs rss rule: list_all2_induct)
    case (Cons l logs rl rss)
    obtain n bs rsl where "l = (n, bs)" "rl = (n, rsl)" using Cons.hyps(1) by auto
    then show ?case using Cons by (auto simp: filter_map comp_def)
  qed simp
  then show ?thesis using assms unfolding disk_inv_def by auto
qed

section \<open>The invariant of the store\<close>

text \<open>The index reflects the items on the disk; only a write that failed and could not be repaired may have left more there.\<close>

definition wal_inv :: "batch_lib \<Rightarrow> wal_store \<Rightarrow> wal_disk \<Rightarrow> bool" where
  "wal_inv lib s d \<longleftrightarrow> writer_inv (ws_wal s) (dk_logs d) \<and> list_all good_record (ws_pendingRecords s) \<and>
     (\<exists>W its extra. disk_inv lib W (its @ extra) d \<and> idx_inv W its s \<and>
        (extra \<noteq> [] \<longrightarrow> ww_repairRequired (ws_wal s)))"

lemma nextWALNum_gt: "(\<forall>l \<in> set logs. fst l < nextWALNum logs) \<and> 0 < nextWALNum logs"
proof -
  let ?f = "\<lambda>log next. if fst log + 1 > next then fst log + 1 else next :: nat"
  have "k \<le> fold ?f logs k \<and> (\<forall>l \<in> set logs. fst l < fold ?f logs k)" for k
  proof (induction logs arbitrary: k)
    case (Cons a logs)
    have "k \<le> ?f a k" "fst a < ?f a k" by simp_all
    with Cons.IH [of "?f a k"] have "k \<le> fold ?f logs (?f a k)" "fst a < fold ?f logs (?f a k)" by linarith+
    with Cons.IH [of "?f a k"] show ?case by simp
  qed simp
  from this [of 1] show ?thesis by (auto simp: nextWALNum_def)
qed

lemma reopen_inv:
  assumes "disk_inv lib W its d" and "sorted_wrt (<) (map fst (dk_logs d))"
  shows "\<exists>s'. NewTendermintWALStore lib d = Inr s' \<and> idx_inv W its s' \<and> writer_inv (ws_wal s') (dk_logs d) \<and>
    ws_pendingRecords s' = [] \<and> \<not> ws_closed s' \<and> \<not> ww_repairRequired (ws_wal s')"
proof -
  obtain rss where d: "loadPruneWatermark (dk_watermark d) = Inr W" "logs_hold lib (dk_logs d) rss" "items rss = its"
    using assms(1) by (auto simp: disk_inv_def)
  let ?e = "empty_store (newWALWriter (nextWALNum (dk_logs d))) W"
  have "files_of ?e h = empty_set" for h by (simp add: files_of_def empty_store_def)
  then have "refs_inv ?e" by (simp add: refs_inv_def empty_set_rest) (simp add: empty_store_def)
  moreover have "files ?e h = {}" for h using \<open>files_of ?e h = empty_set\<close> by simp
  ultimately have "idx_inv W [] ?e" unfolding idx_inv_def by (simp add: empty_store_def)
  from loadExistingEntries_inv [OF d(2) this] obtain s' where s': "loadExistingEntries lib ?e (dk_logs d) = Inr s'" "idx_inv W its s'"
    "same_wal ?e s'" using d(3) by auto
  have "writer_inv (newWALWriter (nextWALNum (dk_logs d))) (dk_logs d)"
    using assms(2) nextWALNum_gt [of "dk_logs d"] by (simp add: writer_inv_def newWALWriter_def)
  then show ?thesis using s' d(1) by (simp add: NewTendermintWALStore_def same_wal_def empty_store_def newWALWriter_def)
qed

section \<open>The operations keep the invariant\<close>

lemma wal_inv_pending: "wal_inv lib s d \<Longrightarrow> list_all good_record p \<Longrightarrow> wal_inv lib (s\<lparr> ws_pendingRecords := p \<rparr>) d"
  by (simp add: wal_inv_def)

lemma set_inv:
  assumes "wal_inv lib s d" and "entry_ok e" and "SetWALEntry s e = Inr s'"
  shows "wal_inv lib s' d"
proof -
  have "good_record (entry_record e)" using assms(2) by (auto simp: good_record_def)
  then have "list_all good_record (ws_pendingRecords s @ [entry_record e])" using assms(1) by (simp add: wal_inv_def)
  from wal_inv_pending [OF assms(1) this] show ?thesis
    using assms(1,3) by (auto simp: SetWALEntry_def entry_record_def [symmetric] Let_def split: if_splits)
qed

lemma raise_prune_good: "list_all good_record rs \<Longrightarrow> raise_prune h rs = Some rs' \<Longrightarrow> list_all good_record rs'"
proof (induction rs arbitrary: rs')
  case (Cons r rs)
  show ?case
  proof (cases "wr_Kind r = walRecordPruneUpToHeight")
    case True
    then obtain k where "r = prune_record k" using Cons.prems(1) by (auto simp: good_record_def kind_defs)
    then have "r\<lparr> wr_Height := max (wr_Height r) h \<rparr> = prune_record (max k h)" by (simp add: prune_record_def)
    then have "good_record (r\<lparr> wr_Height := max (wr_Height r) h \<rparr>)" by (auto simp: good_record_def)
    then show ?thesis using Cons.prems True by auto
  next
    case False
    then show ?thesis using Cons by auto
  qed
qed simp

lemma delete_inv:
  assumes "wal_inv lib s d" and "DeleteWALEntries s h = Inr s'"
  shows "wal_inv lib s' d"
proof -
  have "list_all good_record (ws_pendingRecords s)" using assms(1) by (simp add: wal_inv_def)
  moreover have "good_record ((new_record walRecordPruneUpToHeight)\<lparr> wr_Height := h \<rparr>)" by (auto simp: good_record_def prune_record_def)
  ultimately have "list_all good_record (ws_pendingRecords s') \<and> s' = s\<lparr> ws_pendingRecords := ws_pendingRecords s' \<rparr>"
    using assms(2) raise_prune_good [of "ws_pendingRecords s" h] by (auto simp: DeleteWALEntries_def split: if_splits option.splits)
  then obtain p where "s' = s\<lparr> ws_pendingRecords := p \<rparr>" "list_all good_record p" by blast
  then show ?thesis using wal_inv_pending [OF assms(1)] by simp
qed

lemma ensureWriter_inv:
  assumes "wal_inv lib s d" and "ensureWriter (ws_wal s) d ok = Inr (n, w, d')"
  shows "\<exists>W its. disk_inv lib W its d' \<and> idx_inv W its s" and "writer_inv w (dk_logs d')" and "ww_current w = Some n"
proof -
  have rep: "\<not> ww_repairRequired (ws_wal s)" using assms(2) by (auto simp: ensureWriter_def)
  then obtain W its where d: "disk_inv lib W its d" "idx_inv W its s" using assms(1) by (auto simp: wal_inv_def)
  have wi: "writer_inv (ws_wal s) (dk_logs d)" using assms(1) by (simp add: wal_inv_def)
  let ?n = "ww_nextWALNum (ws_wal s)"
  have "(\<exists>W its. disk_inv lib W its d' \<and> idx_inv W its s) \<and> writer_inv w (dk_logs d') \<and> ww_current w = Some n"
  proof (cases "ww_current (ws_wal s)")
    case (Some m)
    then have "n = m" "w = ws_wal s" "d' = d" using assms(2) rep by (simp_all add: ensureWriter_def)
    then show ?thesis using d wi Some by auto
  next
    case None
    then have new: "n = ?n" "w = (ws_wal s)\<lparr> ww_current := Some ?n, ww_nextWALNum := ?n + 1, ww_syncedOffset := 0 \<rparr>"
      "d' = d\<lparr> dk_logs := dk_logs d @ [(?n, [])] \<rparr>" using assms(2) rep by (auto simp: ensureWriter_def split: if_splits)
    have "0 < ?n" using wi by (simp add: writer_inv_def)
    then have "disk_inv lib W its d'" using disk_new_log [OF d(1)] new(3) by simp
    moreover have "sorted_wrt (<) (map fst (dk_logs d'))" "\<forall>l \<in> set (dk_logs d'). fst l < ?n + 1"
      using wi unfolding new(3) by (auto simp: writer_inv_def sorted_wrt_append less_Suc_eq)
    then have "writer_inv w (dk_logs d')" using rep \<open>0 < ?n\<close> by (simp add: writer_inv_def new)
    ultimately show ?thesis using d(2) new by auto
  qed
  then show "\<exists>W its. disk_inv lib W its d' \<and> idx_inv W its s" "writer_inv w (dk_logs d')" "ww_current w = Some n" by simp_all
qed

lemma rotate_inv:
  assumes "writer_inv w (dk_logs d)" and "closeAndRepairCurrent w d (ww_syncedOffset w) False closeOk repairOk = (err, w', d')"
  shows "d' = d \<and> writer_inv w' (dk_logs d) \<and> (ww_repairRequired w \<longrightarrow> ww_repairRequired w')"
proof (cases "ww_current w")
  case None
  then show ?thesis using assms by (auto simp: closeAndRepairCurrent_def)
next
  case (Some n)
  then obtain ls bs where logs: "dk_logs d = ls @ [(n, bs)]" "length bs = ww_syncedOffset w" "\<not> ww_repairRequired w"
    using assms(1) by (auto simp: writer_inv_def)
  have "repairWALTail d n (ww_syncedOffset w) = d"
    using repair_last [OF logs(1), of "ww_syncedOffset w"] assms(1) logs by (simp add: writer_inv_def)
  then show ?thesis using assms Some logs(3)
    by (auto simp: closeAndRepairCurrent_def closeCurrent_def writer_inv_def split: if_splits)
qed

lemma refs_finite: "refs_inv s \<Longrightarrow> finite (dom (ws_walHeightRefs s))"
proof -
  assume inv: "refs_inv s"
  have "dom (ws_walHeightRefs s) \<subseteq> (\<Union>h \<in> dom (ws_walFilesByHeight s). files s h)"
  proof
    fix n assume "n \<in> dom (ws_walHeightRefs s)"
    then have "card {h. n \<in> files s h} \<noteq> 0" using inv by (auto simp: refs_inv_def Let_def split: if_splits)
    then obtain h where h: "n \<in> files s h" by (metis (mono_tags, lifting) Collect_empty_eq card.empty)
    then have "h \<in> dom (ws_walFilesByHeight s)" by (auto simp: files_of_def split: option.splits)
    then show "n \<in> (\<Union>h \<in> dom (ws_walFilesByHeight s). files s h)" using h by blast
  qed
  then show ?thesis by (rule finite_subset) (use inv in \<open>simp add: refs_inv_def\<close>)
qed

lemma cleanup_inv:
  assumes "disk_inv lib W its d" and "idx_inv W its s" and "W = ws_prunedUpToHeight s" and "writer_inv (ws_wal s) (dk_logs d)"
    and "cleanupObsoleteWALs env s d = (err, d')"
  shows "\<exists>its'. disk_inv lib W its' d' \<and> idx_inv W its' s \<and> writer_inv (ws_wal s) (dk_logs d')"
proof -
  let ?min = "Min (insert (minLiveWALNum (ws_wal s)) (dom (ws_walHeightRefs s)))"
  define keep where "keep n \<longleftrightarrow> \<not> (n < ?min \<and> ce_removed env n)" for n
  have fin: "finite (insert (minLiveWALNum (ws_wal s)) (dom (ws_walHeightRefs s)))"
    using refs_finite [of s] assms(2) by (simp add: idx_inv_def)
  have d': "d' = d\<lparr> dk_logs := filter (\<lambda>(n, _). keep n) (dk_logs d) \<rparr>" using assms(5) by (auto simp: cleanupObsoleteWALs_def keep_def Let_def)
  have "ws_walHeightRefs s n = None" if "\<not> keep n" for n
  proof (rule ccontr)
    assume "ws_walHeightRefs s n \<noteq> None"
    then have "?min \<le> n" using Min_le [OF fin, of n] by auto
    then show False using that by (simp add: keep_def)
  qed
  then have "idx_inv W (filter (\<lambda>it. keep (fst it)) its) s" using idx_filter [OF assms(2,3)] by blast
  moreover have "disk_inv lib W (filter (\<lambda>it. keep (fst it)) its) d'" using disk_filter [OF assms(1)] d' by simp
  moreover have "writer_inv (ws_wal s) (dk_logs d')"
  proof -
    have "keep n" if "ww_current (ws_wal s) = Some n" for n
      using Min_le [OF fin, of "minLiveWALNum (ws_wal s)"] that by (auto simp: keep_def minLiveWALNum_def split: if_splits)
    moreover have "sorted_wrt (<) (map fst (filter (\<lambda>(n, _). keep n) (dk_logs d)))"
    proof -
      have "map fst (filter (\<lambda>(n, _). keep n) l) = filter keep (map fst l)" for l :: "(nat \<times> uint8 list list) list" by (induction l) auto
      then show ?thesis using assms(4) by (simp add: writer_inv_def sorted_wrt_filter)
    qed
    ultimately show ?thesis using assms(4) d' by (fastforce simp: writer_inv_def)
  qed
  ultimately show ?thesis by blast
qed

lemma appendSync_ok:
  assumes "wal_inv lib s d" and "appendSync ae (ws_wal s) d b = (Inr n, w, d')" and "batch_holds lib b rs"
  shows "\<exists>W its. disk_inv lib W (its @ map (Pair n) rs) d' \<and> idx_inv W its s" and "writer_inv w (dk_logs d')" and "0 < n"
proof -
  obtain w1 d1 where e: "ensureWriter (ws_wal s) d (ae_createOk ae) = Inr (n, w1, d1)"
    and r: "w = w1\<lparr> ww_syncedOffset := ww_syncedOffset w1 + 1 \<rparr>" "d' = log_append d1 n b"
    using assms(2) by (auto simp: appendSync_def Let_def split: sum.splits if_splits prod.splits)
  note E = ensureWriter_inv [OF assms(1) e]
  obtain W its where d1: "disk_inv lib W its d1" "idx_inv W its s" using E(1) by blast
  obtain ls bs where logs: "dk_logs d1 = ls @ [(n, bs)]" "length bs = ww_syncedOffset w1" "0 < n" "\<not> ww_repairRequired w1"
    using E(2,3) by (auto simp: writer_inv_def)
  have srt: "sorted_wrt (<) (map fst (dk_logs d1))" using E(2) by (simp add: writer_inv_def)
  note A = disk_append [OF d1(1) logs(1) srt assms(3)]
  show "\<exists>W its. disk_inv lib W (its @ map (Pair n) rs) d' \<and> idx_inv W its s" using A(1) d1(2) r(2) by blast
  have "map fst (dk_logs d') = map fst (dk_logs d1)" using A(2) logs(1) r(2) by simp
  moreover have "\<forall>l \<in> set (dk_logs d'). fst l < ww_nextWALNum w1" using E(2) A(2) logs(1) r(2) by (auto simp: writer_inv_def)
  ultimately show "writer_inv w (dk_logs d')" using E(2,3) A(2) logs r by (simp add: writer_inv_def)
  show "0 < n" by (rule logs(3))
qed

lemma appendSync_failed:
  assumes "wal_inv lib s d" and "appendSync ae (ws_wal s) d b = (Inl err, w, d')" and "batch_holds lib b rs"
  shows "wal_inv lib (s\<lparr> ws_wal := w \<rparr>) d'"
proof (cases "ensureWriter (ws_wal s) d (ae_createOk ae)")
  case (Inl x)
  then have "w = ws_wal s" "d' = d" using assms(2) by (auto simp: appendSync_def)
  then show ?thesis using assms(1) by simp
next
  case (Inr y)
  obtain n w1 d1 where y: "y = (n, w1, d1)" by (cases y)
  note E = ensureWriter_inv [OF assms(1) Inr [unfolded y]]
  obtain W its where d1: "disk_inv lib W its d1" "idx_inv W its s" using E(1) by blast
  obtain ls bs where logs: "dk_logs d1 = ls @ [(n, bs)]" "length bs = ww_syncedOffset w1" "0 < n" "\<not> ww_repairRequired w1"
    using E(2,3) by (auto simp: writer_inv_def)
  have srt: "sorted_wrt (<) (map fst (dk_logs d1))" using E(2) by (simp add: writer_inv_def)
  note A = disk_append [OF d1(1) logs(1) srt assms(3)]
  let ?d = "if ae_survives ae then log_append d1 n b else d1"
  define ex where "ex = (if ae_survives ae then map (Pair n) rs else [])"
  have disk: "disk_inv lib W (its @ ex) ?d" using A(1) d1(1) by (simp add: ex_def)
  obtain bs' where dl: "dk_logs ?d = ls @ [(n, bs')]" "take (ww_syncedOffset w1) bs' = bs" using A(2) logs(1,2) by (cases "ae_survives ae") auto
  have srt': "sorted_wrt (<) (map fst (dk_logs ?d))" using srt logs(1) dl(1) by simp
  have rep: "repairWALTail ?d n (ww_syncedOffset w1) = d1"
    using repair_last [OF dl(1) srt', of "ww_syncedOffset w1"] dl(2) logs(1) by (cases "ae_survives ae") (simp_all add: log_append_def)
  have wd: "w = w1\<lparr> ww_current := None, ww_syncedOffset := 0, ww_repairRequired := \<not> ae_repairOk ae \<rparr>"
    "d' = (if ae_repairOk ae then d1 else ?d)"
    using assms(2) Inr y E(3) rep
    by (auto simp: appendSync_def closeAndRepairCurrent_def closeCurrent_def Let_def split: if_splits prod.splits)
  have pend: "list_all good_record (ws_pendingRecords s)" using assms(1) by (simp add: wal_inv_def)
  have "map fst (dk_logs d') = map fst (dk_logs d1)" using dl(1) logs(1) wd(2) by simp
  moreover have "fst l < ww_nextWALNum w1" if "l \<in> set (dk_logs d')" for l
  proof -
    have "fst l \<in> fst ` set (dk_logs d1)" using that calculation by (metis image_eqI list.set_map)
    then show ?thesis using E(2) by (auto simp: writer_inv_def)
  qed
  ultimately have "writer_inv w (dk_logs d')" using E(2) srt by (simp add: writer_inv_def wd(1))
  moreover have "\<exists>ex. disk_inv lib W (its @ ex) d' \<and> (ex \<noteq> [] \<longrightarrow> \<not> ae_repairOk ae)"
    using disk d1(1) wd(2) by (cases "ae_repairOk ae") auto
  ultimately show ?thesis using d1(2) pend wd(1) unfolding wal_inv_def by auto
qed

definition same_index :: "wal_store \<Rightarrow> wal_store \<Rightarrow> bool" where
  "same_index s s' \<longleftrightarrow> ws_entriesByHeight s' = ws_entriesByHeight s \<and> ws_prunedUpToHeight s' = ws_prunedUpToHeight s \<and>
     ws_closed s' = ws_closed s \<and> ws_pendingRecords s' = ws_pendingRecords s"

text \<open>The state right after a write is committed, and after the clean-up: nothing on the disk but what the index reflects.\<close>

definition clean_inv :: "batch_lib \<Rightarrow> wal_store \<Rightarrow> wal_disk \<Rightarrow> bool" where
  "clean_inv lib s d \<longleftrightarrow> writer_inv (ws_wal s) (dk_logs d) \<and> (\<exists>W its. disk_inv lib W its d \<and> idx_inv W its s)"

lemma watermark_inv:
  assumes "clean_inv lib s d" and "writePruneWatermark d (ws_prunedUpToHeight s) replaced ok = (err, d')"
  shows "clean_inv lib s d'" and "err = [] \<Longrightarrow> \<exists>its. disk_inv lib (ws_prunedUpToHeight s) its d' \<and> idx_inv (ws_prunedUpToHeight s) its s"
proof -
  let ?P = "ws_prunedUpToHeight s"
  obtain W its where d: "disk_inv lib W its d" "idx_inv W its s" and w: "writer_inv (ws_wal s) (dk_logs d)"
    using assms(1) by (auto simp: clean_inv_def)
  have d': "d' = d \<and> \<not> ok \<or> d' = snd (writePruneWatermark d ?P replaced True)" "err = [] \<longleftrightarrow> ok"
    using assms(2) by (auto simp: writePruneWatermark_def Let_def split: if_splits)
  have "dk_logs (snd (writePruneWatermark d ?P replaced True)) = dk_logs d" by (simp add: writePruneWatermark_def Let_def)
  then have new: "disk_inv lib ?P its (snd (writePruneWatermark d ?P replaced True))"
    using d(1) watermark_roundtrip [of d ?P replaced] by (simp add: disk_inv_def)
  note idx = idx_raise [OF d(2)]
  show "clean_inv lib s d'" using d'(1) d w new idx \<open>dk_logs _ = dk_logs d\<close> by (auto simp: clean_inv_def)
  show "\<exists>its. disk_inv lib ?P its d' \<and> idx_inv ?P its s" if "err = []" using that d' new idx by auto
qed

lemma removeObsolete_inv:
  assumes "clean_inv lib s d" and "removeObsoleteWALFiles ce s d n = (err, s', d')"
  shows "clean_inv lib s' d' \<and> same_index s s'"
proof -
  let ?t = "s\<lparr> ws_pruneRecordsSinceCleanup := ws_pruneRecordsSinceCleanup s + n \<rparr>"
  obtain werr d1 where w: "writePruneWatermark d (ws_prunedUpToHeight ?t) (ce_watermarkReplaced ce) (ce_watermarkOk ce) = (werr, d1)" by force
  obtain rerr wr d2 where r: "closeAndRepairCurrent (ws_wal ?t) d1 (ww_syncedOffset (ws_wal ?t)) False (ce_closeOk ce) (ce_repairOk ce) = (rerr, wr, d2)"
    using prod_cases3 by blast
  obtain cerr d3 where c: "cleanupObsoleteWALs ce (?t\<lparr> ws_wal := wr \<rparr>) d2 = (cerr, d3)" by force
  have t: "clean_inv lib ?t d" using assms(1) by (simp add: clean_inv_def)
  note W = watermark_inv [OF t w]
  have R: "d2 = d1" "writer_inv wr (dk_logs d1)" using rotate_inv [OF _ r] W(1) by (auto simp: clean_inv_def)
  consider "s' = s \<or> s' = ?t" "d' = d" | "s' = ?t" "d' = d1"
    | "werr = []" "d' = d3" "s' = ?t\<lparr> ws_wal := wr \<rparr> \<or> s' = ?t\<lparr> ws_wal := wr, ws_pruneRecordsSinceCleanup := 0 \<rparr>"
    using assms(2) w r c by (auto simp: removeObsoleteWALFiles_def Let_def split: if_splits)
  then show ?thesis
  proof cases
    case 1
    then show ?thesis using assms(1) t by (auto simp: same_index_def)
  next
    case 2
    then show ?thesis using W(1) by (simp add: same_index_def)
  next
    case 3
    let ?u = "?t\<lparr> ws_wal := wr \<rparr>" and ?P = "ws_prunedUpToHeight s"
    obtain its where its: "disk_inv lib ?P its d2" "idx_inv ?P its ?u" using W(2) 3(1) R(1) by auto
    obtain its' where "disk_inv lib ?P its' d3" "idx_inv ?P its' ?u" "writer_inv wr (dk_logs d3)"
      using cleanup_inv [OF its _ _ c] R by auto
    then have "clean_inv lib ?u d3" by (auto simp: clean_inv_def)
    then show ?thesis using 3(3) by (elim disjE) (simp_all add: 3(2) clean_inv_def same_index_def)
  qed
qed

text \<open>A flush either leaves the index and the pending records as they are, or commits all of them.\<close>

definition loaded :: "wal_store \<Rightarrow> height \<Rightarrow> walentry list" where
  "loaded s h = (case ws_entriesByHeight s h of None \<Rightarrow> [] | Some es \<Rightarrow> es)"

lemma loaded_live: "idx_inv W its s \<Longrightarrow> loaded s h = (if h \<le> ws_prunedUpToHeight s then [] else live_at its h)"
  by (simp add: loaded_def idx_inv_def)

definition committed :: "wal_store \<Rightarrow> wal_store \<Rightarrow> bool" where
  "committed s s' \<longleftrightarrow> ws_pendingRecords s' = [] \<and> ws_prunedUpToHeight s' = pruned_by (ws_prunedUpToHeight s) (map (Pair 0) (ws_pendingRecords s)) \<and>
     (\<forall>h. loaded s' h = (if h \<le> ws_prunedUpToHeight s' then [] else loaded s h @ live_at (map (Pair 0) (ws_pendingRecords s)) h))"

lemma pair_irrelevant: "live_at (map (Pair n) rs) h = live_at (map (Pair 0) rs) h" "pruned_by W (map (Pair n) rs) = pruned_by W (map (Pair 0) rs)"
proof -
  show "live_at (map (Pair n) rs) h = live_at (map (Pair 0) rs) h"
    by (induction rs) (simp_all add: live_at_Cons item_entry_def)
  show "pruned_by W (map (Pair n) rs) = pruned_by W (map (Pair 0) rs)"
    unfolding pruned_by_def by (induction rs arbitrary: W) simp_all
qed

lemma committed_pending:
  assumes "idx_inv W its s" and "idx_inv W (its @ map (Pair n) (ws_pendingRecords s)) s1" and "same_index s1 s'"
  shows "committed s (s'\<lparr> ws_pendingRecords := [] \<rparr>)"
proof -
  let ?r = "ws_pendingRecords s" and ?t = "s'\<lparr> ws_pendingRecords := [] \<rparr>"
  have P: "ws_prunedUpToHeight s1 = pruned_by (ws_prunedUpToHeight s) (map (Pair 0) ?r)"
    using assms(1,2) by (simp add: idx_inv_def pair_irrelevant(2) [of _ n])
  have le: "ws_prunedUpToHeight s \<le> ws_prunedUpToHeight s1"
    unfolding P using pruned_by_le [of "ws_prunedUpToHeight s" "map (Pair 0) ?r" "pruned_by (ws_prunedUpToHeight s) (map (Pair 0) ?r)"] by simp
  have same: "ws_prunedUpToHeight ?t = ws_prunedUpToHeight s1" "loaded ?t h = loaded s1 h" for h
    using assms(3) by (simp_all add: same_index_def loaded_def)
  have "loaded ?t h = (if h \<le> ws_prunedUpToHeight ?t then [] else loaded s h @ live_at (map (Pair 0) ?r) h)" for h
    using le loaded_live [OF assms(1), of h] loaded_live [OF assms(2), of h] same by (auto simp: pair_irrelevant(1) [of n])
  then show ?thesis using P same(1) by (simp add: committed_def)
qed

lemma flush_inv:
  assumes laws: "batch_laws lib" and inv: "wal_inv lib s d" and fl: "Flush lib ae ce s d = (err, s', d')"
  shows "wal_inv lib s' d'" and "same_index s s' \<or> committed s s' \<and> ws_closed s' = ws_closed s"
    and "\<not> ws_closed s \<Longrightarrow> length (ws_pendingRecords s) < 2 ^ 32 \<Longrightarrow> ae_createOk ae \<Longrightarrow> ae_written ae \<Longrightarrow> \<not> ww_repairRequired (ws_wal s) \<Longrightarrow> committed s s' \<and> clean_inv lib s' d'"
proof -
  let ?r = "ws_pendingRecords s"
  have good: "list_all good_record ?r" using inv by (simp add: wal_inv_def)
  have self: "committed s s" if "?r = []"
  proof -
    obtain W its where "idx_inv W its s" using inv by (auto simp: wal_inv_def)
    from loaded_live [OF this] show ?thesis using that by (simp add: committed_def)
  qed
  have "wal_inv lib s' d' \<and> (same_index s s' \<or> committed s s' \<and> ws_closed s' = ws_closed s) \<and>
    (\<not> ws_closed s \<longrightarrow> length ?r < 2 ^ 32 \<longrightarrow> ae_createOk ae \<longrightarrow> ae_written ae \<longrightarrow> \<not> ww_repairRequired (ws_wal s) \<longrightarrow> committed s s' \<and> clean_inv lib s' d')"
  proof (cases "ws_closed s \<or> ?r = []")
    case True
    then have "s' = s" "d' = d" using fl by (auto simp: Flush_def split: if_splits)
    moreover have "\<not> ww_repairRequired (ws_wal s) \<Longrightarrow> clean_inv lib s d" using inv by (auto simp: wal_inv_def clean_inv_def)
    ultimately show ?thesis using inv True self by (auto simp: same_index_def)
  next
    case active: False
    show ?thesis
    proof (cases "length ?r < 2 ^ 32")
      case False
      then have "encodeBatch lib ?r (ws_nextBatchSeqNum s) = Inl TooManyRecords" by (simp add: encodeBatch_def)
      then have "s' = s" "d' = d" using fl active by (auto simp: Flush_def)
      then show ?thesis using inv False by (simp add: same_index_def)
    next
      case short: True
      obtain b where b: "encodeBatch lib ?r (ws_nextBatchSeqNum s) = Inr b" "batch_holds lib b ?r"
        using encodeBatch_read [OF laws good short, of "ws_nextBatchSeqNum s"] good by (auto simp: batch_holds_def)
      obtain res w d1 where ap: "appendSync ae (ws_wal s) d b = (res, w, d1)" using prod_cases3 by blast
      show ?thesis
      proof (cases res)
        case (Inl e)
        have "s' = s\<lparr> ws_wal := w \<rparr>" "d' = d1" using fl active b(1) ap Inl by (auto simp: Flush_def)
        moreover have "\<not> (ae_createOk ae \<and> ae_written ae \<and> \<not> ww_repairRequired (ws_wal s))"
          using ap Inl by (auto simp: appendSync_def ensureWriter_def split: option.splits if_splits)
        ultimately show ?thesis using appendSync_failed [OF inv ap [unfolded Inl] b(2)] by (auto simp: same_index_def)
      next
        case (Inr n)
        note A = appendSync_ok [OF inv ap [unfolded Inr] b(2)]
        obtain W its where its: "disk_inv lib W (its @ map (Pair n) ?r) d1" "idx_inv W its s" using A(1) by blast
        let ?t = "s\<lparr> ws_wal := w, ws_nextBatchSeqNum := ws_nextBatchSeqNum s + of_nat (length ?r) \<rparr>"
        have it: "idx_inv W its ?t" using its(2) by simp
        obtain s1 where s1: "updateIndexesFromCommittedRecords n ?t ?r = Some s1" "idx_inv W (its @ map (Pair n) ?r) s1" "same_frame ?t s1"
          using index_records_inv [OF it A(3) good] by blast
        obtain e2 s2 d2 where rm: "removeObsoleteWALFiles ce s1 d1 (countPruneRecords ?r) = (e2, s2, d2)" using prod_cases3 by blast
        have s': "s' = s2\<lparr> ws_pendingRecords := [] \<rparr>" "d' = d2" using fl active b(1) ap Inr s1(1) rm by (simp_all add: Flush_def Let_def)
        have "ws_wal s1 = w" using s1(3) by (simp add: same_frame_def)
        then have "clean_inv lib s1 d1" using A(2) its(1) s1(2) unfolding clean_inv_def by blast
        note R = removeObsolete_inv [OF this rm]
        have "committed s s'" using committed_pending [OF its(2) s1(2)] R s'(1) by simp
        moreover have "wal_inv lib s' d'" using R s' unfolding wal_inv_def clean_inv_def by simp (metis append_Nil2)
        moreover have "ws_closed s' = ws_closed s" using R s1(3) s'(1) by (simp add: same_index_def same_frame_def)
        moreover have "clean_inv lib s' d'" using R s' by (simp add: clean_inv_def)
        ultimately show ?thesis by simp
      qed
    qed
  qed
  then show "wal_inv lib s' d'" "same_index s s' \<or> committed s s' \<and> ws_closed s' = ws_closed s"
    "\<not> ws_closed s \<Longrightarrow> length ?r < 2 ^ 32 \<Longrightarrow> ae_createOk ae \<Longrightarrow> ae_written ae \<Longrightarrow> \<not> ww_repairRequired (ws_wal s) \<Longrightarrow> committed s s' \<and> clean_inv lib s' d'"
    by simp_all
qed

lemma close_inv:
  assumes "batch_laws lib" and "wal_inv lib s d" and "Close lib ae ce s d = (err, s', d')"
  shows "wal_inv lib s' d'"
proof (cases "ws_closed s")
  case True
  then show ?thesis using assms(2,3) by (simp add: Close_def)
next
  case False
  obtain e1 s1 d1 where f: "Flush lib ae ce s d = (e1, s1, d1)" using prod_cases3 by blast
  obtain e2 w d2 where c: "closeAndRepairCurrent (ws_wal s1) d1 (ww_syncedOffset (ws_wal s1)) False (ae_closeOk ae) (ae_repairOk ae) = (e2, w, d2)"
    using prod_cases3 by blast
  have inv: "wal_inv lib s1 d1" by (rule flush_inv(1) [OF assms(1,2) f])
  then have R: "d2 = d1" "writer_inv w (dk_logs d1)" "ww_repairRequired (ws_wal s1) \<longrightarrow> ww_repairRequired w"
    using rotate_inv [OF _ c] by (auto simp: wal_inv_def)
  have "s' = s1\<lparr> ws_closed := True, ws_wal := w \<rparr>" "d' = d1" using assms(3) False f c R(1) by (simp_all add: Close_def)
  then show ?thesis using inv R(2,3) unfolding wal_inv_def by simp blast
qed

lemma disk_reopens:
  assumes "wal_inv lib s d" and "NewTendermintWALStore lib d = Inr s'"
  shows "wal_inv lib s' d"
proof -
  obtain W its ex where i: "disk_inv lib W (its @ ex) d" "sorted_wrt (<) (map fst (dk_logs d))"
    using assms(1) by (auto simp: wal_inv_def writer_inv_def)
  have "idx_inv W (its @ ex) s'" "writer_inv (ws_wal s') (dk_logs d)" "ws_pendingRecords s' = []"
    using reopen_inv [OF i] assms(2) by auto
  then show ?thesis using i(1) unfolding wal_inv_def by simp (metis append_Nil2)
qed

lemma wal_step_inv: "batch_laws lib \<Longrightarrow> wal_step lib sd sd' \<Longrightarrow> wal_inv lib (fst sd) (snd sd) \<Longrightarrow> wal_inv lib (fst sd') (snd sd')"
  by (erule wal_step.cases) (auto intro: set_inv delete_inv flush_inv(1) close_inv disk_reopens)

definition empty_disk :: wal_disk where
  "empty_disk = \<lparr> dk_logs = [], dk_watermark = None \<rparr>"

lemma fresh_inv: "NewTendermintWALStore lib empty_disk = Inr s \<Longrightarrow> wal_inv lib s empty_disk"
proof -
  assume n: "NewTendermintWALStore lib empty_disk = Inr s"
  have d: "disk_inv lib 0 [] empty_disk"
    by (simp add: disk_inv_def empty_disk_def loadPruneWatermark_def logs_hold_def)
  show ?thesis using reopen_inv [OF d] n d unfolding wal_inv_def by (simp add: empty_disk_def) (metis append_Nil2)
qed

lemma wal_reachable_inv:
  assumes "batch_laws lib" and "NewTendermintWALStore lib empty_disk = Inr s0" and "(wal_step lib)\<^sup>*\<^sup>* (s0, empty_disk) sd"
  shows "wal_inv lib (fst sd) (snd sd)"
  using assms(3)
proof (induction rule: rtranclp_induct)
  case base
  then show ?case using fresh_inv [OF assms(2)] by simp
next
  case (step y z)
  then show ?case using wal_step_inv [OF assms(1)] by blast
qed

lemma clean_reopens:
  assumes "clean_inv lib s d"
  shows "\<exists>s'. NewTendermintWALStore lib d = Inr s' \<and> ws_entriesByHeight s' = ws_entriesByHeight s \<and> ws_prunedUpToHeight s' = ws_prunedUpToHeight s"
proof -
  obtain W its where i: "disk_inv lib W its d" "idx_inv W its s" "sorted_wrt (<) (map fst (dk_logs d))"
    using assms by (auto simp: clean_inv_def writer_inv_def)
  obtain s' where "NewTendermintWALStore lib d = Inr s'" "idx_inv W its s'" using reopen_inv [OF i(1,3)] by blast
  then show ?thesis using i(2) by (auto simp: idx_inv_def fun_eq_iff)
qed

section \<open>An example\<close>

abbreviation ex_append :: append_env where
  "ex_append \<equiv> \<lparr> ae_createOk = True, ae_written = True, ae_survives = True, ae_closeOk = True, ae_repairOk = True \<rparr>"

abbreviation ex_cleanup :: cleanup_env where
  "ex_cleanup \<equiv> \<lparr> ce_watermarkReplaced = True, ce_watermarkOk = True, ce_closeOk = True, ce_repairOk = True, ce_removed = (\<lambda>_. True), ce_removeOk = True \<rparr>"

abbreviation ex_store :: wal_store where
  "ex_store \<equiv> empty_store (newWALWriter 1) 0"

abbreviation ex_pending :: wal_store where
  "ex_pending \<equiv> ex_store\<lparr> ws_pendingRecords := [entry_record (WalStart 5)] \<rparr>"

lemma empty_store_fields:
  "ws_wal (empty_store w p) = w" "ws_nextBatchSeqNum (empty_store w p) = 1" "\<not> ws_closed (empty_store w p)"
  "ws_prunedUpToHeight (empty_store w p) = p" "ws_entriesByHeight (empty_store w p) = Map.empty"
  by (simp_all add: empty_store_def)

lemma ex_open: "NewTendermintWALStore lib empty_disk = Inr ex_store"
  by (simp add: NewTendermintWALStore_def empty_disk_def loadPruneWatermark_def nextWALNum_def)

lemma ex_set: "(wal_step lib)\<^sup>*\<^sup>* (ex_store, empty_disk) (ex_pending, empty_disk)"
proof -
  have "SetWALEntry ex_store (WalStart 5) = Inr ex_pending"
    by (simp add: SetWALEntry_def entry_record_def) (simp add: empty_store_def)
  then have "wal_step lib (ex_store, empty_disk) (ex_pending, empty_disk)" by (intro wal_step.set [of "WalStart 5"]) simp_all
  then show ?thesis by blast
qed

lemma ex_flush: "\<exists>s d. Flush plain_batch ex_append ex_cleanup ex_pending empty_disk = ([], s, d) \<and> \<not> ww_repairRequired (ws_wal s) \<and>
    LoadAllEntries s = [WalStart 5]"
proof -
  have "list_all good_record [entry_record (WalStart 5)]" by (auto simp: good_record_def)
  then obtain b where b: "encodeBatch plain_batch [entry_record (WalStart 5)] 1 = Inr b"
    using encodeBatch_read [OF plain_batch_laws, of "[entry_record (WalStart 5)]" 1] by auto
  let ?w = "\<lparr> ww_nextWALNum = 2, ww_current = Some 1, ww_syncedOffset = 1, ww_repairRequired = False \<rparr>"
  let ?t = "ex_pending\<lparr> ws_wal := ?w, ws_nextBatchSeqNum := 2 \<rparr>"
  obtain d where ap: "appendSync ex_append (newWALWriter 1) empty_disk b = (Inr 1, ?w, d)"
    by (simp add: appendSync_def ensureWriter_def newWALWriter_def)
  have up: "updateIndexesFromCommittedRecords 1 ?t [entry_record (WalStart 5)] = Some (addLiveEntry ?t 1 (WalStart 5))"
    by (simp add: index_record_def kind_defs empty_store_fields)
  have rm: "removeObsoleteWALFiles ex_cleanup s d (countPruneRecords [entry_record (WalStart 5)]) = ([], s, d)" for s
    by (simp add: removeObsoleteWALFiles_def countPruneRecords_def kind_defs)
  let ?s = "(addLiveEntry ?t 1 (WalStart 5))\<lparr> ws_pendingRecords := [] \<rparr>"
  have "Flush plain_batch ex_append ex_cleanup ex_pending empty_disk = ([], ?s, d)"
    using b ap up rm by (simp add: Flush_def Let_def empty_store_fields)
  moreover have "LoadAllEntries ?s = [WalStart 5]" by (simp add: LoadAllEntries_def empty_store_fields)
  ultimately show ?thesis by fastforce
qed

section \<open>Properties\<close>

text \<open>C7: Crash recovery. Whatever sequence of operations, failed writes, clean-ups of old log files and restarts has led
  to the present state, reopening the store from a disk that can be read succeeds, and it loads exactly the entries that the running
  store would load, with the same prune height; the only exception is a write that failed and whose remains could not be truncated.\<close>

theorem wal_recovery:
  assumes "batch_laws lib" and "NewTendermintWALStore lib empty_disk = Inr s0" and "(wal_step lib)\<^sup>*\<^sup>* (s0, empty_disk) (s, d)"
  shows "\<exists>s'. NewTendermintWALStore lib d = Inr s' \<and> (ww_repairRequired (ws_wal s) \<or>
    LoadAllEntries s' = LoadAllEntries s \<and> ws_prunedUpToHeight s' = ws_prunedUpToHeight s)"
proof (cases "ww_repairRequired (ws_wal s)")
  case True
  obtain W its where "disk_inv lib W its d" "sorted_wrt (<) (map fst (dk_logs d))"
    using wal_reachable_inv [OF assms] by (auto simp: wal_inv_def writer_inv_def)
  then show ?thesis using reopen_inv True by blast
next
  case False
  then have "clean_inv lib s d" using wal_reachable_inv [OF assms] by (auto simp: wal_inv_def clean_inv_def)
  then show ?thesis using clean_reopens by (fastforce simp: LoadAllEntries_def)
qed

theorem wal_recovery_witness:
  "\<exists>s d s'. (wal_step plain_batch)\<^sup>*\<^sup>* (ex_store, empty_disk) (s, d) \<and> NewTendermintWALStore plain_batch d = Inr s' \<and>
    LoadAllEntries s' = [WalStart 5]"
proof -
  obtain s d where f: "Flush plain_batch ex_append ex_cleanup ex_pending empty_disk = ([], s, d)" "\<not> ww_repairRequired (ws_wal s)"
    "LoadAllEntries s = [WalStart 5]" using ex_flush by blast
  have "(wal_step plain_batch)\<^sup>*\<^sup>* (ex_store, empty_disk) (s, d)"
    by (rule rtranclp.rtrancl_into_rtrancl [OF ex_set wal_step.flush [OF f(1)]])
  from wal_recovery [OF plain_batch_laws ex_open this] this f(2,3) show ?thesis by auto
qed

text \<open>C8: Durability. Once a flush has written and synced its batch, a store reopened from the disk, even if the clean-up that
  follows fails, has for every height above the prune height the entries of before and then the flushed ones, in their order, and
  nothing at or below it; the prune height is the greatest of the old one and the flushed ones.\<close>

theorem flush_durable:
  assumes "batch_laws lib" and "NewTendermintWALStore lib empty_disk = Inr s0" and "(wal_step lib)\<^sup>*\<^sup>* (s0, empty_disk) (s, d)"
    and "\<not> ws_closed s" and "length (ws_pendingRecords s) < 2 ^ 32" and "\<not> ww_repairRequired (ws_wal s)"
    and "ae_createOk ae" and "ae_written ae" and "Flush lib ae ce s d = (err, s1, d1)"
  shows "\<exists>s'. NewTendermintWALStore lib d1 = Inr s' \<and>
    ws_prunedUpToHeight s' = pruned_by (ws_prunedUpToHeight s) (map (Pair 0) (ws_pendingRecords s)) \<and>
    (\<forall>h. loaded s' h = (if h \<le> ws_prunedUpToHeight s' then [] else loaded s h @ live_at (map (Pair 0) (ws_pendingRecords s)) h))"
proof -
  have inv: "wal_inv lib s d" using wal_reachable_inv [OF assms(1-3)] by simp
  have c: "committed s s1" "clean_inv lib s1 d1" using flush_inv(3) [OF assms(1) inv assms(9,4,5,7,8,6)] by simp_all
  obtain s' where s': "NewTendermintWALStore lib d1 = Inr s'" "ws_entriesByHeight s' = ws_entriesByHeight s1"
    "ws_prunedUpToHeight s' = ws_prunedUpToHeight s1" using clean_reopens [OF c(2)] by blast
  then have "loaded s' = loaded s1" by (simp add: loaded_def fun_eq_iff)
  then show ?thesis using s' c(1) by (simp add: committed_def)
qed

theorem flush_durable_witness:
  "\<exists>s d s'. Flush plain_batch ex_append ex_cleanup ex_pending empty_disk = ([], s, d) \<and> NewTendermintWALStore plain_batch d = Inr s' \<and>
    ws_prunedUpToHeight s' = 0 \<and> loaded s' 5 = [WalStart 5]"
proof -
  obtain s d where f: "Flush plain_batch ex_append ex_cleanup ex_pending empty_disk = ([], s, d)" using ex_flush by blast
  have st: "\<not> ws_closed ex_pending" "length (ws_pendingRecords ex_pending) < 2 ^ 32" "\<not> ww_repairRequired (ws_wal ex_pending)"
    by (simp_all add: empty_store_def newWALWriter_def)
  have l: "loaded ex_pending 5 = []" "ws_prunedUpToHeight ex_pending = 0" by (simp_all add: loaded_def empty_store_def)
  obtain s' where "NewTendermintWALStore plain_batch d = Inr s'" "ws_prunedUpToHeight s' = 0" "loaded s' 5 = [WalStart 5]"
    using flush_durable [OF plain_batch_laws ex_open ex_set st _ _ f] l by auto
  then show ?thesis using f by auto
qed

end
