(* ===== verification/Spec2Isabelle.thy ===== *)
theory Spec2Isabelle
  imports Consensus_Agreement Bit_Array_Contract Trie_Contract Propeller_Engine Propeller_Workers Wal_Store
begin

text \<open>
  A verification development for four subsystems of the Starknet full node Juno: Tendermint consensus
  (\<open>consensus/tendermint\<close>, \<open>consensus/votecounter\<close>, \<open>consensus/types\<close>), the write-ahead log from which a consensus node
  recovers (\<open>consensus/walstore\<close>), the Merkle-Patricia trie that commits to the state (\<open>core/trie\<close>), and the erasure-coded broadcast protocol Propeller (\<open>consensus/propeller\<close>). All paths are
  relative to \<open>src\<close>.

  \<^bold>\<open>Consensus.\<close> \<open>Consensus_Types\<close> has the messages, actions and log entries of \<open>consensus/types\<close>. \<open>Vote_Counter\<close> has the
  ballots and rounds of \<open>consensus/votecounter\<close>: a record per round, with the voting power of the ballots as 64-bit words.
  \<open>Validator_Set\<close> has the thresholds \<open>f\<close> and \<open>q\<close> and the interface of a validator set as the locale \<open>validator_set\<close>, with
  the mock validators of \<open>consensus/mock.go\<close>. \<open>Tendermint\<close> is the state machine: one definition per rule
  (\<open>rule_*.go\<close>), \<open>process\<close> for the order in which the rules fire, and the entry points of \<open>process.go\<close>, \<open>timeout.go\<close> and
  \<open>tendermint.go\<close>; each returns the new state and the list of actions. \<open>Consensus_Network\<close> places such machines in a network
  whose faulty members send anything, as an inductive step relation, and proves the invariant of an honest node: at most one
  vote per height, round and type, the lock rules, and that what it counts was sent. \<open>Consensus_Agreement\<close> concludes that two
  honest nodes never commit different values at a height (C1), that an honest node does not equivocate and that every commit
  is certified by a quorum.

  \<^bold>\<open>Write-ahead log.\<close> \<open>Wal_Codec\<close> has the log records with their byte format and the batches of \<open>record.go\<close> and \<open>codec.go\<close>;
  Pebble's reader of batches is the parameter \<open>batch_lib\<close> with the documented layout \<open>batch_laws\<close>, and \<open>plain_batch\<close> is an
  instance. \<open>Wal_Store\<close> has the writer with its repair of failed writes, the index of live entries, replay, the prune watermark
  and the operations of the store. The disk is the list of log files, each the list of its complete batches, and the watermark
  file; which steps of a write or a clean-up succeed is an argument. \<open>wal_step\<close> runs the operations in any order with restarts
  in between. What follows the last complete batch of a file and errors in reading are left out. The theorems are that encoding round-trips and is canonical, that reopening the store gives the entries of the
  running one, and that what a flush has synced is loaded again.

  \<^bold>\<open>Trie.\<close> \<open>Bit_Array\<close> translates \<open>core/trie/bitarray.go\<close> on four 64-bit words and a length byte; \<open>Bit_Array_Lists\<close> and
  \<open>Bit_Array_Order\<close> relate its operations to lists of bits, \<open>Bit_Array_Codec\<close> treats its byte formats, and
  \<open>Bit_Array_Contract\<close> states the results. \<open>Felt_Lib\<close> is the interface of field elements (locale \<open>felt_lib\<close>, interpreted on
  the integers modulo the Stark prime and on byte strings). \<open>Trie_Storage\<close> has nodes (\<open>node.go\<close>) and storage (\<open>storage.go\<close>, a
  database transaction is a map from byte strings to byte strings), \<open>Trie\<close> the operations of \<open>trie.go\<close>. A loop that follows
  links has fuel 257: a path has at most 252 nodes, and that no run needs more is proved (\<open>walk_terminates\<close>). The proof goes
  by a chain of refinements: the store holds a binary tree (\<open>Trie_Tree\<close>, \<open>Trie_Correct\<close>), the tree with cached and dirty
  hashes commits to the sparse Merkle tree of its contents (\<open>Trie_Commitment\<close>, \<open>Trie_Recompute\<close>), so that lookups return
  what was stored, the root is a function of the contents alone, and a persisted trie can be reopened (\<open>Trie_Properties\<close>,
  \<open>Trie_Contract\<close>).

  \<^bold>\<open>Propeller.\<close> \<open>Propeller_Codec\<close> has the length-prefixed padding and the signed payload, \<open>Sha256\<close> the hash of the standard
  library, \<open>Propeller_Merkle\<close> the Merkle trees of shards, \<open>Propeller_Scheduler\<close> the assignment of shards to peers, \<open>Timecache\<close>
  the ring buffer of recently finished messages, \<open>Propeller_Sharding\<close> the way from a message to its units and back, and
  \<open>Propeller_Validator\<close> the wire format of a unit and its validation. \<open>Propeller_Subprocessor\<close> is the worker that collects the
  units of one message and forwards the local shard, \<open>Propeller_Processor\<close> the set of workers with its bounds and the cache of
  finished messages (\<open>processor.go\<close>), both as operations and as goroutines: \<open>proc_step\<close> interleaves the accesses to shared state
  of a call of \<open>ProcessMessage\<close>, of \<open>Run\<close> and of the workers, and a panic of any of them ends the process. \<open>Propeller_Workers\<close> has
  the invariant of these interleavings, and \<open>Propeller_Engine\<close> the committees, commands and broadcasts of \<open>engine.go\<close> with the service of \<open>propeller.go\<close> on top. The
  theorems are round trips, completeness and soundness of Merkle proofs, that all members of a committee compute the same
  schedule and accept what they send each other by it, that any sufficient set of units gives back the message, what a
  validator establishes of the units it accepts, that a worker forwards its shard once, that the counters of the processor are
  exact in every interleaving, that a processor as it is created never gets the slot of a worker back, that a broadcast is answered in every interleaving, and the inputs on which the code
  panics, blocks or drops its work.

  \<^bold>\<open>Conventions.\<close> Integers of a fixed width are words; Go's \<open>int\<close> is \<open>nat\<close> where it is a length or an index and \<open>int\<close> where it
  can be negative. A nil pointer is \<open>None\<close>. Fallible code returns its error on the left of a sum; a panic is an error value of
  its own. Code that is not in the repository is a parameter: field arithmetic and hashes over it, the key library, the
  erasure code, the protobuf encoding of shards. What the theorems assume of it is a named hypothesis or a locale.

  \<^bold>\<open>Not modelled.\<close> Goroutines, channels and locks are not modelled as such, except in the processor of Propeller: an operation that
  holds a lock is one step, what arrives on a channel is a list or an event, and a send that can never be received is an outcome of
  its own. Unsynchronised accesses to a map are taken not to overlap.
  Logging, metrics and the text of errors are left out. The other packages of the repository are listed in the manifest with
  the reason: they are network, database or RPC plumbing, foreign code behind an interface, or conversions between external
  formats.
\<close>

end
